(* ===== verification/EP_Prelude.thy ===== *)
theory EP_Prelude
  imports Main "HOL-Library.Word" "HOL-Library.Sublist"
begin

text \<open>
  The prelude of the development: the machine types of the Rust sources, the big-endian
  conversions of the standard library that the wire formats use, and the generic lemmas on
  lists, options and words that the component theories share.

  \<^item> \<open>u8\<close>, \<open>u16\<close>, \<open>u32\<close> are words of that width; \<open>bytes\<close> is \<open>Vec<u8>\<close> / \<open>&[u8]\<close>.
  \<^item> a Rust \<open>String\<close> / \<open>&str\<close> is an Isabelle \<open>string\<close>: one \<open>char\<close> per UTF-8 byte, so
    that \<open>length\<close> is Rust's \<open>len()\<close> and slicing is by byte offset.
  \<^item> \<open>wire_simps\<close> collects the layout facts of the binary formats, \<open>str_simps\<close> the
    rewriting facts on strings.
\<close>

unbundle bit_operations_syntax

named_theorems wire_simps \<open>layout of the binary formats\<close>
named_theorems str_simps \<open>facts on the string operations\<close>

type_synonym u8 = "8 word"
type_synonym u16 = "16 word"
type_synonym u32 = "32 word"
type_synonym bytes = "u8 list"

subsection \<open>Big-endian integers (\<open>to_be_bytes\<close>, \<open>from_be_bytes\<close>)\<close>

definition u32_to_be_bytes :: "u32 \<Rightarrow> bytes" where
  "u32_to_be_bytes w =
     [ucast (drop_bit 24 w), ucast (drop_bit 16 w), ucast (drop_bit 8 w), ucast w]"

definition u32_from_be_bytes :: "u8 \<Rightarrow> u8 \<Rightarrow> u8 \<Rightarrow> u8 \<Rightarrow> u32" where
  "u32_from_be_bytes a b c d =
     push_bit 24 (ucast a) OR push_bit 16 (ucast b) OR push_bit 8 (ucast c) OR ucast d"

definition u16_to_be_bytes :: "u16 \<Rightarrow> bytes" where
  "u16_to_be_bytes w = [ucast (drop_bit 8 w), ucast w]"

definition u16_from_be_bytes :: "u8 \<Rightarrow> u8 \<Rightarrow> u16" where
  "u16_from_be_bytes a b = push_bit 8 (ucast a) OR ucast b"

lemma u8_less: "unat (b :: u8) < 256"
  using unsigned_less [of b, where ?'a = nat] by simp

lemma u16_less: "unat (w :: u16) < 65536"
  using unsigned_less [of w, where ?'a = nat] by simp

lemma bit_mask_u16: "(w :: u16) AND m = v \<Longrightarrow> bit m n \<Longrightarrow> bit w n = bit v n"
  by (auto simp: bit_and_iff)

lemma not_bit_u8: "8 \<le> n \<Longrightarrow> \<not> bit (b :: u8) n"
  using bit_imp_le_length [of b n] by auto

lemma length_u32_to_be_bytes [simp]: "length (u32_to_be_bytes w) = 4"
  by (simp add: u32_to_be_bytes_def)

lemma length_u16_to_be_bytes [simp]: "length (u16_to_be_bytes w) = 2"
  by (simp add: u16_to_be_bytes_def)

lemma u32_from_to_be_bytes [wire_simps]:
  "u32_from_be_bytes (ucast (drop_bit 24 w)) (ucast (drop_bit 16 w)) (ucast (drop_bit 8 w)) (ucast w) = w"
proof (rule bit_word_eqI)
  fix n assume "n < LENGTH(32)"
  then consider "n < 8" | "8 \<le> n \<and> n < 16" | "16 \<le> n \<and> n < 24" | "24 \<le> n \<and> n < 32"
    by force
  then show "bit (u32_from_be_bytes (ucast (drop_bit 24 w)) (ucast (drop_bit 16 w))
      (ucast (drop_bit 8 w)) (ucast w)) n = bit w n"
    by cases (auto simp: u32_from_be_bytes_def bit_simps)
qed

lemma u32_to_from_be_bytes [wire_simps]:
  "u32_to_be_bytes (u32_from_be_bytes a b c d) = [a, b, c, d]"
  unfolding u32_from_be_bytes_def u32_to_be_bytes_def
  by (auto intro!: bit_word_eqI simp: bit_simps not_bit_u8)

lemma u16_from_to_be_bytes [wire_simps]:
  "u16_from_be_bytes (ucast (drop_bit 8 w)) (ucast w) = w"
  unfolding u16_from_be_bytes_def
  by (rule bit_word_eqI) (auto simp: bit_simps not_less)

lemma u16_to_from_be_bytes [wire_simps]:
  "u16_to_be_bytes (u16_from_be_bytes a b) = [a, b]"
  unfolding u16_from_be_bytes_def u16_to_be_bytes_def
  by (auto intro!: bit_word_eqI simp: bit_simps not_bit_u8)

subsection \<open>Lists\<close>

lemma suffix_iff_drop: "suffix xs ys \<longleftrightarrow> length xs \<le> length ys \<and> drop (length ys - length xs) ys = xs"
  by (metis append_take_drop_id diff_diff_cancel length_drop same_append_eq suffix_def
      suffix_length_le suffix_take)

lemma five_or_more:
  "5 \<le> length xs \<longleftrightarrow> (\<exists>a b c d e ys. xs = a # b # c # d # e # ys)"
  by (auto simp: Suc_le_length_iff numeral_eq_Suc)

end
