(* ===== verification/Rust_Str.thy ===== *)
theory Rust_Str
  imports EP_Prelude
begin

text \<open>
  The operations of Rust's \<open>str\<close> and \<open>String\<close> that the sources call, on strings held as
  their UTF-8 bytes.
\<close>

subsection \<open>Bytes and UTF-8\<close>

definition byte_of_char :: "char \<Rightarrow> u8" where
  "byte_of_char c = of_nat (of_char c)"

definition char_of_byte :: "u8 \<Rightarrow> char" where
  "char_of_byte b = char_of (unat b)"

definition as_bytes :: "string \<Rightarrow> bytes" where
  "as_bytes s = map byte_of_char s"

definition of_bytes :: "bytes \<Rightarrow> string" where
  "of_bytes bs = map char_of_byte bs"

lemma char_of_byte_of_char [simp]: "char_of_byte (byte_of_char c) = c"
  by (simp add: byte_of_char_def char_of_byte_def unat_of_nat take_bit_eq_mod)

lemma byte_of_char_of_byte [simp]: "byte_of_char (char_of_byte b) = b"
  using unsigned_less [of b, where ?'a = nat] by (simp add: byte_of_char_def char_of_byte_def)


lemma of_bytes_as_bytes [simp]: "of_bytes (as_bytes s) = s"
  by (simp add: of_bytes_def as_bytes_def comp_def)

lemma as_bytes_of_bytes [simp]: "as_bytes (of_bytes bs) = bs"
  by (simp add: of_bytes_def as_bytes_def comp_def)

lemma length_as_bytes [simp]: "length (as_bytes s) = length s"
  by (simp add: as_bytes_def)

lemma as_bytes_append [simp]: "as_bytes (s @ t) = as_bytes s @ as_bytes t"
  by (simp add: as_bytes_def)

lemma as_bytes_inject [simp]: "as_bytes s = as_bytes t \<longleftrightarrow> s = t"
  by (metis of_bytes_as_bytes)

text \<open>
  \<open>std::str::from_utf8\<close> accepts exactly the well-formed byte sequences of Unicode's
  table 3-7 (no overlong forms, no surrogates, nothing above U+10FFFF).
\<close>

definition cont_byte :: "u8 \<Rightarrow> bool" where
  "cont_byte b \<longleftrightarrow> 0x80 \<le> b \<and> b \<le> 0xBF"

definition utf8_second3 :: "u8 \<Rightarrow> u8 \<Rightarrow> bool" where
  "utf8_second3 b c \<longleftrightarrow>
     (if b = 0xE0 then 0xA0 \<le> c \<and> c \<le> 0xBF
      else if b = 0xED then 0x80 \<le> c \<and> c \<le> 0x9F
      else cont_byte c)"

definition utf8_second4 :: "u8 \<Rightarrow> u8 \<Rightarrow> bool" where
  "utf8_second4 b c \<longleftrightarrow>
     (if b = 0xF0 then 0x90 \<le> c \<and> c \<le> 0xBF
      else if b = 0xF4 then 0x80 \<le> c \<and> c \<le> 0x8F
      else cont_byte c)"

definition utf8_next :: "bytes \<Rightarrow> bytes option" where
  \<comment> \<open>the rest of the input after one well-formed character\<close>
  "utf8_next s =
     (case s of
        [] \<Rightarrow> None
      | b # r1 \<Rightarrow>
          if b < 0x80 then Some r1
          else if 0xC2 \<le> b \<and> b \<le> 0xDF then
            (case r1 of c # r2 \<Rightarrow> if cont_byte c then Some r2 else None | [] \<Rightarrow> None)
          else if 0xE0 \<le> b \<and> b \<le> 0xEF then
            (case r1 of
               c # d # r3 \<Rightarrow> if utf8_second3 b c \<and> cont_byte d then Some r3 else None
             | _ \<Rightarrow> None)
          else if 0xF0 \<le> b \<and> b \<le> 0xF4 then
            (case r1 of
               c # d # e # r4 \<Rightarrow>
                 if utf8_second4 b c \<and> cont_byte d \<and> cont_byte e then Some r4 else None
             | _ \<Rightarrow> None)
          else None)"

lemma utf8_next_length: "utf8_next s = Some r \<Longrightarrow> length r < length s"
  unfolding utf8_next_def by (auto split: list.split_asm if_split_asm)

lemma utf8_next_append: "utf8_next s = Some r \<Longrightarrow> utf8_next (s @ t) = Some (r @ t)"
  unfolding utf8_next_def by (auto split: list.split_asm if_split_asm)

function utf8_valid :: "bytes \<Rightarrow> bool" where
  "utf8_valid s =
     (s = [] \<or> (case utf8_next s of Some r \<Rightarrow> utf8_valid r | None \<Rightarrow> False))"
  by pat_completeness auto
termination
  by (relation "measure length") (auto dest: utf8_next_length)

declare utf8_valid.simps [simp del]

lemma utf8_valid_Nil [simp]: "utf8_valid []"
  by (simp add: utf8_valid.simps)

lemma utf8_valid_ascii_Cons [simp]: "b < 0x80 \<Longrightarrow> utf8_valid (b # s) = utf8_valid s"
  by (simp add: utf8_valid.simps [of "b # s"] utf8_next_def)

definition from_utf8 :: "bytes \<Rightarrow> string option" where
  "from_utf8 bs = (if utf8_valid bs then Some (of_bytes bs) else None)"

text \<open>The invariant of the type \<open>String\<close>: its bytes are well-formed UTF-8.\<close>

definition valid_str :: "string \<Rightarrow> bool" where
  "valid_str s \<longleftrightarrow> utf8_valid (as_bytes s)"

lemma from_utf8_as_bytes [str_simps]: "valid_str s \<Longrightarrow> from_utf8 (as_bytes s) = Some s"
  by (simp add: from_utf8_def valid_str_def)

lemma from_utf8_Some_iff [str_simps]:
  "from_utf8 bs = Some s \<longleftrightarrow> valid_str s \<and> bs = as_bytes s"
  by (auto simp: from_utf8_def valid_str_def)

lemma from_utf8_None_iff [str_simps]: "from_utf8 bs = None \<longleftrightarrow> \<not> utf8_valid bs"
  by (simp add: from_utf8_def)

lemma utf8_valid_append: "utf8_valid xs \<Longrightarrow> utf8_valid (xs @ ys) \<longleftrightarrow> utf8_valid ys"
proof (induction xs rule: utf8_valid.induct)
  case (1 s)
  show ?case
  proof (cases "s = []")
    case False
    with "1.prems" obtain r where r: "utf8_next s = Some r" "utf8_valid r"
      by (auto simp: utf8_valid.simps [of s] split: option.splits)
    then have "utf8_valid (s @ ys) \<longleftrightarrow> utf8_valid (r @ ys)"
      using False by (simp add: utf8_valid.simps [of "s @ ys"] utf8_next_append)
    with "1.IH" False r show ?thesis by simp
  qed simp
qed

lemma valid_str_append: "valid_str s \<Longrightarrow> valid_str (s @ t) \<longleftrightarrow> valid_str t"
  by (simp add: valid_str_def utf8_valid_append)

definition is_ascii :: "string \<Rightarrow> bool" where
  "is_ascii s \<longleftrightarrow> list_all (\<lambda>c. of_char c < (128 :: nat)) s"

lemma byte_of_char_less_128: "byte_of_char c < 0x80 \<longleftrightarrow> of_char c < (128 :: nat)"
  by (simp add: byte_of_char_def word_less_nat_alt unat_of_nat take_bit_eq_mod)

lemma is_ascii_Nil [simp]: "is_ascii []"
  and is_ascii_Cons [simp]: "is_ascii (c # s) \<longleftrightarrow> of_char c < (128 :: nat) \<and> is_ascii s"
  and is_ascii_append [simp]: "is_ascii (s @ t) \<longleftrightarrow> is_ascii s \<and> is_ascii t"
  by (simp_all add: is_ascii_def)

lemma ascii_valid_str: "is_ascii s \<Longrightarrow> valid_str s"
  by (induction s) (auto simp: valid_str_def as_bytes_def byte_of_char_less_128)


subsection \<open>Prefixes, suffixes, substrings\<close>

definition starts_with :: "'a list \<Rightarrow> 'a list \<Rightarrow> bool" where
  "starts_with s p \<longleftrightarrow> take (length p) s = p"

definition ends_with :: "'a list \<Rightarrow> 'a list \<Rightarrow> bool" where
  "ends_with s p \<longleftrightarrow> length p \<le> length s \<and> drop (length s - length p) s = p"

fun contains_str :: "'a list \<Rightarrow> 'a list \<Rightarrow> bool" where
  "contains_str [] p = (p = [])"
| "contains_str (c # s) p = (starts_with (c # s) p \<or> contains_str s p)"

definition strip_prefix :: "'a list \<Rightarrow> 'a list \<Rightarrow> 'a list option" where
  "strip_prefix s p = (if starts_with s p then Some (drop (length p) s) else None)"

lemma starts_with_iff [str_simps]: "starts_with s p \<longleftrightarrow> (\<exists>t. s = p @ t)"
  by (auto simp: starts_with_def) (metis append_take_drop_id)

lemma starts_with_append [simp]: "starts_with (p @ t) p"
  by (simp add: starts_with_def)

lemma ends_with_iff [str_simps]: "ends_with s p \<longleftrightarrow> (\<exists>t. s = t @ p)"
  by (auto simp: ends_with_def) (metis append_take_drop_id)

lemma ends_with_append [simp]: "ends_with (t @ p) p"
  by (simp add: ends_with_def)

lemma contains_str_sublist: "contains_str s p \<longleftrightarrow> sublist p s"
  by (induction s) (auto simp: starts_with_iff sublist_Cons_right prefix_def)

lemma contains_str_iff [str_simps]: "contains_str s p \<longleftrightarrow> (\<exists>t u. s = t @ p @ u)"
  by (simp add: contains_str_sublist sublist_def)

lemma strip_prefix_Some_iff [str_simps]: "strip_prefix s p = Some t \<longleftrightarrow> s = p @ t"
  by (auto simp: strip_prefix_def starts_with_iff)

subsection \<open>Splitting at a separator\<close>

fun rsplit_once :: "'a \<Rightarrow> 'a list \<Rightarrow> ('a list \<times> 'a list) option" where
  "rsplit_once c [] = None"
| "rsplit_once c (x # xs) =
     (case rsplit_once c xs of
        Some (h, p) \<Rightarrow> Some (x # h, p)
      | None \<Rightarrow> if x = c then Some ([], xs) else None)"

definition split_once :: "'a \<Rightarrow> 'a list \<Rightarrow> ('a list \<times> 'a list) option" where
  "split_once c s =
     (if c \<in> set s
      then Some (takeWhile (\<lambda>x. x \<noteq> c) s, tl (dropWhile (\<lambda>x. x \<noteq> c) s)) else None)"

fun splitn :: "nat \<Rightarrow> 'a \<Rightarrow> 'a list \<Rightarrow> 'a list list" where
  "splitn 0 c s = []"
| "splitn (Suc 0) c s = [s]"
| "splitn (Suc (Suc n)) c s =
     (case split_once c s of
        None \<Rightarrow> [s]
      | Some (h, r) \<Rightarrow> h # splitn (Suc n) c r)"

lemma rsplit_once_None_iff [str_simps]: "rsplit_once c s = None \<longleftrightarrow> c \<notin> set s"
  by (induction s) (auto split: option.splits)

lemma rsplit_once_append [simp]: "c \<notin> set p \<Longrightarrow> rsplit_once c (h @ c # p) = Some (h, p)"
  by (induction h) (auto simp: rsplit_once_None_iff [THEN iffD2])

lemma rsplit_once_Some_iff [str_simps]:
  "rsplit_once c s = Some (h, p) \<longleftrightarrow> s = h @ c # p \<and> c \<notin> set p"
proof
  assume "rsplit_once c s = Some (h, p)"
  then show "s = h @ c # p \<and> c \<notin> set p"
    by (induction s arbitrary: h)
       (auto simp: rsplit_once_None_iff split: option.splits if_splits)
qed auto

lemma split_once_append [simp]: "c \<notin> set h \<Longrightarrow> split_once c (h @ c # r) = Some (h, r)"
  by (induction h) (auto simp: split_once_def)

lemma split_unique: "c \<notin> set a \<Longrightarrow> c \<notin> set b \<Longrightarrow> a @ c # x = b @ c # y \<longleftrightarrow> a = b \<and> x = y"
  by (metis option.inject prod.inject split_once_append)

lemma split_once_None_iff [str_simps]: "split_once c s = None \<longleftrightarrow> c \<notin> set s"
  by (simp add: split_once_def)

lemma split_once_Some_iff [str_simps]:
  "split_once c s = Some (h, r) \<longleftrightarrow> s = h @ c # r \<and> c \<notin> set h"
proof
  assume sp: "split_once c s = Some (h, r)"
  then have "c \<in> set s" by (auto simp: split_once_def split: if_splits)
  then obtain h' r' where "s = h' @ c # r'" "c \<notin> set h'"
    by (auto dest: split_list_first)
  with sp show "s = h @ c # r \<and> c \<notin> set h" by simp
qed simp


subsection \<open>Trimming\<close>

text \<open>
  \<open>str::trim\<close> removes the characters with Unicode's \<open>White_Space\<close> property; these are
  their UTF-8 encodings. \<open>strip_front ws\<close> removes the leading occurrences of the (non-empty)
  strings of \<open>ws\<close>; the end of a string is stripped on its reversal.
\<close>

definition white_space :: "string list" where
  "white_space =
     [[CHR 0x09], [CHR 0x0A], [CHR 0x0B], [CHR 0x0C], [CHR 0x0D], [CHR 0x20],
      [CHR 0xC2, CHR 0x85], [CHR 0xC2, CHR 0xA0], [CHR 0xE1, CHR 0x9A, CHR 0x80],
      [CHR 0xE2, CHR 0x80, CHR 0x80], [CHR 0xE2, CHR 0x80, CHR 0x81],
      [CHR 0xE2, CHR 0x80, CHR 0x82], [CHR 0xE2, CHR 0x80, CHR 0x83],
      [CHR 0xE2, CHR 0x80, CHR 0x84], [CHR 0xE2, CHR 0x80, CHR 0x85],
      [CHR 0xE2, CHR 0x80, CHR 0x86], [CHR 0xE2, CHR 0x80, CHR 0x87],
      [CHR 0xE2, CHR 0x80, CHR 0x88], [CHR 0xE2, CHR 0x80, CHR 0x89],
      [CHR 0xE2, CHR 0x80, CHR 0x8A], [CHR 0xE2, CHR 0x80, CHR 0xA8],
      [CHR 0xE2, CHR 0x80, CHR 0xA9], [CHR 0xE2, CHR 0x80, CHR 0xAF],
      [CHR 0xE2, CHR 0x81, CHR 0x9F], [CHR 0xE3, CHR 0x80, CHR 0x80]]"

function strip_front :: "'a list list \<Rightarrow> 'a list \<Rightarrow> 'a list" where
  "strip_front ws s =
     (case find (\<lambda>w. w \<noteq> [] \<and> starts_with s w) ws of
        Some w \<Rightarrow> strip_front ws (drop (length w) s)
      | None \<Rightarrow> s)"
  by pat_completeness auto
termination
  by (relation "measure (\<lambda>(ws, s). length s)") (auto simp: find_Some_iff starts_with_iff)

declare strip_front.simps [simp del]

definition trim_start :: "string \<Rightarrow> string" where
  "trim_start s = strip_front white_space s"

definition trim_end :: "string \<Rightarrow> string" where
  "trim_end s = rev (strip_front (map rev white_space) (rev s))"

definition trim :: "string \<Rightarrow> string" where
  "trim s = trim_end (trim_start s)"

definition trim_end_matches :: "string \<Rightarrow> string \<Rightarrow> string" where
  "trim_end_matches p s = rev (strip_front [rev p] (rev s))"

text \<open>\<open>s.trim_matches(|c| c == '[' || c == ']')\<close>\<close>

definition bracket :: "char \<Rightarrow> bool" where
  "bracket c \<longleftrightarrow> c = CHR ''['' \<or> c = CHR '']''"

definition trim_brackets :: "string \<Rightarrow> string" where
  "trim_brackets s = rev (dropWhile bracket (rev (dropWhile bracket s)))"

lemma strip_front_None:
  "find (\<lambda>w. w \<noteq> [] \<and> starts_with s w) ws = None \<Longrightarrow> strip_front ws s = s"
  by (simp add: strip_front.simps [of ws s])

lemma strip_front_Some:
  "find (\<lambda>w. w \<noteq> [] \<and> starts_with s w) ws = Some w \<Longrightarrow>
     strip_front ws s = strip_front ws (drop (length w) s)"
  by (simp add: strip_front.simps [of ws s])

lemma strip_front_suffix: "\<exists>t. s = t @ strip_front ws s"
proof (induction ws s rule: strip_front.induct)
  case (1 ws s)
  show ?case
  proof (cases "find (\<lambda>w. w \<noteq> [] \<and> starts_with s w) ws")
    case None
    then show ?thesis by (simp add: strip_front_None)
  next
    case (Some w)
    with 1 obtain t where "drop (length w) s = t @ strip_front ws (drop (length w) s)" by blast
    then have "take (length w) s @ drop (length w) s = (take (length w) s @ t) @ strip_front ws s"
      using strip_front_Some [OF Some] by simp
    then show ?thesis by (metis append_take_drop_id)
  qed
qed

lemma strip_front_id:
  assumes "\<And>w. w \<in> set ws \<Longrightarrow> w \<noteq> [] \<Longrightarrow> \<not> starts_with s w"
  shows "strip_front ws s = s"
  using assms by (intro strip_front_None) (auto simp: find_None_iff)

lemma strip_front_clean: "w \<in> set ws \<Longrightarrow> w \<noteq> [] \<Longrightarrow> \<not> starts_with (strip_front ws s) w"
proof (induction ws s rule: strip_front.induct)
  case (1 ws s)
  then show ?case
  proof (cases "find (\<lambda>w. w \<noteq> [] \<and> starts_with s w) ws")
    case None
    with "1.prems" show ?thesis by (auto simp: strip_front_None find_None_iff)
  next
    case (Some v)
    with 1 show ?thesis by (simp add: strip_front_Some)
  qed
qed

lemma trim_sublist: "\<exists>t u. s = t @ trim s @ u"
proof -
  obtain t where t: "s = t @ trim_start s"
    using strip_front_suffix unfolding trim_start_def by blast
  obtain u where "rev (trim_start s) = u @ strip_front (map rev white_space) (rev (trim_start s))"
    using strip_front_suffix by blast
  then have "trim_start s = trim s @ rev u"
    by (metis rev_append rev_rev_ident trim_def trim_end_def)
  with t show ?thesis by metis
qed

lemma dropWhile_eq_selfI: "(xs \<noteq> [] \<Longrightarrow> \<not> P (hd xs)) \<Longrightarrow> dropWhile P xs = xs"
  by (cases xs) auto

lemma trim_brackets_id:
  assumes "s \<noteq> [] \<Longrightarrow> \<not> bracket (hd s)" "s \<noteq> [] \<Longrightarrow> \<not> bracket (last s)"
  shows "trim_brackets s = s"
  using assms by (cases "s = []") (simp_all add: trim_brackets_def dropWhile_eq_selfI hd_rev)

lemma trim_brackets_bracketed:
  assumes "s \<noteq> []" "\<not> bracket (hd s)" "\<not> bracket (last s)"
  shows "trim_brackets (''['' @ s @ '']'') = s"
proof -
  have "dropWhile bracket (''['' @ s @ '']'') = s @ '']''"
    using assms by (cases s) (auto simp: bracket_def)
  then show ?thesis
    using assms by (simp add: trim_brackets_def bracket_def dropWhile_eq_selfI hd_rev)
qed

subsection \<open>Case conversion\<close>

text \<open>
  \<open>to_lowercase\<close> and \<open>to_uppercase\<close> follow the Unicode tables; on strings of ASCII
  characters they are the ASCII conversions, on the others they are the argument \<open>uni\<close>.
\<close>

definition ascii_lower :: "char \<Rightarrow> char" where
  "ascii_lower c =
     (let n = (of_char c :: nat) in if 65 \<le> n \<and> n \<le> 90 then char_of (n + 32) else c)"

definition ascii_upper :: "char \<Rightarrow> char" where
  "ascii_upper c =
     (let n = (of_char c :: nat) in if 97 \<le> n \<and> n \<le> 122 then char_of (n - 32) else c)"

definition to_ascii_lowercase :: "string \<Rightarrow> string" where
  "to_ascii_lowercase s = map ascii_lower s"

definition to_lowercase :: "(string \<Rightarrow> string) \<Rightarrow> string \<Rightarrow> string" where
  "to_lowercase uni s = (if is_ascii s then map ascii_lower s else uni s)"

definition to_uppercase :: "(string \<Rightarrow> string) \<Rightarrow> string \<Rightarrow> string" where
  "to_uppercase uni s = (if is_ascii s then map ascii_upper s else uni s)"

lemma of_char_ascii_lower:
  "(of_char (ascii_lower c) :: nat) =
     (if 65 \<le> (of_char c :: nat) \<and> (of_char c :: nat) \<le> 90 then of_char c + 32 else of_char c)"
  by (auto simp: ascii_lower_def Let_def)

lemma ascii_lower_idem [simp]: "ascii_lower (ascii_lower c) = ascii_lower c"
proof -
  have "(of_char (ascii_lower (ascii_lower c)) :: nat) = of_char (ascii_lower c)"
    by (simp add: of_char_ascii_lower)
  then show ?thesis by (simp only: of_char_eq_iff)
qed

lemma length_to_ascii_lowercase [simp]: "length (to_ascii_lowercase s) = length s"
  by (simp add: to_ascii_lowercase_def)

lemma is_ascii_lower [simp]: "is_ascii (map ascii_lower s) \<longleftrightarrow> is_ascii s"
  by (induction s) (auto simp: of_char_ascii_lower)

lemma to_lowercase_idem_ascii: "is_ascii s \<Longrightarrow> to_lowercase uni (to_lowercase uni s) = to_lowercase uni s"
  by (simp add: to_lowercase_def comp_def)


subsection \<open>Decimal numbers\<close>

text \<open>
  \<open>str::parse\<close> at an unsigned type with largest value \<open>mx\<close>: an optional \<open>+\<close>, at least one
  digit, nothing else, and a value that fits. The accumulated value only grows, so checking the
  bound at the end rejects the same inputs as the checked arithmetic of each step.
\<close>

definition digit_val :: "char \<Rightarrow> nat option" where
  "digit_val c = (let n = of_char c in if 48 \<le> n \<and> n \<le> 57 then Some (n - 48) else None)"

definition digit_char :: "nat \<Rightarrow> char" where
  "digit_char d = (if d < 10 then char_of (48 + d) else char_of (87 + d))"

fun parse_digits :: "nat \<Rightarrow> string \<Rightarrow> nat option" where
  "parse_digits acc [] = Some acc"
| "parse_digits acc (c # s) =
     (case digit_val c of
        None \<Rightarrow> None
      | Some d \<Rightarrow> parse_digits (10 * acc + d) s)"

definition parse_uint :: "nat \<Rightarrow> string \<Rightarrow> nat option" where
  "parse_uint mx s =
     (let ds = (if starts_with s ''+'' then tl s else s)
      in if ds = [] then None
         else (case parse_digits 0 ds of
                 None \<Rightarrow> None
               | Some n \<Rightarrow> if n \<le> mx then Some n else None))"

definition parse_u16 :: "string \<Rightarrow> u16 option" where
  "parse_u16 s = map_option of_nat (parse_uint 65535 s)"

definition parse_usize :: "string \<Rightarrow> nat option" where
  "parse_usize s = parse_uint (2 ^ 64 - 1) s"

text \<open>
  Printing in a radix up to 16, with lower-case letters (\<open>{}\<close> and \<open>{:x}\<close> without padding).
\<close>

fun show_radix :: "nat \<Rightarrow> nat \<Rightarrow> string" where
  "show_radix r n =
     (if n < r \<or> r < 2 then [digit_char n] else show_radix r (n div r) @ [digit_char (n mod r)])"

declare show_radix.simps [simp del]

definition show_nat :: "nat \<Rightarrow> string" where
  "show_nat n = show_radix 10 n"

definition show_hex :: "nat \<Rightarrow> string" where
  "show_hex n = show_radix 16 n"

definition show_u16 :: "u16 \<Rightarrow> string" where
  "show_u16 w = show_nat (unat w)"

lemma show_radix_small: "n < r \<Longrightarrow> show_radix r n = [digit_char n]"
  by (simp add: show_radix.simps)

lemma show_radix_big:
  "2 \<le> r \<Longrightarrow> r \<le> n \<Longrightarrow> show_radix r n = show_radix r (n div r) @ [digit_char (n mod r)]"
  by (simp add: show_radix.simps [of r n])

lemma show_radix_induct [case_names radix small big]:
  fixes n r :: nat
  assumes "2 \<le> r"
    and "\<And>n. n < r \<Longrightarrow> P n"
    and "\<And>n. r \<le> n \<Longrightarrow> P (n div r) \<Longrightarrow> P n"
  shows "P n"
proof (induction n rule: less_induct)
  case (less n)
  show ?case
  proof (cases "n < r")
    case False
    then have "n div r < n" using assms(1) by (intro div_less_dividend) auto
    with less False assms(3) show ?thesis by simp
  qed (rule assms(2))
qed

lemma digit_val_digit_char [simp]: "d < 10 \<Longrightarrow> digit_val (digit_char d) = Some d"
  by (simp add: digit_val_def digit_char_def Let_def)

lemma parse_digits_append:
  "parse_digits acc (s @ t) = Option.bind (parse_digits acc s) (\<lambda>a. parse_digits a t)"
  by (induction s arbitrary: acc) (auto split: option.splits)

lemma parse_digits_show: "parse_digits 0 (show_nat n) = Some n"
  unfolding show_nat_def
proof (induction n rule: show_radix_induct [of 10])
  case (big n)
  then show ?case by (simp add: show_radix_big parse_digits_append)
qed (simp_all add: show_radix_small)

lemma show_radix_not_Nil [simp]: "show_radix r n \<noteq> []"
  by (simp add: show_radix.simps [of r n])

lemma show_nat_not_Nil [simp]: "show_nat n \<noteq> []" and show_hex_not_Nil [simp]: "show_hex n \<noteq> []"
  by (simp_all add: show_nat_def show_hex_def)

lemma digit_set_show:
  assumes r: "2 \<le> r" and "c \<in> set (show_radix r n)"
  shows "\<exists>d < r. c = digit_char d"
  using assms(2)
proof (induction n rule: show_radix_induct [OF r, case_names small big])
  case (big n)
  then have "c \<in> set (show_radix r (n div r)) \<or> c = digit_char (n mod r)" and "n mod r < r"
    using r by (auto simp: show_radix_big)
  with big show ?case by blast
qed (auto simp: show_radix_small)

lemma of_char_digit_char: "d < 16 \<Longrightarrow> of_char (digit_char d) = (if d < 10 then 48 + d else 87 + d)"
  by (simp add: digit_char_def)

lemma show_nat_range: "c \<in> set (show_nat n) \<Longrightarrow> 48 \<le> (of_char c :: nat) \<and> of_char c \<le> (57 :: nat)"
  unfolding show_nat_def
  by (drule digit_set_show [rotated]) (auto simp: of_char_digit_char)

lemma show_hex_range:
  "c \<in> set (show_hex n) \<Longrightarrow>
     48 \<le> (of_char c :: nat) \<and> of_char c \<le> (57 :: nat) \<or>
     97 \<le> (of_char c :: nat) \<and> of_char c \<le> (102 :: nat)"
  unfolding show_hex_def
  by (drule digit_set_show [rotated]) (auto simp: of_char_digit_char split: if_splits)

lemma show_nat_not_mem:
  "\<not> (48 \<le> (of_char c :: nat) \<and> of_char c \<le> (57 :: nat)) \<Longrightarrow> c \<notin> set (show_nat n)"
  using show_nat_range by blast

lemma show_nat_colon [simp]: "CHR '':'' \<notin> set (show_nat n)"
  by (rule show_nat_not_mem) simp

lemma show_nat_plus: "\<not> starts_with (show_nat n) ''+''"
  using show_nat_range [of "CHR ''+''" n] by (auto simp: starts_with_iff)

lemma show_nat_ascii: "is_ascii (show_nat n)"
  by (auto simp: is_ascii_def list_all_iff dest: show_nat_range)

text \<open>Only zero is printed with a leading zero digit.\<close>

lemma hd_show_radix:
  assumes r: "2 \<le> r" and "r \<le> 16"
  shows "hd (show_radix r n) = CHR ''0'' \<longleftrightarrow> n = 0"
proof (induction n rule: show_radix_induct [OF r, case_names small big])
  case (small n)
  then have "(of_char (digit_char n) = (48 :: nat)) = (n = 0)"
    using assms by (simp add: of_char_digit_char)
  moreover have "(of_char (CHR ''0'') :: nat) = 48" by simp
  ultimately have "digit_char n = CHR ''0'' \<longleftrightarrow> n = 0" by (metis of_char_eq_iff)
  with small show ?case by (simp add: show_radix_small)
next
  case (big n)
  then have "n div r \<noteq> 0" and "n \<noteq> 0" using r by (auto simp: div_eq_0_iff)
  with big r show ?case by (simp add: show_radix_big)
qed

lemma length_show_radix: "2 \<le> r \<Longrightarrow> n < r ^ Suc k \<Longrightarrow> length (show_radix r n) \<le> Suc k"
proof (induction k arbitrary: n)
  case (Suc k)
  show ?case
  proof (cases "n < r")
    case False
    have "n div r < r ^ Suc k"
      using Suc.prems by (simp add: less_mult_imp_div_less mult.commute)
    with Suc False show ?thesis by (simp add: show_radix_big)
  qed (simp add: show_radix_small)
qed (simp add: show_radix_small)

lemma parse_uint_show [str_simps]: "n \<le> mx \<Longrightarrow> parse_uint mx (show_nat n) = Some n"
  by (simp add: parse_uint_def show_nat_plus parse_digits_show)

lemma parse_u16_show [simp]: "parse_u16 (show_u16 w) = Some w"
proof -
  have "unat w \<le> 65535" using unsigned_less [of w, where ?'a = nat] by simp
  then show ?thesis by (simp add: parse_u16_def show_u16_def parse_uint_show)
qed

lemma parse_uint_le: "parse_uint mx s = Some n \<Longrightarrow> n \<le> mx"
  by (auto simp: parse_uint_def Let_def split: if_splits option.splits)

lemma show_u16_colon [simp]: "CHR '':'' \<notin> set (show_u16 w)"
  by (simp add: show_u16_def)

text \<open>The line end of HTTP.\<close>

definition crlf :: string where "crlf = [CHR 0x0D, CHR 0x0A]"

end
