(* ===== verification/Frame_Codec.thy ===== *)
theory Frame_Codec
  imports Rust_Str
begin

text \<open>
  The frame codec of \<open>core-lib/src/frame.rs\<close>: the enum \<open>Frame\<close>, its error type, \<open>encode\<close> and
  \<open>decode\<close>. A frame travels as one binary WebSocket message

    | 1 byte type | 4 byte stream id, big-endian | payload |
\<close>

subsection \<open>Data\<close>

datatype frame =
    Hello string
  | Open u32 string
  | OpenAck u32 bool
  | Data u32 bytes
  | Close u32

datatype frame_error = TooShort | UnknownType u8 | InvalidUtf8

definition TYPE_OPEN :: u8 where "TYPE_OPEN = 0x01"

definition TYPE_OPEN_ACK :: u8 where "TYPE_OPEN_ACK = 0x02"

definition TYPE_DATA :: u8 where "TYPE_DATA = 0x03"

definition TYPE_CLOSE :: u8 where "TYPE_CLOSE = 0x04"

definition TYPE_HELLO :: u8 where "TYPE_HELLO = 0x10"

lemmas type_defs = TYPE_OPEN_def TYPE_OPEN_ACK_def TYPE_DATA_def TYPE_CLOSE_def TYPE_HELLO_def

subsection \<open>Display of the errors\<close>

text \<open>\<open>{:#04x}\<close>: the prefix \<open>0x\<close> and two lower-case hexadecimal digits, padded with 0.\<close>

definition show_hex_u8 :: "u8 \<Rightarrow> string" where
  "show_hex_u8 b = ''0x'' @ [digit_char (unat b div 16), digit_char (unat b mod 16)]"

fun fmt_frame_error :: "frame_error \<Rightarrow> string" where
  "fmt_frame_error TooShort = ''frame too short''"
| "fmt_frame_error (UnknownType t) = ''unknown frame type: '' @ show_hex_u8 t"
| "fmt_frame_error InvalidUtf8 = ''invalid utf-8 in frame payload''"

subsection \<open>Operations\<close>

fun encode :: "frame \<Rightarrow> bytes" where
  "encode (Hello token) = TYPE_HELLO # u32_to_be_bytes 0 @ as_bytes token"
| "encode (Open i dest) = TYPE_OPEN # u32_to_be_bytes i @ as_bytes dest"
| "encode (OpenAck i ok) = TYPE_OPEN_ACK # u32_to_be_bytes i @ [if ok then 0 else 1]"
| "encode (Data i bs) = TYPE_DATA # u32_to_be_bytes i @ bs"
| "encode (Close i) = TYPE_CLOSE # u32_to_be_bytes i"

definition decode :: "bytes \<Rightarrow> frame_error + frame" where
  "decode buf =
     (if length buf < 5 then Inl TooShort
      else
        let frame_type = buf ! 0;
            i = u32_from_be_bytes (buf ! 1) (buf ! 2) (buf ! 3) (buf ! 4);
            payload = drop 5 buf
        in if frame_type = TYPE_HELLO then
             (case from_utf8 payload of None \<Rightarrow> Inl InvalidUtf8 | Some token \<Rightarrow> Inr (Hello token))
           else if frame_type = TYPE_OPEN then
             (case from_utf8 payload of None \<Rightarrow> Inl InvalidUtf8 | Some dest \<Rightarrow> Inr (Open i dest))
           else if frame_type = TYPE_OPEN_ACK then
             (if payload = [] then Inl TooShort else Inr (OpenAck i (payload ! 0 = 0)))
           else if frame_type = TYPE_DATA then Inr (Data i payload)
           else if frame_type = TYPE_CLOSE then Inr (Close i)
           else Inl (UnknownType frame_type))"

text \<open>The strings a frame carries are Rust strings, hence UTF-8.\<close>

fun frame_wf :: "frame \<Rightarrow> bool" where
  "frame_wf (Hello token) = valid_str token"
| "frame_wf (Open i dest) = valid_str dest"
| "frame_wf _ = True"

subsection \<open>Layout\<close>

lemma decode_Cons5 [wire_simps]:
  "decode (t # a # b # c # d # p) =
     (let i = u32_from_be_bytes a b c d
      in if t = TYPE_HELLO then
           (case from_utf8 p of None \<Rightarrow> Inl InvalidUtf8 | Some token \<Rightarrow> Inr (Hello token))
         else if t = TYPE_OPEN then
           (case from_utf8 p of None \<Rightarrow> Inl InvalidUtf8 | Some dest \<Rightarrow> Inr (Open i dest))
         else if t = TYPE_OPEN_ACK then
           (if p = [] then Inl TooShort else Inr (OpenAck i (hd p = 0)))
         else if t = TYPE_DATA then Inr (Data i p)
         else if t = TYPE_CLOSE then Inr (Close i)
         else Inl (UnknownType t))"
  by (simp add: decode_def Let_def hd_conv_nth)

lemma length_encode: "length (encode f) = 5 +
   (case f of Hello t \<Rightarrow> length t | Open i d \<Rightarrow> length d | OpenAck i ok \<Rightarrow> 1
            | Data i bs \<Rightarrow> length bs | Close i \<Rightarrow> 0)"
  by (cases f) auto

lemma decode_encode: "frame_wf f \<Longrightarrow> decode (encode f) = Inr f"
  by (cases f) (simp_all add: u32_to_be_bytes_def wire_simps from_utf8_as_bytes type_defs)


subsection \<open>The codec as an interface\<close>

text \<open>
  What the two session loops rely on: decoding undoes encoding on well-formed values. A run of
  messages through an encoder and a decoder is then the run itself.
\<close>

locale wire_codec =
  fixes enc :: "'f \<Rightarrow> 'b"
    and dec :: "'b \<Rightarrow> 'e + 'f"
    and wf :: "'f \<Rightarrow> bool"
  assumes dec_enc: "wf f \<Longrightarrow> dec (enc f) = Inr f"
begin

lemma enc_eq_iff: "wf f \<Longrightarrow> wf g \<Longrightarrow> enc f = enc g \<longleftrightarrow> f = g"
  by (metis Inr_inject dec_enc)

lemma map_dec_enc: "list_all wf fs \<Longrightarrow> map (dec \<circ> enc) fs = map Inr fs"
  by (induction fs) (auto simp: dec_enc)

lemma enc_list_inj:
  "list_all wf fs \<Longrightarrow> list_all wf gs \<Longrightarrow> map enc fs = map enc gs \<longleftrightarrow> fs = gs"
  by (auto simp: list_all_iff enc_eq_iff intro!: list.inj_map_strong [of fs gs enc enc])

end

interpretation frame_codec: wire_codec encode decode frame_wf
  by unfold_locales (rule decode_encode)

subsection \<open>Properties\<close>

text \<open>C19: decoding the encoding of any frame whose strings are UTF-8 gives the frame back.\<close>

theorem frame_roundtrip: "frame_wf f \<Longrightarrow> decode (encode f) = Inr f"
  by (rule frame_codec.dec_enc)

theorem frame_roundtrip_witness:
  "decode (encode (Open 0xDEADBEEF ''h:1'')) = Inr (Open 0xDEADBEEF ''h:1'')"
  by (rule frame_roundtrip) (simp add: ascii_valid_str)

text \<open>
  The canonical form of a buffer that decodes: the stream id of HELLO is not read, only the
  first payload byte of OPEN\_ACK counts (zero or not), and what follows a CLOSE header is
  ignored.
\<close>

definition canonical :: "bytes \<Rightarrow> bytes" where
  "canonical buf =
     (if buf ! 0 = TYPE_HELLO then take 1 buf @ [0, 0, 0, 0] @ drop 5 buf
      else if buf ! 0 = TYPE_OPEN_ACK then take 5 buf @ [if buf ! 5 = 0 then 0 else 1]
      else if buf ! 0 = TYPE_CLOSE then take 5 buf
      else buf)"

text \<open>
  C40: a buffer that decodes to a frame carries that frame: the frame is well formed and its
  encoding is the buffer in canonical form. In particular OPEN and DATA messages are accepted
  in exactly one spelling.
\<close>

theorem decode_sound: "decode buf = Inr f \<Longrightarrow> frame_wf f \<and> encode f = canonical buf"
proof -
  assume dec: "decode buf = Inr f"
  then have "5 \<le> length buf" by (auto simp: decode_def split: if_splits)
  then obtain t a b c d p where buf: "buf = t # a # b # c # d # p"
    by (auto simp: five_or_more)
  from dec show ?thesis
    unfolding buf wire_simps canonical_def
    by (cases p) (auto simp: Let_def type_defs u32_to_from_be_bytes from_utf8_Some_iff
        u32_to_be_bytes_def [of 0] split: if_splits option.splits)
qed

theorem decode_sound_witness:
  "frame_wf (OpenAck 42 False) \<and>
   encode (OpenAck 42 False) = canonical [2, 0, 0, 0, 42, 7, 9]"
  by (rule decode_sound)
     (simp add: decode_Cons5 type_defs Let_def u32_from_be_bytes_def)

text \<open>
  Which buffers are rejected, and with which error. A buffer is too short when it has no
  full header, or is an OPEN\_ACK without its status byte; the type byte is the first byte of
  the buffer; the payload of HELLO and OPEN must be UTF-8. Everything else decodes.
\<close>

theorem decode_errors:
  "(decode buf = Inl TooShort \<longleftrightarrow>
      length buf < 5 \<or> length buf = 5 \<and> buf ! 0 = TYPE_OPEN_ACK) \<and>
   (decode buf = Inl (UnknownType t) \<longleftrightarrow>
      5 \<le> length buf \<and> buf ! 0 = t \<and>
      t \<notin> {TYPE_HELLO, TYPE_OPEN, TYPE_OPEN_ACK, TYPE_DATA, TYPE_CLOSE}) \<and>
   (decode buf = Inl InvalidUtf8 \<longleftrightarrow>
      5 \<le> length buf \<and> buf ! 0 \<in> {TYPE_HELLO, TYPE_OPEN} \<and> \<not> utf8_valid (drop 5 buf))"
  unfolding decode_def Let_def
  by (auto simp: type_defs from_utf8_def)

end
