(* ===== verification/Session.thy ===== *)
theory Session
  imports Frame_Codec
begin

text \<open>
  The session layer of \<open>core-lib/src/session.rs\<close>: the registry that routes DATA and CLOSE
  frames to per-stream channels, and the contract of the bounded channels it is built on.

  Channels come from a library. A channel is named by its number; a sender or receiver handle
  (\<open>DataTx\<close>, \<open>DataRx\<close>) is that number. What the code relies on of the library is the
  predicate \<open>chan_contract\<close> over a parameter \<open>chan_ok\<close>, which says of a capacity, of the values
  accepted so far and of the values received so far whether the library can be there.
\<close>

subsection \<open>Channels\<close>

type_synonym cid = nat

text \<open>
  A bounded channel delivers in order, without loss or duplication, and holds at most its
  capacity of values.
\<close>

definition chan_contract :: "(nat \<Rightarrow> 'a list \<Rightarrow> 'a list \<Rightarrow> bool) \<Rightarrow> bool" where
  "chan_contract chan_ok \<longleftrightarrow>
     (\<forall>cap sent rcvd. chan_ok cap sent rcvd \<longrightarrow> prefix rcvd sent \<and> length sent \<le> length rcvd + cap)"

lemma chan_contractD:
  assumes "chan_contract chan_ok" and "chan_ok cap sent rcvd"
  shows chan_fifo: "prefix rcvd sent" and chan_bound: "length sent \<le> length rcvd + cap"
  using assms by (auto simp: chan_contract_def)

text \<open>The contract has a model: the channel that allows exactly this.\<close>

definition fifo_chan :: "nat \<Rightarrow> 'a list \<Rightarrow> 'a list \<Rightarrow> bool" where
  "fifo_chan cap sent rcvd \<longleftrightarrow> prefix rcvd sent \<and> length sent \<le> length rcvd + cap"

lemma fifo_chan_contract: "chan_contract fifo_chan"
  by (auto simp: chan_contract_def fifo_chan_def)

text \<open>The capacities the code asks for.\<close>

definition DATA_CHANNEL_CAP :: nat where "DATA_CHANNEL_CAP = 32"

definition FRAME_CHANNEL_CAP :: nat where "FRAME_CHANNEL_CAP = 128"

subsection \<open>Messages of the WebSocket library\<close>

datatype ws_message =
    WsText string
  | WsBinary bytes
  | WsPing bytes
  | WsPong bytes
  | WsClose
  | WsFrame bytes

text \<open>
  One item of the incoming stream: \<open>Some m\<close> is \<open>Ok(m)\<close>, \<open>None\<close> an error of the transport. The
  end of the stream is the end of the list of items.
\<close>

type_synonym ws_item = "ws_message option"

subsection \<open>The stream registry\<close>

record registry =
  inner :: "u32 \<rightharpoonup> cid"

definition registry_new :: registry where
  "registry_new = \<lparr>inner = Map.empty\<rparr>"

text \<open>
  \<open>register\<close> creates a channel of capacity 32, stores its sender and returns its receiver; the
  channel the library creates is the argument \<open>c\<close>. A previous sender under the same id is
  dropped.
\<close>

definition register :: "cid \<Rightarrow> u32 \<Rightarrow> registry \<Rightarrow> cid \<times> registry" where
  "register c i r = (c, r\<lparr>inner := (inner r)(i \<mapsto> c)\<rparr>)"

text \<open>
  \<open>route\<close> looks the sender up, releases the lock and awaits \<open>send\<close>: its result is the send it
  performs, if any. The result of the send is ignored by the code.
\<close>

definition route :: "u32 \<Rightarrow> bytes \<Rightarrow> registry \<Rightarrow> (cid \<times> bytes) option" where
  "route i data r = (case inner r i of Some tx \<Rightarrow> Some (tx, data) | None \<Rightarrow> None)"

definition close_stream :: "u32 \<Rightarrow> registry \<Rightarrow> registry" where
  "close_stream i r = r\<lparr>inner := (inner r)(i := None)\<rparr>"

definition close_all :: "registry \<Rightarrow> registry" where
  "close_all r = r\<lparr>inner := Map.empty\<rparr>"

subsection \<open>The registry as an interface\<close>

text \<open>
  One operation of a session on its registry. Both ends of the tunnel drive their registry with
  a sequence of these.
\<close>

datatype reg_op = RegOp u32 cid | RouteOp u32 bytes | CloseOp u32 | CloseAllOp

fun op_concerns :: "u32 \<Rightarrow> reg_op \<Rightarrow> bool" where
  "op_concerns i (RegOp j c) = (i = j)"
| "op_concerns i (RouteOp j d) = (i = j)"
| "op_concerns i (CloseOp j) = (i = j)"
| "op_concerns i CloseAllOp = True"

locale stream_table =
  fixes lookup :: "'t \<Rightarrow> u32 \<Rightarrow> cid option"
    and empty_t :: 't
    and add_t :: "cid \<Rightarrow> u32 \<Rightarrow> 't \<Rightarrow> cid \<times> 't"
    and route_t :: "u32 \<Rightarrow> bytes \<Rightarrow> 't \<Rightarrow> (cid \<times> bytes) option"
    and del_t :: "u32 \<Rightarrow> 't \<Rightarrow> 't"
    and clear_t :: "'t \<Rightarrow> 't"
  assumes lookup_empty: "lookup empty_t i = None"
    and add_rx: "fst (add_t c i t) = c"
    and lookup_add: "lookup (snd (add_t c i t)) j = (if j = i then Some c else lookup t j)"
    and route_lookup: "route_t i d t = map_option (\<lambda>c. (c, d)) (lookup t i)"
    and lookup_del: "lookup (del_t i t) j = (if j = i then None else lookup t j)"
    and lookup_clear: "lookup (clear_t t) j = None"
begin

fun op_step :: "reg_op \<Rightarrow> 't \<Rightarrow> 't" where
  "op_step (RegOp i c) t = snd (add_t c i t)"
| "op_step (RouteOp i d) t = t"
| "op_step (CloseOp i) t = del_t i t"
| "op_step CloseAllOp t = clear_t t"

fun op_delivers :: "reg_op \<Rightarrow> 't \<Rightarrow> (u32 \<times> cid \<times> bytes) list" where
  "op_delivers (RouteOp i d) t =
     (case route_t i d t of None \<Rightarrow> [] | Some (c, e) \<Rightarrow> [(i, c, e)])"
| "op_delivers _ t = []"

fun run_ops :: "reg_op list \<Rightarrow> 't \<Rightarrow> 't" where
  "run_ops [] t = t"
| "run_ops (x # xs) t = run_ops xs (op_step x t)"

fun delivered :: "reg_op list \<Rightarrow> 't \<Rightarrow> (u32 \<times> cid \<times> bytes) list" where
  "delivered [] t = []"
| "delivered (x # xs) t = op_delivers x t @ delivered xs (op_step x t)"

lemma lookup_op_step_other: "\<not> op_concerns i x \<Longrightarrow> lookup (op_step x t) i = lookup t i"
  by (cases x) (auto simp: lookup_add lookup_del)

lemma lookup_op_step_cong:
  "lookup t i = lookup u i \<Longrightarrow> lookup (op_step x t) i = lookup (op_step x u) i"
  by (cases x) (auto simp: lookup_add lookup_del lookup_clear)

lemma op_delivers_other: "\<not> op_concerns i x \<Longrightarrow> filter (\<lambda>(j, _). j = i) (op_delivers x t) = []"
  by (cases x) (auto split: option.splits)

lemma op_delivers_cong:
  "lookup t i = lookup u i \<Longrightarrow>
     filter (\<lambda>(j, _). j = i) (op_delivers x t) = filter (\<lambda>(j, _). j = i) (op_delivers x u)"
  by (cases x) (auto simp: route_lookup split: option.splits)

text \<open>
  Streams do not interfere: what a stream sees of a run, its table entry and its deliveries,
  depends on the operations that concern it only.
\<close>

lemma lookup_run_isolated:
  "lookup t i = lookup u i \<Longrightarrow>
     lookup (run_ops xs t) i = lookup (run_ops (filter (op_concerns i) xs) u) i"
proof (induction xs arbitrary: t u)
  case (Cons x xs)
  show ?case
  proof (cases "op_concerns i x")
    case True
    with Cons.IH [OF lookup_op_step_cong [OF Cons.prems]] show ?thesis by simp
  next
    case False
    then have "lookup (op_step x t) i = lookup u i"
      using Cons.prems by (simp add: lookup_op_step_other)
    with Cons.IH False show ?thesis by simp
  qed
qed simp

lemma delivered_isolated:
  "lookup t i = lookup u i \<Longrightarrow>
     filter (\<lambda>(j, _). j = i) (delivered xs t) =
     filter (\<lambda>(j, _). j = i) (delivered (filter (op_concerns i) xs) u)"
proof (induction xs arbitrary: t u)
  case (Cons x xs)
  show ?case
  proof (cases "op_concerns i x")
    case True
    with Cons.IH [OF lookup_op_step_cong [OF Cons.prems]] op_delivers_cong [OF Cons.prems]
    show ?thesis by simp
  next
    case False
    then have "lookup (op_step x t) i = lookup u i"
      using Cons.prems by (simp add: lookup_op_step_other)
    with Cons.IH False op_delivers_other [OF False] show ?thesis by simp
  qed
qed simp

lemma delivered_to_registered:
  "(i, c, d) \<in> set (delivered xs t) \<Longrightarrow> lookup t i = Some c \<or> RegOp i c \<in> set xs"
proof (induction xs arbitrary: t)
  case (Cons x xs)
  then consider "(i, c, d) \<in> set (op_delivers x t)" | "(i, c, d) \<in> set (delivered xs (op_step x t))"
    by auto
  then show ?case
  proof cases
    case 1
    then show ?thesis by (cases x) (auto simp: route_lookup split: option.splits)
  next
    case 2
    with Cons.IH have "lookup (op_step x t) i = Some c \<or> RegOp i c \<in> set xs" by blast
    then show ?thesis
      by (cases x) (auto simp: lookup_add lookup_del lookup_clear split: if_splits)
  qed
qed simp

lemma run_ops_append: "run_ops (xs @ ys) t = run_ops ys (run_ops xs t)"
  by (induction xs arbitrary: t) auto

lemma delivered_append: "delivered (xs @ ys) t = delivered xs t @ delivered ys (run_ops xs t)"
  by (induction xs arbitrary: t) auto

end

interpretation reg: stream_table inner registry_new register route close_stream close_all
  by unfold_locales
     (auto simp: registry_new_def register_def route_def close_stream_def close_all_def
        split: option.splits)

lemmas registry_defs = registry_new_def register_def route_def close_stream_def close_all_def

end
