(* ===== verification/Server_Control.thy ===== *)
theory Server_Control
  imports Session
begin

text \<open>
  Connection set-up on the server (\<open>server/src/lib.rs\<close>): the accept loop \<open>serve\<close>, the
  dispatch of one connection (\<open>accept_connection\<close>), the \<open>/control\<close> handshake
  (\<open>process_control\<close>) and the authentication that opens a \<open>/mux\<close> session (the HELLO loop and
  the token check of \<open>run_server_mux_session\<close>).

  Parameters: \<open>version_parse\<close> and \<open>req_matches\<close> are the crate semver, \<open>uuid_show\<close> and
  \<open>uuid_parse\<close> the crate uuid, whose random token is the argument \<open>token\<close>; \<open>handshake\<close> is the
  WebSocket upgrade, given the callback's verdict on a request path.
\<close>

subsection \<open>The accept loop\<close>

text \<open>What the two branches of the loop's \<open>select\<close> see, in order.\<close>

datatype 's accept_event = AcceptOk 's | AcceptErr | ShutdownRecv

text \<open>
  The connections handed to \<open>accept_connection\<close>, and the result: \<open>None\<close> while the loop still
  waits, \<open>Some True\<close> for \<open>Ok(())\<close>, \<open>Some False\<close> for the listener's error.
\<close>

fun serve :: "'s accept_event list \<Rightarrow> 's list \<times> bool option" where
  "serve [] = ([], None)"
| "serve (AcceptOk s # es) = (let (ss, r) = serve es in (s # ss, r))"
| "serve (AcceptErr # es) = ([], Some False)"
| "serve (ShutdownRecv # es) = ([], Some True)"

subsection \<open>Dispatch of a connection\<close>

datatype conn_action = Drop | Reply string | RunControl | RunMux

definition is_websocket :: "bytes \<Rightarrow> bool" where
  "is_websocket header_bytes =
     contains_str (map ascii_lower (of_bytes header_bytes)) ''websocket''"

definition ok_response :: string where
  "ok_response = ''HTTP/1.1 200 OK'' @ crlf @ ''Content-Length: 12'' @ crlf @
     ''Connection: close'' @ crlf @ crlf @ ''I am running''"

definition not_found_response :: string where
  "not_found_response = ''HTTP/1.1 404 Not Found'' @ crlf @ ''Content-Length: 0'' @ crlf @
     ''Connection: close'' @ crlf @ crlf"

definition path_allowed :: "string \<Rightarrow> bool" where
  "path_allowed path \<longleftrightarrow> \<not> (path \<noteq> ''/control'' \<and> path \<noteq> ''/mux'')"

text \<open>
  \<open>peek\<close> is the result of peeking (\<open>None\<close> for an error); \<open>handshake cb\<close> is the path of the
  upgraded request, \<open>None\<close> when the upgrade fails.
\<close>

definition accept_connection ::
  "bytes option \<Rightarrow> ((string \<Rightarrow> bool) \<Rightarrow> string option) \<Rightarrow> conn_action" where
  "accept_connection peek handshake =
     (case peek of
        None \<Rightarrow> Drop
      | Some header_bytes \<Rightarrow>
          if header_bytes = [] then Drop
          else if \<not> is_websocket header_bytes then
            (if starts_with header_bytes (as_bytes ''GET / '') then Reply ok_response
             else Reply not_found_response)
          else
            (case handshake path_allowed of
               None \<Rightarrow> Drop
             | Some path \<Rightarrow> if ends_with path ''control'' then RunControl else RunMux))"

subsection \<open>The token store\<close>

text \<open>\<open>TokenStore\<close> is a shared \<open>HashSet<Uuid>\<close>; \<open>remove\<close> tells whether the value was there.\<close>

definition token_insert :: "'u \<Rightarrow> 'u set \<Rightarrow> 'u set" where
  "token_insert u store = insert u store"

definition token_remove :: "'u \<Rightarrow> 'u set \<Rightarrow> bool \<times> 'u set" where
  "token_remove u store = (u \<in> store, store - {u})"

datatype 'u store_op = Put 'u | Take 'u

fun puts_of :: "'u store_op list \<Rightarrow> 'u list" where
  "puts_of [] = []"
| "puts_of (Put u # xs) = u # puts_of xs"
| "puts_of (Take u # xs) = puts_of xs"

lemma puts_of_append: "puts_of (xs @ ys) = puts_of xs @ puts_of ys"
  by (induction xs rule: puts_of.induct) auto

locale token_table =
  fixes has :: "'u \<Rightarrow> 's \<Rightarrow> bool"
    and put :: "'u \<Rightarrow> 's \<Rightarrow> 's"
    and tak :: "'u \<Rightarrow> 's \<Rightarrow> bool \<times> 's"
  assumes has_put: "has v (put u s) \<longleftrightarrow> v = u \<or> has v s"
    and tak_result: "fst (tak u s) \<longleftrightarrow> has u s"
    and has_tak: "has v (snd (tak u s)) \<longleftrightarrow> v \<noteq> u \<and> has v s"
begin

text \<open>A run of the store's operations: the final store and the tokens taken successfully.\<close>

fun run_store :: "'u store_op list \<Rightarrow> 's \<Rightarrow> 's \<times> 'u list" where
  "run_store [] s = (s, [])"
| "run_store (Put u # xs) s = run_store xs (put u s)"
| "run_store (Take u # xs) s =
     (let (ok, s') = tak u s; (t, taken) = run_store xs s'
      in (t, (if ok then [u] else []) @ taken))"

text \<open>No token is taken more often than it was put.\<close>

lemma taken_le_puts:
  "count_list (snd (run_store xs s)) u + of_bool (has u (fst (run_store xs s)))
     \<le> of_bool (has u s) + count_list (puts_of xs) u"
proof (induction xs arbitrary: s)
  case Nil
  then show ?case by simp
next
  case (Cons x xs)
  show ?case
  proof (cases x)
    case (Put v)
    with Cons.IH [of "put v s"] show ?thesis
      by (auto simp: has_put split: if_splits)
  next
    case (Take v)
    with Cons.IH [of "snd (tak v s)"] tak_result [of v s] show ?thesis
      by (cases "u = v") (auto simp: has_tak split: prod.splits if_splits)
  qed
qed

end

interpretation tokens: token_table "\<lambda>u store. u \<in> store" token_insert token_remove
  by unfold_locales (auto simp: token_insert_def token_remove_def)

subsection \<open>The control handshake\<close>

datatype ws_action = SendMsg ws_message | CloseWs

definition SUPPORTED_VERSION :: string where "SUPPORTED_VERSION = ''>=0.1.0''"

text \<open>
  \<open>first\<close> is the first item of the stream: \<open>None\<close> when it ends, \<open>Some None\<close> for an error. The
  result is the token store and what is sent on the socket; the results of the sends are ignored
  by the code.
\<close>

definition process_control ::
  "(string \<Rightarrow> 'v option) \<Rightarrow> (string \<Rightarrow> 'v \<Rightarrow> bool) \<Rightarrow> ('u \<Rightarrow> string) \<Rightarrow> 'u \<Rightarrow>
   ws_item option \<Rightarrow> string list \<Rightarrow> 'u set \<Rightarrow> 'u set \<times> ws_action list" where
  "process_control version_parse req_matches uuid_show token first user_list token_store =
     (case first of
        Some (Some (WsText text)) \<Rightarrow>
          if \<not> starts_with text ''Hello:'' then (token_store, [CloseWs])
          else
            let parts = splitn 3 CHR '':'' text
            in if length parts < 3 then (token_store, [CloseWs])
               else
                 let client_version = parts ! 1; client_user_id = parts ! 2
                 in case version_parse client_version of
                      None \<Rightarrow>
                        (token_store, [SendMsg (WsText ''Bye:Invalid version format''), CloseWs])
                    | Some installed \<Rightarrow>
                        if \<not> req_matches SUPPORTED_VERSION installed then
                          (token_store,
                           [SendMsg (WsText (''Bye:Unsupported version. Download from '' @
                              ''https://github.com/echo-proxy/echo-proxy-core/releases'')),
                            CloseWs])
                        else if client_user_id \<notin> set user_list then
                          (token_store, [SendMsg (WsText ''Bye:User not allowed''), CloseWs])
                        else
                          (token_insert token token_store,
                           [SendMsg (WsText (''Hi:'' @ uuid_show token))])
      | _ \<Rightarrow> (token_store, [CloseWs]))"

subsection \<open>Authentication of a mux session\<close>

text \<open>
  The loop that waits for HELLO: pings are skipped, anything else but a binary HELLO frame with
  a token that parses ends the session. The result holds the items that follow.
\<close>

fun await_hello :: "(string \<Rightarrow> 'u option) \<Rightarrow> ws_item list \<Rightarrow> ('u \<times> ws_item list) option" where
  "await_hello uuid_parse [] = None"
| "await_hello uuid_parse (Some (WsBinary data) # ws_src) =
     (case decode data of
        Inr (Hello t) \<Rightarrow>
          (case uuid_parse t of Some u \<Rightarrow> Some (u, ws_src) | None \<Rightarrow> None)
      | _ \<Rightarrow> None)"
| "await_hello uuid_parse (Some (WsPing p) # ws_src) = await_hello uuid_parse ws_src"
| "await_hello uuid_parse (item # ws_src) = None"

text \<open>
  Up to the start of the session: the token is removed from the store, and only a token that
  was there starts a session. The second component is the token and the remaining items of the
  session that starts, if one does.
\<close>

definition mux_authenticate ::
  "(string \<Rightarrow> 'u option) \<Rightarrow> ws_item list \<Rightarrow> 'u set \<Rightarrow> 'u set \<times> ('u \<times> ws_item list) option" where
  "mux_authenticate uuid_parse ws_src token_store =
     (case await_hello uuid_parse ws_src of
        None \<Rightarrow> (token_store, None)
      | Some (token_uuid, rest) \<Rightarrow>
          let (present, token_store') = token_remove token_uuid token_store
          in if \<not> present then (token_store', None)
             else (token_store', Some (token_uuid, rest)))"

subsection \<open>Who is let in\<close>

text \<open>The request of a client that passes all checks of the control handshake.\<close>

definition control_accepts ::
  "(string \<Rightarrow> 'v option) \<Rightarrow> (string \<Rightarrow> 'v \<Rightarrow> bool) \<Rightarrow> string list \<Rightarrow> ws_item option \<Rightarrow> bool" where
  "control_accepts version_parse req_matches user_list first \<longleftrightarrow>
     (\<exists>version user v.
        first = Some (Some (WsText (''Hello:'' @ version @ '':'' @ user))) \<and>
        CHR '':'' \<notin> set version \<and>
        version_parse version = Some v \<and> req_matches SUPPORTED_VERSION v \<and> user \<in> set user_list)"

lemma splitn_hello:
  "splitn 3 CHR '':'' (''Hello:'' @ t) =
     ''Hello'' # (case split_once CHR '':'' t of None \<Rightarrow> [t] | Some (v, u) \<Rightarrow> [v, u])"
proof -
  have "split_once CHR '':'' (''Hello:'' @ t) = Some (''Hello'', t)"
    using split_once_append [of "CHR '':''" "''Hello''" t] by simp
  then show ?thesis
    by (simp add: numeral_3_eq_3 split: option.split)
qed

lemma process_control_hello:
  assumes "CHR '':'' \<notin> set version"
  shows "process_control version_parse req_matches uuid_show token
      (Some (Some (WsText (''Hello:'' @ version @ '':'' @ user)))) user_list store =
    (case version_parse version of
       None \<Rightarrow> (store, [SendMsg (WsText ''Bye:Invalid version format''), CloseWs])
     | Some v \<Rightarrow>
         if \<not> req_matches SUPPORTED_VERSION v then
           (store, [SendMsg (WsText (''Bye:Unsupported version. Download from '' @
              ''https://github.com/echo-proxy/echo-proxy-core/releases'')), CloseWs])
         else if user \<notin> set user_list then
           (store, [SendMsg (WsText ''Bye:User not allowed''), CloseWs])
         else (token_insert token store, [SendMsg (WsText (''Hi:'' @ uuid_show token))]))"
proof -
  have "split_once CHR '':'' (version @ '':'' @ user) = Some (version, user)"
    using assms by simp
  then have "splitn 3 CHR '':'' (''Hello:'' @ version @ '':'' @ user) = [''Hello'', version, user]"
    by (simp only: splitn_hello) simp
  then show ?thesis
    unfolding process_control_def by (simp add: Let_def starts_with_def split: option.split)
qed

lemma process_control_other:
  assumes "\<nexists>version user. first = Some (Some (WsText (''Hello:'' @ version @ '':'' @ user))) \<and>
      CHR '':'' \<notin> set version"
  shows "process_control version_parse req_matches uuid_show token first user_list store =
    (store, [CloseWs])"
proof (cases "\<exists>t. first = Some (Some (WsText (''Hello:'' @ t)))")
  case True
  then obtain t where first: "first = Some (Some (WsText (''Hello:'' @ t)))" by blast
  have "split_once CHR '':'' t = None"
  proof (cases "split_once CHR '':'' t")
    case (Some vu)
    then have "t = fst vu @ '':'' @ snd vu \<and> CHR '':'' \<notin> set (fst vu)"
      using split_once_Some_iff [of "CHR '':''" t "fst vu" "snd vu"] by simp
    with first assms show ?thesis by blast
  qed
  with splitn_hello [of t] show ?thesis
    unfolding process_control_def first by (simp add: Let_def starts_with_def)
next
  case False
  then show ?thesis
    unfolding process_control_def
    by (auto simp: starts_with_iff split: option.splits ws_message.splits)
qed


subsection \<open>All connections of a server\<close>

text \<open>
  The handshakes of a server's life in the order in which they reach the store. A control
  connection touches the store once, to insert its token; a mux connection once, to remove the
  token of its HELLO; both under the store's lock.
\<close>

datatype 'u srv_conn = ControlConn 'u "ws_item option" | MuxConn "ws_item list"

fun auth_step ::
  "(string \<Rightarrow> 'v option) \<Rightarrow> (string \<Rightarrow> 'v \<Rightarrow> bool) \<Rightarrow> ('u \<Rightarrow> string) \<Rightarrow> (string \<Rightarrow> 'u option) \<Rightarrow>
   string list \<Rightarrow> 'u srv_conn \<Rightarrow> 'u set \<Rightarrow> 'u set \<times> 'u list" where
  "auth_step vp rm us up users (ControlConn token first) store =
     (fst (process_control vp rm us token first users store), [])"
| "auth_step vp rm us up users (MuxConn items) store =
     (case mux_authenticate up items store of
        (store', None) \<Rightarrow> (store', [])
      | (store', Some (u, rest)) \<Rightarrow> (store', [u]))"

fun auth_run ::
  "(string \<Rightarrow> 'v option) \<Rightarrow> (string \<Rightarrow> 'v \<Rightarrow> bool) \<Rightarrow> ('u \<Rightarrow> string) \<Rightarrow> (string \<Rightarrow> 'u option) \<Rightarrow>
   string list \<Rightarrow> 'u srv_conn list \<Rightarrow> 'u set \<Rightarrow> 'u set \<times> 'u list" where
  "auth_run vp rm us up users [] store = (store, [])"
| "auth_run vp rm us up users (c # cs) store =
     (let (store', started) = auth_step vp rm us up users c store;
          (store'', more) = auth_run vp rm us up users cs store'
      in (store'', started @ more))"

fun conn_ops ::
  "(string \<Rightarrow> 'v option) \<Rightarrow> (string \<Rightarrow> 'v \<Rightarrow> bool) \<Rightarrow> (string \<Rightarrow> 'u option) \<Rightarrow>
   string list \<Rightarrow> 'u srv_conn \<Rightarrow> 'u store_op list" where
  "conn_ops vp rm up users (ControlConn token first) =
     (if control_accepts vp rm users first then [Put token] else [])"
| "conn_ops vp rm up users (MuxConn items) =
     (case await_hello up items of None \<Rightarrow> [] | Some (u, rest) \<Rightarrow> [Take u])"

lemma process_control_decides:
  "fst (process_control vp rm us token first users store) =
     (if control_accepts vp rm users first then token_insert token store else store)"
proof (cases "\<exists>version user. first = Some (Some (WsText (''Hello:'' @ version @ '':'' @ user))) \<and>
    CHR '':'' \<notin> set version")
  case True
  then obtain version user where first: "first = Some (Some (WsText (''Hello:'' @ version @ '':'' @ user)))"
    and colon: "CHR '':'' \<notin> set version" by blast
  have "control_accepts vp rm users first \<longleftrightarrow>
      (\<exists>v. vp version = Some v \<and> rm SUPPORTED_VERSION v) \<and> user \<in> set users"
    unfolding control_accepts_def first using colon by (auto simp: split_unique)
  then show ?thesis
    unfolding first process_control_hello [OF colon] by (auto split: option.split)
next
  case False
  then have "\<not> control_accepts vp rm users first" by (auto simp: control_accepts_def)
  then show ?thesis by (simp add: process_control_other [OF False])
qed

lemma auth_step_ops:
  "auth_step vp rm us up users c store = tokens.run_store (conn_ops vp rm up users c) store"
  by (cases c) (auto simp: process_control_decides mux_authenticate_def token_remove_def
      split: option.splits)

lemma run_store_append:
  "tokens.run_store (xs @ ys) store =
     (let (s, t) = tokens.run_store xs store; (s', t') = tokens.run_store ys s in (s', t @ t'))"
  by (induction xs arbitrary: store rule: puts_of.induct) (auto simp: Let_def split: prod.splits)

lemma auth_run_ops:
  "auth_run vp rm us up users cs store =
     tokens.run_store (concat (map (conn_ops vp rm up users) cs)) store"
  by (induction cs arbitrary: store)
     (auto simp: auth_step_ops run_store_append split: prod.splits)

text \<open>The tokens issued: those of the accepted control handshakes.\<close>

definition tokens_issued ::
  "(string \<Rightarrow> 'v option) \<Rightarrow> (string \<Rightarrow> 'v \<Rightarrow> bool) \<Rightarrow> string list \<Rightarrow> 'u srv_conn list \<Rightarrow> 'u list" where
  "tokens_issued vp rm users cs =
     concat (map (\<lambda>c. case c of
         ControlConn token first \<Rightarrow> if control_accepts vp rm users first then [token] else []
       | MuxConn items \<Rightarrow> []) cs)"

lemma puts_of_conn_ops:
  "puts_of (concat (map (conn_ops vp rm up users) cs)) = tokens_issued vp rm users cs"
proof -
  have "puts_of (conn_ops vp rm up users c) = (case c of
      ControlConn token first \<Rightarrow> if control_accepts vp rm users first then [token] else []
    | MuxConn items \<Rightarrow> [])" for c
    by (cases c) (auto split: option.split)
  then show ?thesis
    by (induction cs) (auto simp: tokens_issued_def puts_of_append)
qed

lemma auth_run_le_issued:
  "count_list (snd (auth_run vp rm us up users cs {})) u \<le> count_list (tokens_issued vp rm users cs) u"
proof -
  have "count_list (snd (auth_run vp rm us up users cs {})) u \<le>
      of_bool (u \<in> {}) + count_list (puts_of (concat (map (conn_ops vp rm up users) cs))) u"
    unfolding auth_run_ops using tokens.taken_le_puts by (rule add_leD1)
  then show ?thesis by (simp add: puts_of_conn_ops)
qed


lemma process_control_reply:
  "snd (process_control vp rm us token first users store) =
     [SendMsg (WsText (''Hi:'' @ us token))] \<longleftrightarrow> control_accepts vp rm users first"
proof (cases "control_accepts vp rm users first")
  case True
  then obtain version user v where first: "first = Some (Some (WsText (''Hello:'' @ version @ '':'' @ user)))"
    and colon: "CHR '':'' \<notin> set version"
    and ok: "vp version = Some v" "rm SUPPORTED_VERSION v" "user \<in> set users"
    by (auto simp: control_accepts_def)
  with True show ?thesis
    unfolding first process_control_hello [OF colon] by simp
next
  case False
  then show ?thesis
  proof (cases "\<exists>version user. first = Some (Some (WsText (''Hello:'' @ version @ '':'' @ user))) \<and>
      CHR '':'' \<notin> set version")
    case True
    then obtain version user where first: "first = Some (Some (WsText (''Hello:'' @ version @ '':'' @ user)))"
      and colon: "CHR '':'' \<notin> set version" by blast
    with False have "\<nexists>v. vp version = Some v \<and> rm SUPPORTED_VERSION v \<and> user \<in> set users"
      by (auto simp: control_accepts_def)
    with False show ?thesis
      unfolding first process_control_hello [OF colon] by (auto split: option.split)
  next
    case other: False
    with False show ?thesis by (simp add: process_control_other [OF other])
  qed
qed

subsection \<open>Properties\<close>

text \<open>
  The control handshake adds a token to the store, and answers with it, exactly for a
  client whose message is \<open>Hello:version:user\<close> with a version that parses and is supported and
  a listed user; in every other case the store is unchanged and no token is sent.
\<close>

theorem control_issues_token_iff:
  "fst (process_control vp rm us token first users store) =
     (if control_accepts vp rm users first then insert token store else store) \<and>
   (snd (process_control vp rm us token first users store) =
     [SendMsg (WsText (''Hi:'' @ us token))] \<longleftrightarrow> control_accepts vp rm users first)"
  by (simp only: process_control_decides process_control_reply token_insert_def)

text \<open>
  C15: over the whole life of a server that starts with an empty store, for every interleaving
  of control and mux connections, a token starts at most as many mux sessions as accepted
  control handshakes issued it. So no session starts without a token issued to an allowed
  client, and a token issued once admits one session only.
\<close>

theorem sessions_le_tokens_issued:
  "count_list (snd (auth_run vp rm us up users cs {})) u \<le> count_list (tokens_issued vp rm users cs) u"
  by (rule auth_run_le_issued)

text \<open>
  What opens a mux session: after any number of pings, one binary message that decodes to a
  HELLO frame whose token parses. Every other first message ends the connection.
\<close>

lemma await_hello_iff:
  "await_hello up items = Some (u, rest) \<longleftrightarrow>
     (\<exists>pings data t. items = map (\<lambda>p. Some (WsPing p)) pings @ Some (WsBinary data) # rest \<and>
        decode data = Inr (Hello t) \<and> up t = Some u)"
proof (induction up items rule: await_hello.induct)
  case (2 up data ws_src)
  have "(\<exists>pings d t. Some (WsBinary data) # ws_src =
        map (\<lambda>p. Some (WsPing p)) pings @ Some (WsBinary d) # rest \<and> P d t) \<longleftrightarrow>
      (\<exists>t. ws_src = rest \<and> P data t)" for P :: "bytes \<Rightarrow> string \<Rightarrow> bool"
    by (auto simp: Cons_eq_append_conv map_eq_Cons_conv intro: exI [of _ "[]"])
  then show ?case by (auto split: sum.split frame.split option.split)
next
  case (3 up p ws_src)
  have "(\<exists>pings d t. Some (WsPing p) # ws_src =
        map (\<lambda>p. Some (WsPing p)) pings @ Some (WsBinary d) # rest \<and> P d t) \<longleftrightarrow>
      (\<exists>pings d t. ws_src = map (\<lambda>p. Some (WsPing p)) pings @ Some (WsBinary d) # rest \<and> P d t)"
    for P :: "bytes \<Rightarrow> string \<Rightarrow> bool"
    by (auto simp: Cons_eq_append_conv Cons_eq_map_conv)
  with 3 show ?case by simp
qed (auto simp: Cons_eq_append_conv Cons_eq_map_conv)

text \<open>
  The dispatch looks once, at the bytes that one \<open>peek\<close> has found: a client whose upgrade request
  arrives in two parts, the word \<open>websocket\<close> in the second, is answered 404.
\<close>

lemma partial_upgrade_refused:
  assumes "header_bytes \<noteq> []" "\<not> is_websocket header_bytes" "\<not> starts_with header_bytes (as_bytes ''GET / '')"
  shows "accept_connection (Some header_bytes) handshake = Reply not_found_response"
  using assms by (simp add: accept_connection_def)

lemma partial_upgrade_example:
  "accept_connection (Some (as_bytes (''GET /mux HTTP/1.1'' @ crlf))) handshake = Reply not_found_response"
proof (rule partial_upgrade_refused)
  show "as_bytes (''GET /mux HTTP/1.1'' @ crlf) \<noteq> []" by (simp add: as_bytes_def)
  show "\<not> is_websocket (as_bytes (''GET /mux HTTP/1.1'' @ crlf))"
    by (simp add: is_websocket_def) code_simp
  show "\<not> starts_with (as_bytes (''GET /mux HTTP/1.1'' @ crlf)) (as_bytes ''GET / '')" by code_simp
qed

text \<open>
  A request that is no WebSocket upgrade is answered with the status page or 404 and never
  reaches the tunnel; an upgraded connection runs the control handshake exactly on
  \<open>/control\<close> and a mux session exactly on \<open>/mux\<close>. The hypothesis says that the upgrade fails
  when the callback refuses the path.
\<close>

theorem accept_connection_dispatch:
  assumes upgrade: "\<And>cb p. handshake cb = Some p \<Longrightarrow> cb p"
  shows "(accept_connection peek handshake = RunControl \<longleftrightarrow>
      (\<exists>h. peek = Some h \<and> is_websocket h) \<and> handshake path_allowed = Some ''/control'') \<and>
    (accept_connection peek handshake = RunMux \<longleftrightarrow>
      (\<exists>h. peek = Some h \<and> is_websocket h) \<and> handshake path_allowed = Some ''/mux'')"
proof -
  have "is_websocket [] = False" by (simp add: is_websocket_def of_bytes_def)
  moreover have "handshake path_allowed = None \<or> handshake path_allowed = Some ''/control'' \<or>
      handshake path_allowed = Some ''/mux''"
    using upgrade [of path_allowed] by (auto simp: path_allowed_def intro: ccontr)
  ultimately show ?thesis
    by (auto simp: accept_connection_def ends_with_def split: option.splits if_splits)
qed

theorem accept_connection_dispatch_witness:
  "accept_connection (Some (as_bytes ''GET /mux upgrade: WebSocket''))
     (\<lambda>cb. if cb ''/mux'' then Some ''/mux'' else None) = RunMux"
proof -
  let ?hs = "\<lambda>cb. if cb ''/mux'' then Some ''/mux'' else None"
  let ?peek = "Some (as_bytes ''GET /mux upgrade: WebSocket'')"
  have "accept_connection ?peek ?hs = RunMux \<longleftrightarrow>
      (\<exists>h. ?peek = Some h \<and> is_websocket h) \<and> ?hs path_allowed = Some ''/mux''"
    by (rule accept_connection_dispatch [THEN conjunct2]) (auto split: if_splits)
  moreover have "is_websocket (as_bytes ''GET /mux upgrade: WebSocket'')"
    by (simp add: is_websocket_def starts_with_def ascii_lower_def)
       (simp add: char_of_def bit_0)
  ultimately show ?thesis by (simp add: path_allowed_def)
qed

end
