(* ===== verification/Ip_Addr.thy ===== *)
theory Ip_Addr
  imports Rust_Str
begin

text \<open>
  \<open>std::net::IpAddr\<close>: the textual forms that \<open>parse\<close> accepts, the forms that \<open>Display\<close>
  prints and the address classes the sources ask for. An IPv6 address is the list of its eight
  16-bit segments.
\<close>

datatype ip_addr = V4 u8 u8 u8 u8 | V6 "u16 list"

fun ip_wf :: "ip_addr \<Rightarrow> bool" where
  "ip_wf (V4 a b c d) = True"
| "ip_wf (V6 gs) = (length gs = 8)"

subsection \<open>The parser of \<open>core::net\<close>\<close>

text \<open>
  Every reader consumes a prefix of its input and returns the rest, or fails and consumes
  nothing.
\<close>

type_synonym 'a reader = "string \<Rightarrow> ('a \<times> string) option"

definition to_digit :: "nat \<Rightarrow> char \<Rightarrow> nat option" where
  "to_digit radix c =
     (let n = of_char c;
          d = (if 48 \<le> n \<and> n \<le> 57 then Some (n - 48)
               else if 97 \<le> n \<and> n \<le> 122 then Some (n - 87)
               else if 65 \<le> n \<and> n \<le> 90 then Some (n - 55)
               else None)
      in case d of Some v \<Rightarrow> if v < radix then Some v else None | None \<Rightarrow> None)"

fun read_digits ::
  "nat \<Rightarrow> nat \<Rightarrow> nat \<Rightarrow> nat \<Rightarrow> nat \<Rightarrow> string \<Rightarrow> (nat \<times> nat \<times> string) option" where
  "read_digits radix max_digits bound result digit_count [] = Some (result, digit_count, [])"
| "read_digits radix max_digits bound result digit_count (c # s) =
     (case to_digit radix c of
        None \<Rightarrow> Some (result, digit_count, c # s)
      | Some d \<Rightarrow>
          let result' = result * radix + d
          in if bound < result' \<or> max_digits < digit_count + 1 then None
             else read_digits radix max_digits bound result' (digit_count + 1) s)"

definition read_number :: "nat \<Rightarrow> nat \<Rightarrow> bool \<Rightarrow> nat \<Rightarrow> nat reader" where
  "read_number radix max_digits allow_zero_prefix bound s =
     (case read_digits radix max_digits bound 0 0 s of
        None \<Rightarrow> None
      | Some (result, digit_count, rest) \<Rightarrow>
          if digit_count = 0 then None
          else if \<not> allow_zero_prefix \<and> starts_with s ''0'' \<and> 1 < digit_count then None
          else Some (result, rest))"

definition read_given_char :: "char \<Rightarrow> unit reader" where
  "read_given_char c s =
     (case s of [] \<Rightarrow> None | x # r \<Rightarrow> if x = c then Some ((), r) else None)"

definition read_separator :: "char \<Rightarrow> nat \<Rightarrow> 'a reader \<Rightarrow> 'a reader" where
  "read_separator sep index inner s =
     (if 0 < index then
        (case read_given_char sep s of None \<Rightarrow> None | Some (_, r) \<Rightarrow> inner r)
      else inner s)"

definition read_octet :: "nat \<Rightarrow> u8 reader" where
  "read_octet index s =
     map_option (map_prod of_nat id) (read_separator CHR ''.'' index (read_number 10 3 False 255) s)"

definition read_ipv4_addr :: "(u8 \<times> u8 \<times> u8 \<times> u8) reader" where
  "read_ipv4_addr s =
     (case read_octet 0 s of None \<Rightarrow> None | Some (a, r0) \<Rightarrow>
     (case read_octet 1 r0 of None \<Rightarrow> None | Some (b, r1) \<Rightarrow>
     (case read_octet 2 r1 of None \<Rightarrow> None | Some (c, r2) \<Rightarrow>
     (case read_octet 3 r2 of None \<Rightarrow> None | Some (d, r3) \<Rightarrow> Some ((a, b, c, d), r3)))))"

text \<open>
  \<open>read_groups\<close> fills at most \<open>limit\<close> groups from index \<open>i\<close> on; it returns the groups read,
  whether they end in an embedded IPv4 address, and the rest of the input.
\<close>

function read_groups :: "nat \<Rightarrow> nat \<Rightarrow> string \<Rightarrow> u16 list \<times> bool \<times> string" where
  "read_groups limit i s =
     (if limit \<le> i then ([], False, s)
      else
        case (if i < limit - 1 then read_separator CHR '':'' i read_ipv4_addr s else None) of
          Some ((one, two, three, four), r) \<Rightarrow>
            ([u16_from_be_bytes one two, u16_from_be_bytes three four], True, r)
        | None \<Rightarrow>
            (case read_separator CHR '':'' i (read_number 16 4 True 65535) s of
               Some (g, r) \<Rightarrow>
                 (let (gs, ipv4, r') = read_groups limit (i + 1) r in (of_nat g # gs, ipv4, r'))
             | None \<Rightarrow> ([], False, s)))"
  by pat_completeness auto
termination
  by (relation "measure (\<lambda>(limit, i, s). limit - i)") auto

declare read_groups.simps [simp del]

definition read_ipv6_addr :: "(u16 list) reader" where
  "read_ipv6_addr s =
     (let (head, head_ipv4, r) = read_groups 8 0 s
      in if length head = 8 then Some (head, r)
         else if head_ipv4 then None
         else
           case read_given_char CHR '':'' r of None \<Rightarrow> None | Some (_, r1) \<Rightarrow>
           (case read_given_char CHR '':'' r1 of None \<Rightarrow> None | Some (_, r2) \<Rightarrow>
             (let (tail, _, r3) = read_groups (8 - (length head + 1)) 0 r2
              in Some (head @ replicate (8 - length head - length tail) 0 @ tail, r3))))"

definition read_ip_addr :: "ip_addr reader" where
  "read_ip_addr s =
     (case read_ipv4_addr s of
        Some ((a, b, c, d), r) \<Rightarrow> Some (V4 a b c d, r)
      | None \<Rightarrow> map_option (map_prod V6 id) (read_ipv6_addr s))"

definition parse_ip :: "string \<Rightarrow> ip_addr option" where
  "parse_ip s = (case read_ip_addr s of Some (ip, []) \<Rightarrow> Some ip | _ \<Rightarrow> None)"

subsection \<open>Display\<close>

definition show_v4 :: "u8 \<Rightarrow> u8 \<Rightarrow> u8 \<Rightarrow> u8 \<Rightarrow> string" where
  "show_v4 a b c d =
     show_nat (unat a) @ ''.'' @ show_nat (unat b) @ ''.'' @ show_nat (unat c) @ ''.'' @ show_nat (unat d)"

fun fmt_subslice :: "u16 list \<Rightarrow> string" where
  "fmt_subslice [] = []"
| "fmt_subslice [g] = show_hex (unat g)"
| "fmt_subslice (g # h # gs) = show_hex (unat g) @ '':'' @ fmt_subslice (h # gs)"

text \<open>The longest run of zero segments, the first one among equals, as (start, length).\<close>

fun zero_span :: "nat \<Rightarrow> nat \<times> nat \<Rightarrow> nat \<times> nat \<Rightarrow> u16 list \<Rightarrow> nat \<times> nat" where
  "zero_span i longest current [] = longest"
| "zero_span i longest current (g # gs) =
     (if g = 0 then
        let current' = (if snd current = 0 then i else fst current, snd current + 1);
            longest' = (if snd current' > snd longest then current' else longest)
        in zero_span (i + 1) longest' current' gs
      else zero_span (i + 1) longest (0, 0) gs)"

definition show_v6 :: "u16 list \<Rightarrow> string" where
  "show_v6 gs =
     (if take 6 gs = [0, 0, 0, 0, 0, 0xFFFF] then
        ''::ffff:'' @ show_v4 (ucast (drop_bit 8 (gs ! 6))) (ucast (gs ! 6))
                              (ucast (drop_bit 8 (gs ! 7))) (ucast (gs ! 7))
      else
        let (start, len) = zero_span 0 (0, 0) (0, 0) gs
        in if 1 < len
           then fmt_subslice (take start gs) @ ''::'' @ fmt_subslice (drop (start + len) gs)
           else fmt_subslice gs)"

fun show_ip :: "ip_addr \<Rightarrow> string" where
  "show_ip (V4 a b c d) = show_v4 a b c d"
| "show_ip (V6 gs) = show_v6 gs"

subsection \<open>Address classes\<close>

definition v4_is_loopback :: "u8 \<Rightarrow> u8 \<Rightarrow> u8 \<Rightarrow> u8 \<Rightarrow> bool" where
  "v4_is_loopback a b c d \<longleftrightarrow> a = 127"

definition v4_is_private :: "u8 \<Rightarrow> u8 \<Rightarrow> u8 \<Rightarrow> u8 \<Rightarrow> bool" where
  "v4_is_private a b c d \<longleftrightarrow>
     a = 10 \<or> a = 172 \<and> 16 \<le> b \<and> b \<le> 31 \<or> a = 192 \<and> b = 168"

definition v4_is_link_local :: "u8 \<Rightarrow> u8 \<Rightarrow> u8 \<Rightarrow> u8 \<Rightarrow> bool" where
  "v4_is_link_local a b c d \<longleftrightarrow> a = 169 \<and> b = 254"

definition v4_is_unspecified :: "u8 \<Rightarrow> u8 \<Rightarrow> u8 \<Rightarrow> u8 \<Rightarrow> bool" where
  "v4_is_unspecified a b c d \<longleftrightarrow> a = 0 \<and> b = 0 \<and> c = 0 \<and> d = 0"

definition v6_is_loopback :: "u16 list \<Rightarrow> bool" where
  "v6_is_loopback gs \<longleftrightarrow> gs = [0, 0, 0, 0, 0, 0, 0, 1]"

definition v6_is_unspecified :: "u16 list \<Rightarrow> bool" where
  "v6_is_unspecified gs \<longleftrightarrow> gs = [0, 0, 0, 0, 0, 0, 0, 0]"

definition v6_is_multicast :: "u16 list \<Rightarrow> bool" where
  "v6_is_multicast gs \<longleftrightarrow> gs ! 0 AND 0xFF00 = 0xFF00"

lemmas v4_class_defs =
  v4_is_loopback_def v4_is_private_def v4_is_link_local_def v4_is_unspecified_def

lemmas v6_class_defs = v6_is_loopback_def v6_is_unspecified_def v6_is_multicast_def


subsection \<open>Reading back what is printed\<close>

lemma to_digit_digit_char: "d < r \<Longrightarrow> r \<le> 16 \<Longrightarrow> to_digit r (digit_char d) = Some d"
  by (simp add: to_digit_def Let_def of_char_digit_char)

lemma read_digits_show:
  assumes r: "2 \<le> r" "r \<le> 16"
  shows "n \<le> bound \<Longrightarrow> length (show_radix r n) \<le> md \<Longrightarrow>
     read_digits r md bound 0 0 (show_radix r n @ s) =
     read_digits r md bound n (length (show_radix r n)) s"
proof (induction n arbitrary: s rule: show_radix_induct [OF r(1), case_names small big])
  case (small n)
  with r show ?case by (simp add: show_radix_small to_digit_digit_char)
next
  case (big n)
  have "n div r \<le> bound" using big.prems(1) div_le_dividend le_trans by blast
  moreover have "n div r * r + n mod r = n" by simp
  moreover have "n mod r < r" using r by simp
  ultimately show ?case
    using big r by (simp add: show_radix_big to_digit_digit_char Let_def)
qed

text \<open>Input on which a number ends: the end of the text or a character that is no digit.\<close>

definition no_digit :: "nat \<Rightarrow> string \<Rightarrow> bool" where
  "no_digit r s \<longleftrightarrow> s = [] \<or> to_digit r (hd s) = None"

lemma read_digits_stop: "no_digit r s \<Longrightarrow> read_digits r md bound n k s = Some (n, k, s)"
  by (cases s) (auto simp: no_digit_def)

lemma read_number_show:
  assumes "2 \<le> r" "r \<le> 16" "n \<le> bound" "length (show_radix r n) \<le> md" "no_digit r s"
  shows "read_number r md z bound (show_radix r n @ s) = Some (n, s)"
proof -
  have "\<not> (starts_with (show_radix r n @ s) ''0'' \<and> 1 < length (show_radix r n))"
  proof
    assume lead: "starts_with (show_radix r n @ s) ''0'' \<and> 1 < length (show_radix r n)"
    then have "hd (show_radix r n) = CHR ''0''"
      by (cases "show_radix r n") (auto simp: starts_with_iff)
    then have "n = 0" using hd_show_radix assms by blast
    with lead assms(1) show False by (simp add: show_radix_small)
  qed
  then show ?thesis
    using assms by (auto simp: read_number_def read_digits_show read_digits_stop)
qed

lemma read_number_no_digit: "no_digit r s \<Longrightarrow> read_number r md z bound s = None"
  by (simp add: read_number_def read_digits_stop)

lemma no_digit_Cons [simp]: "no_digit r (c # s) \<longleftrightarrow> to_digit r c = None"
  and no_digit_Nil [simp]: "no_digit r []"
  by (simp_all add: no_digit_def)

lemma to_digit_dot [simp]: "r \<le> 36 \<Longrightarrow> to_digit r CHR ''.'' = None"
  and to_digit_colon [simp]: "r \<le> 36 \<Longrightarrow> to_digit r CHR '':'' = None"
  by (simp_all add: to_digit_def Let_def)

lemma read_octet_show:
  assumes "no_digit 10 s"
  shows "read_octet 0 (show_nat (unat (b :: u8)) @ s) = Some (b, s)"
    and "0 < i \<Longrightarrow> read_octet i (CHR ''.'' # show_nat (unat b) @ s) = Some (b, s)"
proof -
  have "unat b < 256" by (rule u8_less)
  then have "length (show_radix 10 (unat b)) \<le> Suc 2"
    by (intro length_show_radix) simp_all
  with \<open>unat b < 256\<close> assms
  have "read_number 10 3 False 255 (show_radix 10 (unat b) @ s) = Some (unat b, s)"
    by (intro read_number_show) simp_all
  then show "read_octet 0 (show_nat (unat b) @ s) = Some (b, s)"
    and "0 < i \<Longrightarrow> read_octet i (CHR ''.'' # show_nat (unat b) @ s) = Some (b, s)"
    by (simp_all add: read_octet_def read_separator_def read_given_char_def show_nat_def)
qed

lemma read_ipv4_show: "no_digit 10 s \<Longrightarrow> read_ipv4_addr (show_v4 a b c d @ s) = Some ((a, b, c, d), s)"
  by (simp add: read_ipv4_addr_def show_v4_def read_octet_show)

lemma read_octet_no_dot: "CHR ''.'' \<notin> set s \<Longrightarrow> 0 < i \<Longrightarrow> read_octet i s = None"
  by (cases s) (auto simp: read_octet_def read_separator_def read_given_char_def)

lemma read_digits_suffix: "read_digits r md bound n k s = Some (m, j, t) \<Longrightarrow> set t \<subseteq> set s"
  by (induction s arbitrary: n k) (auto split: option.splits if_splits simp: Let_def)

lemma read_octet_suffix: "read_octet 0 s = Some (b, t) \<Longrightarrow> set t \<subseteq> set s"
  by (auto simp: read_octet_def read_separator_def read_number_def
      split: option.splits if_splits prod.splits dest: read_digits_suffix)

lemma read_ipv4_no_dot: "CHR ''.'' \<notin> set s \<Longrightarrow> read_ipv4_addr s = None"
proof (cases "read_octet 0 s")
  case (Some bt)
  moreover assume "CHR ''.'' \<notin> set s"
  ultimately have "read_octet 1 (snd bt) = None"
    using read_octet_suffix [of s "fst bt" "snd bt"] by (intro read_octet_no_dot) auto
  with Some show ?thesis by (cases bt) (simp add: read_ipv4_addr_def)
qed (simp add: read_ipv4_addr_def)

lemma read_ipv4_no_digit: "no_digit 10 s \<Longrightarrow> read_ipv4_addr s = None"
  by (simp add: read_ipv4_addr_def read_octet_def read_separator_def read_number_no_digit)

lemma read_group_show:
  "no_digit 16 s \<Longrightarrow> read_number 16 4 True 65535 (show_hex (unat (g :: u16)) @ s) = Some (unat g, s)"
proof -
  assume "no_digit 16 s"
  have "unat g < 65536" by (rule u16_less)
  then have "length (show_radix 16 (unat g)) \<le> Suc 3"
    by (intro length_show_radix) simp_all
  with \<open>unat g < 65536\<close> \<open>no_digit 16 s\<close> show ?thesis
    unfolding show_hex_def by (intro read_number_show) simp_all
qed


text \<open>The text of groups that follow a first one.\<close>

definition colon_groups :: "u16 list \<Rightarrow> string" where
  "colon_groups gs = concat (map (\<lambda>g. CHR '':'' # show_hex (unat g)) gs)"

lemma colon_groups_simps [simp]:
  "colon_groups [] = []"
  "colon_groups (g # gs) = CHR '':'' # show_hex (unat g) @ colon_groups gs"
  by (simp_all add: colon_groups_def)

lemma fmt_subslice_Cons: "fmt_subslice (g # gs) = show_hex (unat g) @ colon_groups gs"
  by (induction gs arbitrary: g) auto

lemma show_hex_no_dot [simp]: "CHR ''.'' \<notin> set (show_hex n)"
  using show_hex_range [of "CHR ''.''" n] by auto

lemma colon_groups_no_dot [simp]: "CHR ''.'' \<notin> set (colon_groups gs)"
  by (induction gs) auto

lemma fmt_subslice_no_dot [simp]: "CHR ''.'' \<notin> set (fmt_subslice gs)"
  by (cases gs) (auto simp: fmt_subslice_Cons)

text \<open>Input on which a run of groups ends: the end of the text or a double colon.\<close>

definition groups_end :: "string \<Rightarrow> bool" where
  "groups_end s \<longleftrightarrow> s = [] \<or> (\<exists>t. s = CHR '':'' # CHR '':'' # t)"

lemma no_digit_colon_groups: "groups_end s \<Longrightarrow> no_digit 16 (colon_groups gs @ s)"
  by (cases gs) (auto simp: groups_end_def)

lemma read_sep_no_dot:
  "CHR ''.'' \<notin> set s \<Longrightarrow> read_separator CHR '':'' i read_ipv4_addr s = None"
  by (cases s) (auto simp: read_separator_def read_given_char_def read_ipv4_no_dot)

lemma read_groups_end:
  "groups_end s \<Longrightarrow> CHR ''.'' \<notin> set s \<Longrightarrow> read_groups limit i s = ([], False, s)"
  by (subst read_groups.simps)
     (auto simp: groups_end_def read_separator_def read_given_char_def read_ipv4_no_dot
        read_number_no_digit)

lemma read_groups_colon:
  assumes "groups_end s" "CHR ''.'' \<notin> set s"
  shows "0 < i \<Longrightarrow> i + length gs \<le> limit \<Longrightarrow>
     read_groups limit i (colon_groups gs @ s) = (gs, False, s)"
proof (induction gs arbitrary: i)
  case Nil
  with assms show ?case by (simp add: read_groups_end)
next
  case (Cons g gs)
  let ?t = "colon_groups (g # gs) @ s"
  have "read_separator CHR '':'' i (read_number 16 4 True 65535) ?t
      = Some (unat g, colon_groups gs @ s)"
    using Cons.prems assms(1)
    by (simp add: read_separator_def read_given_char_def read_group_show no_digit_colon_groups)
  moreover have "read_separator CHR '':'' i read_ipv4_addr ?t = None"
    using assms(2) by (intro read_sep_no_dot) auto
  ultimately show ?case
    using Cons by (subst read_groups.simps) simp
qed

lemma read_groups_fmt:
  assumes "groups_end s" "CHR ''.'' \<notin> set s" "length gs \<le> limit"
  shows "read_groups limit 0 (fmt_subslice gs @ s) = (gs, False, s)"
proof (cases gs)
  case Nil
  with assms show ?thesis by (simp add: read_groups_end)
next
  case (Cons g hs)
  have "read_ipv4_addr (fmt_subslice gs @ s) = None"
    using assms(2) by (intro read_ipv4_no_dot) simp
  then show ?thesis
    using assms Cons
    by (subst read_groups.simps)
       (simp add: read_separator_def fmt_subslice_Cons read_group_show no_digit_colon_groups
          read_groups_colon [OF assms(1,2)])
qed

text \<open>The span found by \<open>zero_span\<close> lies inside the address and holds zeros only.\<close>

definition zeros_at :: "u16 list \<Rightarrow> nat \<times> nat \<Rightarrow> bool" where
  "zeros_at gs sp \<longleftrightarrow> fst sp + snd sp \<le> length gs \<and> (\<forall>k < snd sp. gs ! (fst sp + k) = 0)"

lemma zero_span_zeros:
  "zeros_at (pre @ gs) lo \<Longrightarrow> zeros_at (pre @ gs) cu \<Longrightarrow> snd cu \<noteq> 0 \<longrightarrow> fst cu + snd cu = length pre \<Longrightarrow>
     zeros_at (pre @ gs) (zero_span (length pre) lo cu gs)"
proof (induction gs arbitrary: pre lo cu)
  case (Cons g gs)
  show ?case
  proof (cases "g = 0")
    case True
    define cu' where "cu' = (if snd cu = 0 then length pre else fst cu, snd cu + 1)"
    have "zeros_at (pre @ g # gs) cu'"
      using Cons.prems True
      by (auto simp: zeros_at_def cu'_def nth_append less_Suc_eq)
    moreover have "fst cu' + snd cu' = length (pre @ [g])"
      using Cons.prems by (auto simp: cu'_def)
    moreover have "zero_span (length pre) lo cu (g # gs) =
        zero_span (length (pre @ [g])) (if snd lo < snd cu' then cu' else lo) cu' gs"
      using True by (simp add: cu'_def Let_def)
    ultimately show ?thesis
      using Cons.IH [of "pre @ [g]" "if snd lo < snd cu' then cu' else lo" cu'] Cons.prems(1)
      by simp
  next
    case False
    then show ?thesis
      using Cons.IH [of "pre @ [g]" lo "(0, 0)"] Cons.prems(1) by (simp add: zeros_at_def)
  qed
qed simp

lemma zeros_at_split:
  "zeros_at gs (st, len) \<Longrightarrow> gs = take st gs @ replicate len 0 @ drop (st + len) gs"
proof -
  assume z: "zeros_at gs (st, len)"
  then have "take len (drop st gs) = replicate len 0"
    by (intro nth_equalityI) (auto simp: zeros_at_def)
  then show ?thesis
    by (metis append_take_drop_id drop_drop add.commute)
qed

lemma read_ipv6_show_groups: "length gs = 8 \<Longrightarrow> read_ipv6_addr (fmt_subslice gs) = Some (gs, [])"
  using read_groups_fmt [of "[]" gs 8] by (simp add: read_ipv6_addr_def groups_end_def)

lemma read_ipv6_show_compressed:
  assumes "length h + n + length t = 8" "0 < n"
  shows "read_ipv6_addr (fmt_subslice h @ ''::'' @ fmt_subslice t) = Some (h @ replicate n 0 @ t, [])"
proof -
  have "read_groups 8 0 (fmt_subslice h @ ''::'' @ fmt_subslice t) = (h, False, ''::'' @ fmt_subslice t)"
    using assms by (intro read_groups_fmt) (auto simp: groups_end_def)
  moreover have "read_groups (8 - (length h + 1)) 0 (fmt_subslice t @ []) = (t, False, [])"
    using assms by (intro read_groups_fmt) (auto simp: groups_end_def)
  moreover have "8 - length h - length t = n" using assms by simp
  ultimately show ?thesis
    using assms by (simp add: read_ipv6_addr_def read_given_char_def)
qed

lemma read_ipv6_show_mapped:
  "read_ipv6_addr (''::ffff:'' @ show_v4 a b c d) =
     Some ([0, 0, 0, 0, 0, 0xFFFF, u16_from_be_bytes a b, u16_from_be_bytes c d], [])"
proof -
  let ?v4 = "show_v4 a b c d"
  have hex: "''ffff'' = show_hex (unat (0xFFFF :: u16))"
    by (simp add: show_hex_def show_radix.simps digit_char_def)
       (simp add: char_of_def bit_0)
  have head: "read_groups 8 0 (''::ffff:'' @ ?v4) = ([], False, ''::ffff:'' @ ?v4)"
    by (subst read_groups.simps)
       (simp add: read_separator_def read_ipv4_no_digit read_number_no_digit)
  have "read_groups 7 1 (CHR '':'' # ?v4) =
      ([u16_from_be_bytes a b, u16_from_be_bytes c d], True, [])"
    using read_ipv4_show [of "[]"]
    by (subst read_groups.simps) (simp add: read_separator_def read_given_char_def)
  moreover have "read_number 16 4 True 65535 (''ffff'' @ CHR '':'' # ?v4) = Some (0xFFFF, CHR '':'' # ?v4)"
    unfolding hex by (subst read_group_show) simp_all
  moreover have "read_ipv4_addr (''ffff'' @ CHR '':'' # ?v4) = None"
    by (rule read_ipv4_no_digit) (simp add: to_digit_def Let_def)
  ultimately have "read_groups 7 0 (''ffff'' @ CHR '':'' # ?v4) =
      ([0xFFFF, u16_from_be_bytes a b, u16_from_be_bytes c d], True, [])"
    by (subst read_groups.simps) (simp add: read_separator_def)
  with head show ?thesis
    by (simp add: read_ipv6_addr_def read_given_char_def eval_nat_numeral)
qed

lemma read_ipv6_show: "length gs = 8 \<Longrightarrow> read_ipv6_addr (show_v6 gs) = Some (gs, [])"
proof -
  assume len: "length gs = 8"
  show ?thesis
  proof (cases "take 6 gs = [0, 0, 0, 0, 0, 0xFFFF]")
    case True
    have "gs = take 6 gs @ [gs ! 6, gs ! 7]"
      using len by (simp add: list_eq_iff_nth_eq nth_append less_Suc_eq eval_nat_numeral)
    then have "gs = [0, 0, 0, 0, 0, 0xFFFF, gs ! 6, gs ! 7]" using True by simp
    moreover have "read_ipv6_addr (show_v6 gs) =
        Some ([0, 0, 0, 0, 0, 0xFFFF, gs ! 6, gs ! 7], [])"
      using True unfolding show_v6_def
      by (simp only: simp_thms if_True read_ipv6_show_mapped u16_from_to_be_bytes)
    ultimately show ?thesis by simp
  next
    case False
    obtain st n where sp: "zero_span 0 (0, 0) (0, 0) gs = (st, n)" by fastforce
    have z: "zeros_at gs (st, n)"
      using zero_span_zeros [of "[]" gs "(0, 0)" "(0, 0)"] sp by (simp add: zeros_at_def)
    then have "length (take st gs) + n + length (drop (st + n) gs) = 8"
      using len by (simp add: zeros_at_def)
    then show ?thesis
      using False sp len zeros_at_split [OF z] read_ipv6_show_groups [OF len]
        read_ipv6_show_compressed [of "take st gs" n "drop (st + n) gs"]
      by (auto simp: show_v6_def)
  qed
qed

lemma hd_show_v6_no_v4: "length gs = 8 \<Longrightarrow> read_ipv4_addr (show_v6 gs) = None"
  by (auto simp: show_v6_def read_ipv4_no_digit intro!: read_ipv4_no_dot split: prod.splits)

lemma parse_show_ip: "ip_wf ip \<Longrightarrow> parse_ip (show_ip ip) = Some ip"
proof (cases ip)
  case (V4 a b c d)
  then show ?thesis
    using read_ipv4_show [of "[]" a b c d] by (simp add: parse_ip_def read_ip_addr_def)
next
  case (V6 gs)
  moreover assume "ip_wf ip"
  ultimately show ?thesis
    by (simp add: parse_ip_def read_ip_addr_def hd_show_v6_no_v4 read_ipv6_show)
qed


text \<open>A text that starts with neither a hexadecimal digit nor a colon is no address.\<close>

lemma no_digit_10: "no_digit 16 s \<Longrightarrow> no_digit 10 s"
  by (auto simp: no_digit_def to_digit_def Let_def split: option.splits if_splits)

lemma parse_ip_name:
  assumes "no_digit 16 s" "\<not> starts_with s '':''"
  shows "parse_ip s = None"
proof -
  have "read_groups 8 0 s = ([], False, s)"
    using assms(1) by (subst read_groups.simps)
      (simp add: read_separator_def read_ipv4_no_digit no_digit_10 read_number_no_digit)
  moreover have "read_given_char CHR '':'' s = None"
    using assms(2) by (cases s) (auto simp: read_given_char_def starts_with_iff)
  ultimately show ?thesis
    using assms(1)
    by (simp add: parse_ip_def read_ip_addr_def read_ipv6_addr_def read_ipv4_no_digit no_digit_10)
qed

end
