(* ===== verification/Server_Dest.thy ===== *)
theory Server_Dest
  imports Ip_Addr
begin

text \<open>
  The destination filter of \<open>server/src/lib.rs\<close> (section "SSRF protection"):
  \<open>is_dest_allowed\<close> and \<open>is_public_ip\<close>.
\<close>

subsection \<open>Operations\<close>

fun is_public_ip :: "ip_addr \<Rightarrow> bool" where
  "is_public_ip (V4 a b c d) =
     (\<not> v4_is_loopback a b c d \<and> \<not> v4_is_private a b c d \<and>
      \<not> v4_is_link_local a b c d \<and> \<not> v4_is_unspecified a b c d)"
| "is_public_ip (V6 gs) =
     (\<not> v6_is_loopback gs \<and> \<not> v6_is_unspecified gs \<and> \<not> v6_is_multicast gs)"

definition is_dest_allowed :: "string \<Rightarrow> bool" where
  "is_dest_allowed dest =
     (let host = (case rsplit_once CHR '':'' dest of
                    Some (before, _) \<Rightarrow> trim_brackets before
                  | None \<Rightarrow> dest)
      in case parse_ip host of Some ip \<Rightarrow> is_public_ip ip | None \<Rightarrow> True)"

subsection \<open>Addresses as destinations\<close>

text \<open>The \<open>host:port\<close> text of an address: IPv6 in brackets, as the client writes it.\<close>

fun ip_host :: "ip_addr \<Rightarrow> string" where
  "ip_host (V4 a b c d) = show_v4 a b c d"
| "ip_host (V6 gs) = ''['' @ show_v6 gs @ '']''"

lemma show_v4_chars:
  "x \<in> set (show_v4 a b c d) \<Longrightarrow> x = CHR ''.'' \<or> 48 \<le> (of_char x :: nat) \<and> of_char x \<le> (57 :: nat)"
  by (auto simp: show_v4_def dest: show_nat_range)

lemma show_v4_no_bracket: "x \<in> set (show_v4 a b c d) \<Longrightarrow> \<not> bracket x"
  using show_v4_chars [of x a b c d] by (auto simp: bracket_def)

lemma show_hex_no_bracket: "x \<in> set (show_hex n) \<Longrightarrow> \<not> bracket x"
  using show_hex_range [of x n] by (auto simp: bracket_def)

lemma fmt_subslice_no_bracket: "x \<in> set (fmt_subslice gs) \<Longrightarrow> \<not> bracket x"
  by (induction gs rule: fmt_subslice.induct) (auto simp: bracket_def dest: show_hex_no_bracket)

lemma show_v6_no_bracket: "x \<in> set (show_v6 gs) \<Longrightarrow> \<not> bracket x"
  by (auto simp: show_v6_def bracket_def split: if_splits prod.splits
      dest: show_v4_no_bracket fmt_subslice_no_bracket)

lemma show_v4_not_Nil [simp]: "show_v4 a b c d \<noteq> []"
  by (simp add: show_v4_def)

lemma show_v6_not_Nil: "length gs = 8 \<Longrightarrow> show_v6 gs \<noteq> []"
  using read_ipv6_show [of gs] by (auto simp: read_ipv6_addr_def read_groups_end groups_end_def
      read_given_char_def)

lemma trim_brackets_ip_host:
  "ip_wf ip \<Longrightarrow> trim_brackets (ip_host ip) = show_ip ip"
proof (cases ip)
  case (V4 a b c d)
  then show ?thesis
    by (auto intro!: trim_brackets_id dest: show_v4_no_bracket [OF hd_in_set]
        show_v4_no_bracket [OF last_in_set])
next
  case (V6 gs)
  moreover assume "ip_wf ip"
  ultimately have "show_v6 gs \<noteq> []" by (simp add: show_v6_not_Nil)
  then have "trim_brackets (''['' @ show_v6 gs @ '']'') = show_v6 gs"
    by (intro trim_brackets_bracketed) (auto dest: show_v6_no_bracket [OF hd_in_set]
        show_v6_no_bracket [OF last_in_set])
  with V6 show ?thesis by simp
qed

lemma dest_allowed_ip:
  "ip_wf ip \<Longrightarrow> CHR '':'' \<notin> set port \<Longrightarrow>
     is_dest_allowed (ip_host ip @ '':'' @ port) = is_public_ip ip"
  by (simp add: is_dest_allowed_def trim_brackets_ip_host parse_show_ip)


subsection \<open>Properties\<close>

text \<open>
  On a destination that is an IP literal with any port (IPv6 in brackets) the filter
  decides by the address alone, and lets it pass exactly when \<open>is_public_ip\<close> holds of it.
\<close>

theorem is_dest_allowed_ip_literal:
  "ip_wf ip \<Longrightarrow> CHR '':'' \<notin> set port \<Longrightarrow>
     is_dest_allowed (ip_host ip @ '':'' @ port) \<longleftrightarrow> is_public_ip ip"
  by (rule dest_allowed_ip)

theorem is_dest_allowed_ip_literal_witness:
  "is_dest_allowed (ip_host (V4 10 1 2 3) @ '':'' @ ''443'') \<longleftrightarrow> is_public_ip (V4 10 1 2 3)"
  by (rule is_dest_allowed_ip_literal) simp_all

text \<open>The 32-bit value of an IPv4 address.\<close>

definition v4_value :: "u8 \<Rightarrow> u8 \<Rightarrow> u8 \<Rightarrow> u8 \<Rightarrow> nat" where
  "v4_value a b c d = ((unat a * 256 + unat b) * 256 + unat c) * 256 + unat d"

lemma v4_value_block8:
  "v4_value a b c d \<in> {k * 16777216 .. k * 16777216 + 16777215} \<longleftrightarrow> unat a = k"
  using u8_less [of b] u8_less [of c] u8_less [of d] by (simp add: v4_value_def) linarith

lemma v4_value_block16:
  assumes "l \<le> m" "m < 256"
  shows "v4_value a b c d \<in> {(k * 256 + l) * 65536 .. (k * 256 + m) * 65536 + 65535} \<longleftrightarrow>
     unat a = k \<and> l \<le> unat b \<and> unat b \<le> m"
proof -
  define h r where "h = unat a * 256 + unat b" and "r = unat c * 256 + unat d"
  have "r < 65536" using u8_less [of c] u8_less [of d] by (simp add: r_def)
  then have "v4_value a b c d \<in> {x * 65536 .. y * 65536 + 65535} \<longleftrightarrow> x \<le> h \<and> h \<le> y" for x y
    by (simp add: v4_value_def h_def [symmetric] r_def) linarith
  then have "v4_value a b c d \<in> {(k * 256 + l) * 65536 .. (k * 256 + m) * 65536 + 65535} \<longleftrightarrow>
      k * 256 + l \<le> h \<and> h \<le> k * 256 + m"
    by blast
  also have "\<dots> \<longleftrightarrow> unat a = k \<and> l \<le> unat b \<and> unat b \<le> m"
  proof
    assume h: "k * 256 + l \<le> h \<and> h \<le> k * 256 + m"
    then have "unat a = k" using u8_less [of b] assms unfolding h_def by linarith
    with h show "unat a = k \<and> l \<le> unat b \<and> unat b \<le> m" by (simp add: h_def)
  qed (simp add: h_def)
  finally show ?thesis .
qed

text \<open>
  C34: the IPv4 addresses the filter blocks are exactly the block 127.0.0.0/8, the three
  private blocks 10.0.0.0/8, 172.16.0.0/12 and 192.168.0.0/16, the link-local block
  169.254.0.0/16 and the address 0.0.0.0, as ranges of 32-bit values.
\<close>

theorem is_public_ip_v4_ranges:
  "is_public_ip (V4 a b c d) \<longleftrightarrow>
     v4_value a b c d \<notin> {0} \<union> {0x0A000000 .. 0x0AFFFFFF} \<union> {0x7F000000 .. 0x7FFFFFFF}
       \<union> {0xA9FE0000 .. 0xA9FEFFFF} \<union> {0xAC100000 .. 0xAC1FFFFF} \<union> {0xC0A80000 .. 0xC0A8FFFF}"
proof -
  have eq: "x = y \<longleftrightarrow> unat x = unat y" for x y :: u8
    by (simp add: word_unat_eq_iff)
  have r10: "v4_value a b c d \<in> {0x0A000000 .. 0x0AFFFFFF} \<longleftrightarrow> a = 10"
    using v4_value_block8 [of a b c d 10] by (simp add: eq)
  have r127: "v4_value a b c d \<in> {0x7F000000 .. 0x7FFFFFFF} \<longleftrightarrow> a = 127"
    using v4_value_block8 [of a b c d 127] by (simp add: eq)
  have r169: "v4_value a b c d \<in> {0xA9FE0000 .. 0xA9FEFFFF} \<longleftrightarrow> a = 169 \<and> b = 254"
    using v4_value_block16 [of 254 254 a b c d 169] by (auto simp: eq)
  have r172: "v4_value a b c d \<in> {0xAC100000 .. 0xAC1FFFFF} \<longleftrightarrow> a = 172 \<and> 16 \<le> b \<and> b \<le> 31"
    using v4_value_block16 [of 16 31 a b c d 172] by (simp add: eq word_le_nat_alt)
  have r192: "v4_value a b c d \<in> {0xC0A80000 .. 0xC0A8FFFF} \<longleftrightarrow> a = 192 \<and> b = 168"
    using v4_value_block16 [of 168 168 a b c d 192] by (auto simp: eq)
  have zero: "v4_value a b c d \<in> {0} \<longleftrightarrow> a = 0 \<and> b = 0 \<and> c = 0 \<and> d = 0"
    by (simp add: v4_value_def unat_eq_0)
  show ?thesis
    unfolding Un_iff r10 r127 r169 r172 r192 zero is_public_ip.simps v4_class_defs by blast
qed

text \<open>
  Of the IPv6 literals the filter blocks only the loopback and unspecified addresses and
  the multicast block. Link-local (fe80::/10) and unique-local (fc00::/7) addresses and IPv4
  addresses in mapped form, the private and loopback ones included, pass.
\<close>

theorem v6_internal_ranges_pass:
  assumes len: "length gs = 8" and port: "CHR '':'' \<notin> set port"
    and internal: "gs ! 0 AND 0xFFC0 = 0xFE80 \<or> gs ! 0 AND 0xFE00 = 0xFC00 \<or>
      take 6 gs = [0, 0, 0, 0, 0, 0xFFFF]"
  shows "is_dest_allowed (''['' @ show_v6 gs @ '']:'' @ port)"
proof -
  have mapped: "gs ! 0 = 0 \<and> gs ! 5 = 0xFFFF" if "take 6 gs = [0, 0, 0, 0, 0, 0xFFFF]"
    using nth_take [of 0 6 gs] nth_take [of 5 6 gs] that by simp
  have "\<not> bit (gs ! 0) 8 \<or> \<not> bit (gs ! 0) 9"
    using internal mapped bit_mask_u16 [of "gs ! 0" "0xFFC0" "0xFE80" 8]
      bit_mask_u16 [of "gs ! 0" "0xFE00" "0xFC00" 9] by auto
  then have "gs ! 0 AND 0xFF00 \<noteq> 0xFF00"
    using bit_mask_u16 [of "gs ! 0" "0xFF00" "0xFF00" 8]
      bit_mask_u16 [of "gs ! 0" "0xFF00" "0xFF00" 9] by auto
  moreover have "gs ! 0 \<noteq> 0 \<or> gs ! 5 \<noteq> 0"
    using internal mapped by auto
  ultimately have "is_public_ip (V6 gs)" by (auto simp: v6_class_defs)
  with dest_allowed_ip [of "V6 gs" port] len port show ?thesis by simp
qed

theorem v6_internal_ranges_pass_witness:
  "is_dest_allowed (''['' @ show_v6 [0, 0, 0, 0, 0, 0xFFFF, 0x7F00, 1] @ '']:'' @ ''80'')"
  by (rule v6_internal_ranges_pass) simp_all

end
