(* ===== verification/Effects.thy ===== *)
theory Effects
  imports Session
begin

text \<open>
  What the asynchronous handlers do to the world, as lists of effects, and the relay loops that
  both ends of the tunnel run for an open stream. A handler is a function from the results of
  its awaits (an environment record or list) to the effects it performs, in order; a handler
  that still waits for something has performed a prefix.

  An effect that awaits carries the result it saw: \<open>ESendFrame f ok\<close> is
  \<open>frame_tx.send(f).await\<close> with \<open>is_ok() = ok\<close>.
\<close>

datatype effect =
    ERegistry reg_op            \<comment> \<open>an operation on the stream registry\<close>
  | EChanSend cid bytes         \<comment> \<open>the send awaited by \<open>route\<close>\<close>
  | ESendFrame frame bool       \<comment> \<open>send on the frame channel\<close>
  | EAckInsert u32 cid          \<comment> \<open>\<open>pending_acks.insert\<close>\<close>
  | EAckRecv cid "bool option"  \<comment> \<open>receive on a one-shot ack channel; \<open>None\<close>: closed or timed out\<close>
  | EAckDeliver u32 bool        \<comment> \<open>\<open>pending_acks.remove\<close> and \<open>try_send\<close>\<close>
  | EAckClear                   \<comment> \<open>\<open>pending_acks.clear\<close>\<close>
  | ETcpConnect string bool     \<comment> \<open>\<open>TcpStream::connect\<close>\<close>
  | ETcpWrite bytes bool        \<comment> \<open>\<open>write_all\<close> on the accepted connection\<close>
  | EUpWrite bytes bool         \<comment> \<open>\<open>write_all\<close> on the upstream connection\<close>
  | ESpawn u32 cid              \<comment> \<open>start of the relay tasks of a stream\<close>
  | ESpawnCopy                  \<comment> \<open>start of the copy task of a direct connection\<close>

subsection \<open>Projections\<close>

fun reg_ops_of :: "effect list \<Rightarrow> reg_op list" where
  "reg_ops_of [] = []"
| "reg_ops_of (ERegistry x # es) = x # reg_ops_of es"
| "reg_ops_of (_ # es) = reg_ops_of es"

fun frames_of :: "effect list \<Rightarrow> frame list" where
  "frames_of [] = []"
| "frames_of (ESendFrame f ok # es) = (if ok then f # frames_of es else frames_of es)"
| "frames_of (_ # es) = frames_of es"

fun tcp_written :: "effect list \<Rightarrow> bytes" where
  "tcp_written [] = []"
| "tcp_written (ETcpWrite bs ok # es) = (if ok then bs @ tcp_written es else tcp_written es)"
| "tcp_written (_ # es) = tcp_written es"

lemma reg_ops_of_append [simp]: "reg_ops_of (xs @ ys) = reg_ops_of xs @ reg_ops_of ys"
  by (induction xs rule: reg_ops_of.induct) auto

lemma frames_of_append [simp]: "frames_of (xs @ ys) = frames_of xs @ frames_of ys"
  by (induction xs rule: frames_of.induct) auto

lemma tcp_written_append [simp]: "tcp_written (xs @ ys) = tcp_written xs @ tcp_written ys"
  by (induction xs rule: tcp_written.induct) auto

fun up_written :: "effect list \<Rightarrow> bytes" where
  "up_written [] = []"
| "up_written (EUpWrite bs ok # es) = (if ok then bs @ up_written es else up_written es)"
| "up_written (_ # es) = up_written es"

lemma up_written_append [simp]: "up_written (xs @ ys) = up_written xs @ up_written ys"
  by (induction xs rule: up_written.induct) auto

subsection \<open>The relay loops\<close>

text \<open>\<open>TcpStream::read\<close>: \<open>Ok(n)\<close> with the bytes read (none at the end of input) or an error.\<close>

datatype read_result = ReadOk bytes | ReadErr

text \<open>
  The tail of every relay: CLOSE is sent, whatever the result, and the stream is unregistered.
  \<open>close_ok\<close> is the result of that send.
\<close>

definition relay_finish :: "u32 \<Rightarrow> bool \<Rightarrow> effect list" where
  "relay_finish i close_ok = [ESendFrame (Close i) close_ok, ERegistry (CloseOp i)]"

text \<open>
  TCP reader to DATA frames: each read comes with the result of sending its frame. When the
  results run out, the loop waits in \<open>read\<close>.
\<close>

fun relay_reader :: "u32 \<Rightarrow> bool \<Rightarrow> (read_result \<times> bool) list \<Rightarrow> effect list" where
  "relay_reader i close_ok [] = []"
| "relay_reader i close_ok ((ReadErr, _) # rs) = relay_finish i close_ok"
| "relay_reader i close_ok ((ReadOk bs, send_ok) # rs) =
     (if bs = [] then relay_finish i close_ok
      else ESendFrame (Data i bs) send_ok #
        (if send_ok then relay_reader i close_ok rs else relay_finish i close_ok))"

text \<open>
  DATA channel to TCP writer: each received value comes with the result of \<open>write_all\<close>;
  \<open>None\<close> is the closed channel. The result is the list of writes.
\<close>

fun relay_writer :: "(bytes option \<times> bool) list \<Rightarrow> effect list" where
  "relay_writer [] = []"
| "relay_writer ((None, _) # rs) = []"
| "relay_writer ((Some data, write_ok) # rs) =
     ETcpWrite data write_ok # (if write_ok then relay_writer rs else [])"

text \<open>
  The copy loop of a direct connection: each read comes with the result of writing it to the
  other side, by \<open>write\<close>.
\<close>

fun copy_loop :: "(bytes \<Rightarrow> bool \<Rightarrow> effect) \<Rightarrow> (read_result \<times> bool) list \<Rightarrow> effect list" where
  "copy_loop write [] = []"
| "copy_loop write ((ReadErr, _) # rs) = []"
| "copy_loop write ((ReadOk bs, write_ok) # rs) =
     (if bs = [] then [] else write bs write_ok # (if write_ok then copy_loop write rs else []))"

text \<open>A relay that ends has a read that ends it: end of input, an error, or a failed send.\<close>

fun relay_ends :: "(read_result \<times> bool) list \<Rightarrow> bool" where
  "relay_ends [] = False"
| "relay_ends ((ReadErr, _) # rs) = True"
| "relay_ends ((ReadOk bs, send_ok) # rs) = (bs = [] \<or> \<not> send_ok \<or> relay_ends rs)"

text \<open>The bytes read before the loop ends.\<close>

fun relay_input :: "(read_result \<times> bool) list \<Rightarrow> bytes" where
  "relay_input [] = []"
| "relay_input ((ReadErr, _) # rs) = []"
| "relay_input ((ReadOk bs, send_ok) # rs) =
     (if bs = [] \<or> \<not> send_ok then [] else bs @ relay_input rs)"

fun data_bytes :: "u32 \<Rightarrow> frame list \<Rightarrow> bytes" where
  "data_bytes i [] = []"
| "data_bytes i (Data j bs # fs) = (if i = j then bs @ data_bytes i fs else data_bytes i fs)"
| "data_bytes i (_ # fs) = data_bytes i fs"

lemma data_bytes_append [simp]: "data_bytes i (xs @ ys) = data_bytes i xs @ data_bytes i ys"
  by (induction i xs rule: data_bytes.induct) auto

lemma relay_reader_frames:
  "frames_of (relay_reader i close_ok rs) =
     map (Data i) (filter (\<lambda>bs. bs \<noteq> []) (map (\<lambda>r. case r of (ReadOk bs, _) \<Rightarrow> bs | _ \<Rightarrow> [])
       (takeWhile (\<lambda>r. \<not> relay_ends [r]) rs)))
     @ (if relay_ends rs \<and> close_ok then [Close i] else [])"
  by (induction i close_ok rs rule: relay_reader.induct) (auto simp: relay_finish_def)

lemma relay_reader_bytes: "data_bytes i (frames_of (relay_reader i close_ok rs)) = relay_input rs"
  by (induction i close_ok rs rule: relay_reader.induct) (auto simp: relay_finish_def)

lemma relay_reader_ops:
  "reg_ops_of (relay_reader i close_ok rs) = (if relay_ends rs then [CloseOp i] else [])"
  by (induction i close_ok rs rule: relay_reader.induct) (auto simp: relay_finish_def)

lemma relay_reader_effects:
  "e \<in> set (relay_reader i close_ok rs) \<Longrightarrow>
     (\<exists>bs ok. e = ESendFrame (Data i bs) ok \<and> bs \<noteq> []) \<or> e = ESendFrame (Close i) close_ok \<or>
     e = ERegistry (CloseOp i)"
  by (induction i close_ok rs rule: relay_reader.induct)
     (auto simp: relay_finish_def split: if_splits)

lemma relay_writer_prefix:
  "\<exists>rest. concat (map (\<lambda>r. case fst r of Some d \<Rightarrow> d | None \<Rightarrow> []) rs) =
     tcp_written (relay_writer rs) @ rest"
  by (induction rs rule: relay_writer.induct) auto

lemma copy_loop_up: "up_written (copy_loop EUpWrite rs) = relay_input rs"
  and copy_loop_tcp: "tcp_written (copy_loop ETcpWrite rs) = relay_input rs"
  by (induction rs rule: relay_input.induct) auto

lemma copy_loop_silent [simp]:
  "reg_ops_of (copy_loop EUpWrite rs) = []" "frames_of (copy_loop EUpWrite rs) = []"
  "tcp_written (copy_loop EUpWrite rs) = []"
  "reg_ops_of (copy_loop ETcpWrite rs) = []" "frames_of (copy_loop ETcpWrite rs) = []"
  "up_written (copy_loop ETcpWrite rs) = []"
  by (induction rs rule: relay_input.induct) auto

lemma relay_reader_silent [simp]:
  "tcp_written (relay_reader i close_ok rs) = []" "up_written (relay_reader i close_ok rs) = []"
  by (induction i close_ok rs rule: relay_reader.induct) (auto simp: relay_finish_def)

text \<open>The relay from the TCP reader turns exactly the bytes it read, in order, into DATA frames of
  its stream; it unregisters the stream and queues one CLOSE, after all data, exactly when the
  input ends, a read fails or a send fails.\<close>

lemma relay_reader_correct:
  "data_bytes i (frames_of (relay_reader i close_ok rs)) = relay_input rs \<and>
   reg_ops_of (relay_reader i close_ok rs) = (if relay_ends rs then [CloseOp i] else []) \<and>
   (\<exists>fs. frames_of (relay_reader i close_ok rs) =
      map (Data i) fs @ (if relay_ends rs \<and> close_ok then [Close i] else []))"
  by (intro conjI relay_reader_bytes relay_reader_ops exI) (rule relay_reader_frames)

subsection \<open>Data on its way through a reader loop\<close>

text \<open>The DATA payloads of a stream among the items of a connection.\<close>

fun payload_of :: "u32 \<Rightarrow> ws_item \<Rightarrow> bytes list" where
  "payload_of i (Some (WsBinary data)) =
     (case decode data of Inr (Data j bs) \<Rightarrow> if j = i then [bs] else [] | _ \<Rightarrow> [])"
| "payload_of i _ = []"

definition payloads :: "u32 \<Rightarrow> ws_item list \<Rightarrow> bytes list" where
  "payloads i items = concat (map (payload_of i) items)"

lemma payloads_append [simp]: "payloads i (xs @ ys) = payloads i xs @ payloads i ys"
  and payloads_single [simp]: "payloads i [x] = payload_of i x"
  by (simp_all add: payloads_def)

text \<open>The value on its way to channel \<open>c\<close>, if the reader is routing one.\<close>

fun in_flight :: "(cid \<rightharpoonup> u32) \<Rightarrow> cid \<Rightarrow> effect list \<Rightarrow> bytes list" where
  "in_flight ow c (EChanSend c' d # es) = (if c = c' then [d] else [])"
| "in_flight ow c (ERegistry (RouteOp i d) # es) = (if ow c = Some i then [d] else [])"
| "in_flight ow c _ = []"

lemma subseq_snoc_same: "subseq xs ys \<Longrightarrow> subseq (xs @ zs) (ys @ zs)"
  by (rule list_emb_append_mono) auto

end
