(* ===== verification/Server_Mux.thy ===== *)
theory Server_Mux
  imports Server_Control Server_Dest Effects
begin

text \<open>
  A mux session of the server (\<open>run_server_mux_session\<close> after authentication and
  \<open>handle_open\<close> of \<open>server/src/lib.rs\<close>): the reader loop, the opening of a stream, the relay
  tasks it spawns and the writer loop, first as functions, then as a step relation in which the
  tasks of a session interleave.
\<close>

subsection \<open>Opening a stream\<close>

text \<open>
  \<open>connects\<close> is the result of \<open>TcpStream::connect\<close>, \<open>ack_ok\<close> that of sending the OPEN\_ACK,
  and \<open>c\<close> the channel that \<open>register\<close> creates.
\<close>

definition handle_open :: "bool \<Rightarrow> bool \<Rightarrow> cid \<Rightarrow> u32 \<Rightarrow> string \<Rightarrow> effect list" where
  "handle_open connects ack_ok c i dest =
     (if \<not> is_dest_allowed dest then [ESendFrame (OpenAck i False) ack_ok]
      else if connects then
        [ETcpConnect dest True, ERegistry (RegOp i c), ESendFrame (OpenAck i True) ack_ok,
         ESpawn i c]
      else
        [ETcpConnect dest False, ERegistry (CloseOp i), ESendFrame (OpenAck i False) ack_ok])"

subsection \<open>The reader loop\<close>

text \<open>One item of the stream: the effects of its dispatch, or \<open>None\<close> when the loop breaks.\<close>

definition server_dispatch :: "bool \<Rightarrow> bool \<Rightarrow> cid \<Rightarrow> ws_item \<Rightarrow> effect list option" where
  "server_dispatch connects ack_ok c item =
     (case item of
        Some (WsBinary data) \<Rightarrow>
          Some (case decode data of
                  Inr (Open i dest) \<Rightarrow> handle_open connects ack_ok c i dest
                | Inr (Data i bs) \<Rightarrow> [ERegistry (RouteOp i bs)]
                | Inr (Close i) \<Rightarrow> [ERegistry (CloseOp i)]
                | _ \<Rightarrow> [])
      | Some (WsPing p) \<Rightarrow> Some []
      | _ \<Rightarrow> None)"

text \<open>
  The whole loop when nothing interferes: each item comes with the results of its awaits. The
  end of the list is the end of the stream; the registry is cleared when the loop is left.
\<close>

fun server_reader :: "(ws_item \<times> bool \<times> bool \<times> cid) list \<Rightarrow> effect list" where
  "server_reader [] = [ERegistry CloseAllOp]"
| "server_reader ((item, connects, ack_ok, c) # items) =
     (case server_dispatch connects ack_ok c item of
        None \<Rightarrow> [ERegistry CloseAllOp]
      | Some es \<Rightarrow> es @ server_reader items)"

text \<open>
  The writer loop: each frame taken from the channel is encoded and sent as one binary message;
  the first failed send ends the loop, and leaving it clears the registry. \<open>None\<close> is the closed
  channel. The result holds the messages handed to the socket.
\<close>

fun writer_loop :: "(frame option \<times> bool) list \<Rightarrow> ws_message list \<times> bool" where
  "writer_loop [] = ([], False)"
| "writer_loop ((None, _) # fs) = ([], True)"
| "writer_loop ((Some f, ok) # fs) =
     (let (ms, ended) = (if ok then writer_loop fs else ([], True))
      in (WsBinary (encode f) # ms, ended))"

subsection \<open>The session as a step relation\<close>

text \<open>
  State of a session: the registry, the unread input, the effects the reader still has to
  perform for the item it dispatches, whether its loop still runs, the running relay tasks with
  the effects they will perform, the frames accepted by the frame channel, whether that channel
  is still open and whether its receiver, the writer loop, still runs, the values accepted by each stream channel, the next channel number.
  Four fields record the history: the connections attempted, those that were established with the
  stream for which they were (that of the OPEN dispatched last), the ids of the OPEN frames
  dispatched, and the stream id each channel was registered for. The last field holds the stream
  channels whose receiver was dropped: the writer task of a stream drops it when it ends.
\<close>

record srv_session =
  s_reg :: registry
  s_in :: "ws_item list"
  s_todo :: "effect list"
  s_reading :: bool
  s_relays :: "(u32 \<times> effect list) list"
  s_out :: "frame list"
  s_open :: bool
  s_writing :: bool
  s_sent :: "cid \<Rightarrow> bytes list"
  s_next :: cid
  s_connects :: "string list"
  s_reached :: "(u32 \<times> string) list"
  s_opened :: "u32 list"
  s_owner :: "cid \<rightharpoonup> u32"
  s_gone :: "cid set"

definition srv_init :: "ws_item list \<Rightarrow> srv_session" where
  "srv_init items = \<lparr>s_reg = registry_new, s_in = items, s_todo = [], s_reading = True,
     s_relays = [], s_out = [], s_open = True, s_writing = True, s_sent = (\<lambda>_. []), s_next = 0,
     s_connects = [], s_reached = [], s_opened = [], s_owner = Map.empty, s_gone = {}\<rparr>"

text \<open>
  The effect of one atomic action on the shared state. A send on the frame channel returns
  \<open>Ok\<close> exactly while its receiver is there, which the task of the writer loop drops when it
  ends, after it has cleared the registry, and a send on a stream channel is accepted exactly
  while the receiver of that channel is there: \<open>eff_enabled\<close> states this contract of the channel
  library.
\<close>

fun eff_enabled :: "srv_session \<Rightarrow> effect \<Rightarrow> bool" where
  "eff_enabled s (ESendFrame f ok) = (ok = s_open s)"
| "eff_enabled s (EChanSend c d) = (c \<notin> s_gone s)"
| "eff_enabled s _ = True"

fun apply_eff :: "effect \<Rightarrow> srv_session \<Rightarrow> srv_session" where
  "apply_eff (ERegistry x) s = s\<lparr>s_reg := reg.op_step x (s_reg s),
     s_owner := (case x of RegOp i c \<Rightarrow> (s_owner s)(c \<mapsto> i) | _ \<Rightarrow> s_owner s)\<rparr>"
| "apply_eff (ESendFrame f ok) s = (if ok then s\<lparr>s_out := s_out s @ [f]\<rparr> else s)"
| "apply_eff (ETcpConnect dest ok) s = s\<lparr>s_connects := s_connects s @ [dest],
     s_reached := s_reached s @ (if ok then [(last (s_opened s), dest)] else [])\<rparr>"
| "apply_eff (EChanSend c d) s = s\<lparr>s_sent := (s_sent s)(c := s_sent s c @ [d])\<rparr>"
| "apply_eff _ s = s"

text \<open>\<open>route\<close> looks the sender up in one action and awaits the send in the next.\<close>

fun follow_up :: "srv_session \<Rightarrow> effect \<Rightarrow> effect list" where
  "follow_up s (ERegistry (RouteOp i d)) =
     (case route i d (s_reg s) of Some (c, e) \<Rightarrow> [EChanSend c e] | None \<Rightarrow> [])"
| "follow_up s _ = []"

fun is_spawn :: "effect \<Rightarrow> bool" where
  "is_spawn (ESpawn i c) = True"
| "is_spawn _ = False"

fun opens_of :: "ws_item \<Rightarrow> u32 list" where
  "opens_of (Some (WsBinary data)) = (case decode data of Inr (Open i dest) \<Rightarrow> [i] | _ \<Rightarrow> [])"
| "opens_of _ = []"

inductive srv_step :: "srv_session \<Rightarrow> srv_session \<Rightarrow> bool" where
  read_item:
    "s_reading s \<Longrightarrow> s_todo s = [] \<Longrightarrow> s_in s = item # rest \<Longrightarrow>
     server_dispatch connects ack_ok (s_next s) item = Some es \<Longrightarrow>
     srv_step s (s\<lparr>s_in := rest, s_todo := es, s_next := Suc (s_next s),
       s_opened := s_opened s @ opens_of item\<rparr>)"
| read_break:
    "s_reading s \<Longrightarrow> s_todo s = [] \<Longrightarrow>
     s_in s = [] \<or> (\<exists>item rest. s_in s = item # rest \<and> server_dispatch connects ack_ok c item = None) \<Longrightarrow>
     srv_step s (s\<lparr>s_reading := False, s_todo := [ERegistry CloseAllOp]\<rparr>)"
| reader_eff:
    "s_todo s = e # es \<Longrightarrow> eff_enabled s e \<Longrightarrow> \<not> is_spawn e \<Longrightarrow>
     srv_step s ((apply_eff e s)\<lparr>s_todo := follow_up s e @ es\<rparr>)"
| reader_send_dropped:
    "s_todo s = EChanSend c d # es \<Longrightarrow> c \<in> s_gone s \<Longrightarrow> srv_step s (s\<lparr>s_todo := es\<rparr>)"
| receiver_drop:
    "srv_step s (s\<lparr>s_gone := insert c (s_gone s)\<rparr>)"
| reader_spawn:
    "s_todo s = ESpawn i c # es \<Longrightarrow>
     srv_step s (s\<lparr>s_todo := es, s_relays := s_relays s @ [(i, relay_reader i close_ok rs)]\<rparr>)"
| relay_eff:
    "s_relays s = xs @ (i, e # es) # ys \<Longrightarrow> eff_enabled s e \<Longrightarrow>
     srv_step s ((apply_eff e s)\<lparr>s_relays := xs @ (i, es) # ys\<rparr>)"
| writer_break:
    "s_writing s \<Longrightarrow> srv_step s (s\<lparr>s_writing := False, s_reg := close_all (s_reg s)\<rparr>)"
| writer_drop:
    "\<not> s_writing s \<Longrightarrow> srv_step s (s\<lparr>s_open := False\<rparr>)"

inductive srv_reachable :: "ws_item list \<Rightarrow> srv_session \<Rightarrow> bool" for items where
  start: "srv_reachable items (srv_init items)"
| step: "srv_reachable items s \<Longrightarrow> srv_step s t \<Longrightarrow> srv_reachable items t"


subsection \<open>What a session keeps\<close>

text \<open>The streams whose opening was acknowledged; once the frame channel is closed nothing is sent.\<close>

definition acked :: "srv_session \<Rightarrow> u32 set" where
  "acked s = (if s_open s then {i. OpenAck i True \<in> set (s_out s)} else UNIV)"

text \<open>
  The pending effects of the reader: connections go to allowed destinations, the frames are
  acknowledgements, and a relay is only spawned after its stream was acknowledged.
\<close>

fun todo_ok :: "u32 set \<Rightarrow> effect list \<Rightarrow> bool" where
  "todo_ok A [] = True"
| "todo_ok A (ESpawn i c # es) = (i \<in> A \<and> todo_ok A es)"
| "todo_ok A (ESendFrame f ok # es) =
     ((\<exists>i b. f = OpenAck i b) \<and> todo_ok (A \<union> {i. f = OpenAck i True}) es)"
| "todo_ok A (ETcpConnect dest ok # es) = (is_dest_allowed dest \<and> todo_ok A es)"
| "todo_ok A (_ # es) = todo_ok A es"

fun relay_effect :: "u32 \<Rightarrow> effect \<Rightarrow> bool" where
  "relay_effect i (ESendFrame f ok) = ((\<exists>bs. f = Data i bs) \<or> f = Close i)"
| "relay_effect i (ERegistry x) = (x = CloseOp i)"
| "relay_effect i _ = False"

definition stream_of_relay_frame :: "frame \<Rightarrow> u32 option" where
  "stream_of_relay_frame f = (case f of Data i bs \<Rightarrow> Some i | Close i \<Rightarrow> Some i | _ \<Rightarrow> None)"

definition data_after_ack :: "frame list \<Rightarrow> bool" where
  "data_after_ack out \<longleftrightarrow>
     (\<forall>n i. n < length out \<longrightarrow> stream_of_relay_frame (out ! n) = Some i \<longrightarrow>
        OpenAck i True \<in> set (take n out))"

definition relays_ok :: "u32 set \<Rightarrow> (u32 \<times> effect list) list \<Rightarrow> bool" where
  "relays_ok A rs \<longleftrightarrow> list_all (\<lambda>(i, es). i \<in> A \<and> list_all (relay_effect i) es) rs"

lemma relays_ok_simps [simp]:
  "relays_ok A []"
  "relays_ok A ((i, es) # rs) \<longleftrightarrow> i \<in> A \<and> list_all (relay_effect i) es \<and> relays_ok A rs"
  "relays_ok A (xs @ ys) \<longleftrightarrow> relays_ok A xs \<and> relays_ok A ys"
  by (auto simp: relays_ok_def)

lemma relays_ok_mono: "relays_ok A rs \<Longrightarrow> A \<subseteq> B \<Longrightarrow> relays_ok B rs"
  by (auto simp: relays_ok_def list_all_iff)

definition srv_inv :: "srv_session \<Rightarrow> bool" where
  "srv_inv s \<longleftrightarrow>
     todo_ok (acked s) (s_todo s) \<and>
     relays_ok (acked s) (s_relays s) \<and>
     data_after_ack (s_out s) \<and>
     list_all is_dest_allowed (s_connects s)"

lemma todo_ok_mono: "todo_ok A es \<Longrightarrow> A \<subseteq> B \<Longrightarrow> todo_ok B es"
proof (induction A es arbitrary: B rule: todo_ok.induct)
  case (3 A f ok es)
  from "3.prems" "3.IH" [of "B \<union> {i. f = OpenAck i True}"] show ?case by auto
qed auto

lemma data_after_ack_snoc:
  "data_after_ack (out @ [f]) \<longleftrightarrow>
     data_after_ack out \<and> (\<forall>i. stream_of_relay_frame f = Some i \<longrightarrow> OpenAck i True \<in> set out)"
  by (auto simp: data_after_ack_def nth_append less_Suc_eq)

lemma server_dispatch_todo_ok: "server_dispatch connects ack_ok c item = Some es \<Longrightarrow> todo_ok A es"
  by (auto simp: server_dispatch_def handle_open_def split: option.splits ws_message.splits
      sum.splits frame.splits)

lemma follow_up_todo_ok: "todo_ok A (follow_up s e @ es) \<longleftrightarrow> todo_ok A es"
  by (cases "(s, e)" rule: follow_up.cases) (auto split: option.split)

lemma relay_reader_relay_effect: "list_all (relay_effect i) (relay_reader i close_ok rs)"
  by (auto simp: list_all_iff dest: relay_reader_effects)

lemma acked_mono_eff:
  "eff_enabled s e \<Longrightarrow> acked s \<subseteq> acked (apply_eff e s)"
  by (cases e) (auto simp: acked_def)

lemma apply_eff_simps [simp]:
  "s_open (apply_eff e s) = s_open s"
  "s_relays (apply_eff e s) = s_relays s"
  "s_todo (apply_eff e s) = s_todo s"
  "s_in (apply_eff e s) = s_in s"
  "s_reading (apply_eff e s) = s_reading s"
  "s_next (apply_eff e s) = s_next s"
  "s_opened (apply_eff e s) = s_opened s"
  "s_gone (apply_eff e s) = s_gone s"
  by (cases e; simp)+

lemma acked_update [simp]:
  "acked (s\<lparr>s_todo := t\<rparr>) = acked s"
  "acked (s\<lparr>s_relays := r\<rparr>) = acked s"
  "acked (s\<lparr>s_in := x\<rparr>) = acked s"
  "acked (s\<lparr>s_next := n\<rparr>) = acked s"
  "acked (s\<lparr>s_opened := ops\<rparr>) = acked s"
  "acked (s\<lparr>s_reading := b\<rparr>) = acked s"
  "acked (s\<lparr>s_reg := g\<rparr>) = acked s"
  "acked (s\<lparr>s_writing := w\<rparr>) = acked s"
  "acked (s\<lparr>s_gone := g'\<rparr>) = acked s"
  "acked (s\<lparr>s_open := False\<rparr>) = UNIV"
  by (auto simp: acked_def)

lemma data_after_ack_apply:
  assumes "data_after_ack (s_out s)" "eff_enabled s e"
    and "\<And>f ok i. e = ESendFrame f ok \<Longrightarrow> stream_of_relay_frame f = Some i \<Longrightarrow> i \<in> acked s"
  shows "data_after_ack (s_out (apply_eff e s))"
  using assms by (cases e) (auto simp: data_after_ack_snoc acked_def)

lemma todo_ok_apply:
  assumes "eff_enabled s e" "todo_ok (acked s) (e # es)"
  shows "todo_ok (acked (apply_eff e s)) es"
proof (cases e)
  case (ESendFrame f ok)
  have "acked s \<union> {i. f = OpenAck i True} \<subseteq> acked (apply_eff e s)"
    using assms(1) ESendFrame by (auto simp: acked_def)
  with assms(2) ESendFrame show ?thesis
    using todo_ok_mono [of "acked s \<union> {i. f = OpenAck i True}" es "acked (apply_eff e s)"] by simp
qed (use assms todo_ok_mono [OF _ acked_mono_eff [OF assms(1)], of es] in auto)

lemma connects_apply:
  "list_all is_dest_allowed (s_connects s) \<Longrightarrow> todo_ok A (e # es) \<or> relay_effect i e \<Longrightarrow>
     list_all is_dest_allowed (s_connects (apply_eff e s))"
  by (cases e) auto

lemma srv_step_inv: "srv_step s t \<Longrightarrow> srv_inv s \<Longrightarrow> srv_inv t"
proof (induction rule: srv_step.induct)
  case (read_item s item rest connects ack_ok es)
  then show ?case
    by (auto simp: srv_inv_def dest: server_dispatch_todo_ok)
next
  case (read_break s connects ack_ok c)
  then show ?case by (simp add: srv_inv_def)
next
  case (reader_eff s e es)
  then have todo: "todo_ok (acked s) (e # es)" by (simp add: srv_inv_def)
  then have "data_after_ack (s_out (apply_eff e s))"
    using reader_eff by (intro data_after_ack_apply)
      (auto simp: srv_inv_def stream_of_relay_frame_def)
  then show ?case
    using reader_eff todo_ok_apply [OF reader_eff(2) todo] connects_apply [OF _ disjI1 [OF todo]]
      relays_ok_mono [OF _ acked_mono_eff [OF reader_eff(2)]]
    by (simp add: srv_inv_def follow_up_todo_ok)
next
  case (reader_send_dropped s c d es)
  then show ?case by (simp add: srv_inv_def)
next
  case (receiver_drop s c)
  then show ?case by (simp add: srv_inv_def)
next
  case (reader_spawn s i c es close_ok rs)
  then show ?case by (auto simp: srv_inv_def relay_reader_relay_effect)
next
  case (relay_eff s xs i e es ys)
  then have rel: "relay_effect i e" "i \<in> acked s" by (auto simp: srv_inv_def)
  then have "data_after_ack (s_out (apply_eff e s))"
    using relay_eff by (intro data_after_ack_apply)
      (auto simp: srv_inv_def stream_of_relay_frame_def)
  moreover have "todo_ok (acked (apply_eff e s)) (s_todo s)"
    using relay_eff acked_mono_eff [OF relay_eff(2)]
    by (auto simp: srv_inv_def intro: todo_ok_mono)
  ultimately show ?case
    using relay_eff connects_apply [OF _ disjI2 [OF rel(1)]]
      relays_ok_mono [OF _ acked_mono_eff [OF relay_eff(2)]] rel acked_mono_eff [OF relay_eff(2)]
    by (auto simp: srv_inv_def)
next
  case (writer_break s)
  then show ?case by (auto simp: srv_inv_def)
next
  case (writer_drop s)
  then show ?case by (auto simp: srv_inv_def intro: todo_ok_mono relays_ok_mono)
qed

lemma srv_reachable_inv: "srv_reachable items s \<Longrightarrow> srv_inv s"
proof (induction rule: srv_reachable.induct)
  case start
  show ?case by (simp add: srv_inv_def srv_init_def data_after_ack_def)
next
  case (step s t)
  then show ?case by (blast intro: srv_step_inv)
qed


subsection \<open>One acknowledgement per OPEN\<close>

fun is_ack :: "u32 \<Rightarrow> frame \<Rightarrow> bool" where
  "is_ack i (OpenAck j b) = (i = j)"
| "is_ack i _ = False"

definition acks_in :: "u32 \<Rightarrow> frame list \<Rightarrow> nat" where
  "acks_in i fs = length (filter (is_ack i) fs)"

fun todo_acks :: "u32 \<Rightarrow> effect list \<Rightarrow> nat" where
  "todo_acks i [] = 0"
| "todo_acks i (ESendFrame f ok # es) = of_bool (is_ack i f) + todo_acks i es"
| "todo_acks i (_ # es) = todo_acks i es"

definition ack_inv :: "u32 \<Rightarrow> srv_session \<Rightarrow> bool" where
  "ack_inv i s \<longleftrightarrow>
     acks_in i (s_out s) + todo_acks i (s_todo s) \<le> count_list (s_opened s) i \<and>
     (s_open s \<longrightarrow> acks_in i (s_out s) + todo_acks i (s_todo s) = count_list (s_opened s) i)"

lemma acks_in_simps [simp]:
  "acks_in i [] = 0"
  "acks_in i (fs @ gs) = acks_in i fs + acks_in i gs"
  "acks_in i [f] = of_bool (is_ack i f)"
  by (simp_all add: acks_in_def)

lemma count_list_append [simp]: "count_list (xs @ ys) x = count_list xs x + count_list ys x"
  by (induction xs) auto

lemma dispatch_acks:
  "server_dispatch connects ack_ok c item = Some es \<Longrightarrow> todo_acks i es = count_list (opens_of item) i"
  by (auto simp: server_dispatch_def handle_open_def split: option.splits ws_message.splits
      sum.splits frame.splits)

lemma follow_up_acks [simp]: "todo_acks i (follow_up s e @ es) = todo_acks i es"
  by (cases "(s, e)" rule: follow_up.cases) (auto split: option.split)

lemma apply_eff_acks:
  "eff_enabled s e \<Longrightarrow>
     acks_in i (s_out (apply_eff e s)) = acks_in i (s_out s) + (if s_open s then todo_acks i [e] else 0)"
  by (cases e) auto

lemma todo_acks_Cons: "todo_acks i (e # es) = todo_acks i [e] + todo_acks i es"
  by (cases e) auto

lemma relay_effect_acks: "relay_effect j e \<Longrightarrow> todo_acks i [e] = 0"
  by (cases e) auto

lemma srv_step_ack: "srv_step s t \<Longrightarrow> srv_inv s \<Longrightarrow> ack_inv i s \<Longrightarrow> ack_inv i t"
proof (induction rule: srv_step.induct)
  case (read_item s item rest connects ack_ok es)
  then show ?case by (simp add: ack_inv_def dispatch_acks)
next
  case (reader_eff s e es)
  then show ?case
    using todo_acks_Cons [of i e es] by (auto simp: ack_inv_def apply_eff_acks)
next
  case (relay_eff s xs j e es ys)
  then have "todo_acks i [e] = 0" by (auto simp: srv_inv_def intro: relay_effect_acks)
  with relay_eff show ?case by (auto simp: ack_inv_def apply_eff_acks)
qed (auto simp: ack_inv_def)

lemma srv_reachable_ack: "srv_reachable items s \<Longrightarrow> ack_inv i s"
proof (induction rule: srv_reachable.induct)
  case start
  show ?case by (simp add: ack_inv_def srv_init_def)
next
  case (step s t)
  then show ?case by (blast intro: srv_step_ack srv_reachable_inv)
qed

subsection \<open>Data reaches its own stream, in order\<close>

text \<open>
  The shapes of the reader's pending effects: a DATA frame being routed, or effects none of
  which routes and which register fresh channels only.
\<close>

fun plain_eff :: "srv_session \<Rightarrow> effect \<Rightarrow> bool" where
  "plain_eff s (EChanSend c d) = False"
| "plain_eff s (ERegistry (RouteOp i d)) = False"
| "plain_eff s (ERegistry (RegOp i c)) = (s_owner s c = None \<and> c < s_next s)"
| "plain_eff s _ = True"

fun reg_count :: "effect list \<Rightarrow> nat" where
  "reg_count [] = 0"
| "reg_count (ERegistry (RegOp i c) # es) = Suc (reg_count es)"
| "reg_count (_ # es) = reg_count es"

definition todo_shape :: "srv_session \<Rightarrow> bool" where
  "todo_shape s \<longleftrightarrow>
     (\<exists>i d. s_todo s = [ERegistry (RouteOp i d)]) \<or>
     (\<exists>c d. s_todo s = [EChanSend c d] \<and> s_owner s c \<noteq> None) \<or>
     list_all (plain_eff s) (s_todo s) \<and> reg_count (s_todo s) \<le> 1"


definition data_inv :: "ws_item list \<Rightarrow> srv_session \<Rightarrow> bool" where
  "data_inv consumed s \<longleftrightarrow>
     (\<forall>i c. inner (s_reg s) i = Some c \<longrightarrow> s_owner s c = Some i) \<and>
     (\<forall>c. s_owner s c = None \<longrightarrow> s_sent s c = []) \<and>
     (\<forall>c. s_next s \<le> c \<longrightarrow> s_owner s c = None) \<and>
     todo_shape s \<and>
     (\<forall>c i. s_owner s c = Some i \<longrightarrow>
        subseq (s_sent s c @ in_flight (s_owner s) c (s_todo s)) (payloads i consumed))"

lemma dispatch_cases:
  assumes "server_dispatch connects ack_ok n item = Some es"
  obtains (routes) i d where "es = [ERegistry (RouteOp i d)]"
      "\<And>j. payload_of j item = (if j = i then [d] else [])"
  | (plain) "\<And>j. payload_of j item = []"
      "\<And>s. s_next s = Suc n \<Longrightarrow> s_owner s n = None \<Longrightarrow> list_all (plain_eff s) es"
      "reg_count es \<le> 1"
  using assms
  by (auto simp: server_dispatch_def handle_open_def split: option.splits ws_message.splits
      sum.splits frame.splits)

lemma in_flight_plain: "list_all (plain_eff s) es \<Longrightarrow> in_flight ow c es = []"
  by (cases "(ow, c, es)" rule: in_flight.cases) auto

lemma data_inv_read:
  assumes "data_inv consumed s" "s_todo s = []"
    and "server_dispatch connects ack_ok (s_next s) item = Some es"
  shows "data_inv (consumed @ [item]) (s\<lparr>s_in := rest, s_todo := es,
     s_next := Suc (s_next s), s_opened := ops\<rparr>)"
  using assms(3)
proof (cases rule: dispatch_cases)
  case (routes i d)
  with assms(1,2) show ?thesis
    by (auto simp: data_inv_def todo_shape_def intro: subseq_snoc_same)
next
  case plain
  let ?t = "s\<lparr>s_in := rest, s_todo := es, s_next := Suc (s_next s), s_opened := ops\<rparr>"
  have "list_all (plain_eff ?t) es"
    using assms(1) by (intro plain(2)) (auto simp: data_inv_def)
  with assms(1,2) plain(1,3) show ?thesis
    by (auto simp: data_inv_def todo_shape_def in_flight_plain [of ?t])
qed

lemma plain_eff_cong:
  "s_owner s = s_owner t \<Longrightarrow> s_next s = s_next t \<Longrightarrow> plain_eff s = plain_eff t"
proof
  fix e assume "s_owner s = s_owner t" "s_next s = s_next t"
  then show "plain_eff s e = plain_eff t e"
    by (cases "(s, e)" rule: plain_eff.cases) auto
qed

lemma todo_shape_cong:
  "s_owner s = s_owner t \<Longrightarrow> s_next s = s_next t \<Longrightarrow> s_todo s = s_todo t \<Longrightarrow>
     todo_shape s = todo_shape t"
  using plain_eff_cong [of s t] by (simp add: todo_shape_def)

lemma data_inv_flight:
  "data_inv consumed s \<Longrightarrow> s_owner s c = Some k \<Longrightarrow>
     subseq (s_sent s c @ in_flight (s_owner s) c (s_todo s)) (payloads k consumed)"
  by (simp add: data_inv_def)

lemma data_inv_sent:
  assumes "data_inv consumed s" "s_owner s c = Some k"
  shows "subseq (s_sent s c) (payloads k consumed)"
proof -
  have "subseq (s_sent s c) (s_sent s c @ in_flight (s_owner s) c (s_todo s))"
    by (simp add: prefix_imp_subseq)
  with data_inv_flight [OF assms] show ?thesis by (metis subseq_order.trans)
qed

text \<open>The invariant does not depend on the other fields and survives a shrinking registry.\<close>

lemma data_inv_shrink:
  assumes "data_inv consumed s"
    and "s_owner t = s_owner s" "s_sent t = s_sent s" "s_next t = s_next s" "s_todo t = s_todo s"
    and "\<And>i c. inner (s_reg t) i = Some c \<Longrightarrow> inner (s_reg s) i = Some c"
  shows "data_inv consumed t"
  using assms todo_shape_cong [of t s] by (auto simp: data_inv_def)

lemma close_shrinks:
  "inner (close_stream j r) i = Some c \<Longrightarrow> inner r i = Some c"
  "inner (close_all r) i = Some c \<Longrightarrow> inner r i = Some c"
  by (auto simp: registry_defs split: if_splits)

lemma data_inv_relay:
  assumes "data_inv consumed s" "relay_effect j e"
  shows "data_inv consumed ((apply_eff e s)\<lparr>s_relays := r\<rparr>)"
  using assms(2)
  by (cases e) (auto intro!: data_inv_shrink [OF assms(1)] dest: close_shrinks)

text \<open>Leaving the routing of a value, or any pending effects, early.\<close>

lemma data_inv_drop: "data_inv consumed s \<Longrightarrow> data_inv consumed (s\<lparr>s_todo := []\<rparr>)"
  using data_inv_sent [of consumed s] by (auto simp: data_inv_def todo_shape_def)

lemma data_inv_route:
  assumes "data_inv consumed s" "s_todo s = [ERegistry (RouteOp i d)]"
  shows "data_inv consumed (s\<lparr>s_todo := follow_up s (ERegistry (RouteOp i d))\<rparr>)"
proof (cases "inner (s_reg s) i")
  case None
  then show ?thesis using data_inv_drop [OF assms(1)] by (simp add: route_def)
next
  case (Some c)
  then have ow: "s_owner s c = Some i" using assms(1) by (auto simp: data_inv_def)
  then have "subseq (s_sent s c @ [d]) (payloads i consumed)"
    using data_inv_flight [OF assms(1) ow] assms(2) by simp
  with Some ow show ?thesis
    using assms data_inv_sent [OF assms(1)]
    by (auto simp: data_inv_def route_def todo_shape_def)
qed

lemma data_inv_chan_send:
  assumes "data_inv consumed s" "s_todo s = [EChanSend c d]"
  shows "data_inv consumed (s\<lparr>s_sent := (s_sent s)(c := s_sent s c @ [d]), s_todo := []\<rparr>)"
proof -
  obtain k where k: "s_owner s c = Some k"
    using assms by (auto simp: data_inv_def todo_shape_def)
  with assms data_inv_sent [OF assms(1)] data_inv_flight [OF assms(1) k] show ?thesis
    by (auto simp: data_inv_def todo_shape_def)
qed

lemma reg_count_Cons: "reg_count es \<le> reg_count (e # es)"
  by (cases "e # es" rule: reg_count.cases) auto

lemma data_inv_pop:
  assumes "data_inv consumed s" "list_all (plain_eff s) es" "reg_count es \<le> 1"
  shows "data_inv consumed (s\<lparr>s_todo := es\<rparr>)"
  using assms data_inv_sent [OF assms(1)] in_flight_plain [OF assms(2)]
    plain_eff_cong [of "s\<lparr>s_todo := es\<rparr>" s]
  by (simp add: data_inv_def todo_shape_def)

lemma plain_eff_no_reg:
  "reg_count es = 0 \<Longrightarrow> list_all (plain_eff s) es \<Longrightarrow> list_all (plain_eff t) es"
  by (induction es rule: reg_count.induct) (auto split: reg_op.splits)

lemma data_inv_register:
  assumes inv: "data_inv consumed s" and fresh: "s_owner s c = None" "c < s_next s"
    and rest: "list_all (plain_eff s) es" "reg_count es = 0"
  shows "data_inv consumed ((apply_eff (ERegistry (RegOp i c)) s)\<lparr>s_todo := es\<rparr>)"
proof -
  let ?t = "(apply_eff (ERegistry (RegOp i c)) s)\<lparr>s_todo := es\<rparr>"
  have "list_all (plain_eff ?t) es"
    using rest(2,1) by (rule plain_eff_no_reg)
  moreover have "inner (s_reg s) j \<noteq> Some c" for j
    using inv fresh by (auto simp: data_inv_def)
  ultimately show ?thesis
    using inv fresh rest data_inv_sent [OF inv] in_flight_plain [of ?t es]
    by (auto simp: data_inv_def todo_shape_def registry_defs)
qed

lemma data_inv_plain:
  assumes inv: "data_inv consumed s" and todo: "s_todo s = e # es"
    and plain: "list_all (plain_eff s) (e # es)" and one: "reg_count (e # es) \<le> 1"
  shows "data_inv consumed ((apply_eff e s)\<lparr>s_todo := es\<rparr>)"
proof (cases "\<exists>i c. e = ERegistry (RegOp i c)")
  case True
  with assms show ?thesis by (auto simp del: apply_eff.simps intro!: data_inv_register)
next
  case False
  have pop: "data_inv consumed (s\<lparr>s_todo := es\<rparr>)"
    using inv plain one reg_count_Cons [of es e] by (intro data_inv_pop) auto
  show ?thesis
    using plain False
    by (cases "(s, e)" rule: plain_eff.cases)
       (auto intro!: data_inv_shrink [OF pop] dest: close_shrinks split: reg_op.splits)
qed


lemma data_inv_reader_eff:
  assumes inv: "data_inv consumed s" and todo: "s_todo s = e # es"
  shows "data_inv consumed ((apply_eff e s)\<lparr>s_todo := follow_up s e @ es\<rparr>)"
proof -
  from inv have "todo_shape s" by (simp add: data_inv_def)
  with todo consider (route) i d where "e = ERegistry (RouteOp i d)" "es = []"
    | (chan) c d where "e = EChanSend c d" "es = []"
    | (plain) "list_all (plain_eff s) (e # es)" "reg_count (e # es) \<le> 1"
    by (auto simp: todo_shape_def)
  then show ?thesis
  proof cases
    case route
    with data_inv_route [OF inv] todo show ?thesis by simp
  next
    case chan
    with data_inv_chan_send [OF inv] todo show ?thesis by simp
  next
    case plain
    then have "follow_up s e = []"
      by (cases "(s, e)" rule: follow_up.cases) auto
    with data_inv_plain [OF inv todo plain] show ?thesis by simp
  qed
qed

lemma srv_step_data:
  "srv_step s t \<Longrightarrow> srv_inv s \<Longrightarrow> items = consumed @ s_in s \<Longrightarrow> data_inv consumed s \<Longrightarrow>
     \<exists>consumed'. items = consumed' @ s_in t \<and> data_inv consumed' t"
proof (induction rule: srv_step.induct)
  case (read_item s item rest connects ack_ok es)
  then have "data_inv (consumed @ [item]) (s\<lparr>s_in := rest, s_todo := es,
      s_next := Suc (s_next s), s_opened := s_opened s @ opens_of item\<rparr>)"
    by (intro data_inv_read)
  with read_item show ?case by (intro exI [of _ "consumed @ [item]"]) simp
next
  case (read_break s connects ack_ok c)
  then have "data_inv consumed (s\<lparr>s_todo := [ERegistry CloseAllOp]\<rparr>)"
    by (intro data_inv_pop) auto
  with read_break show ?case
    by (intro exI [of _ consumed])
       (auto intro: data_inv_shrink [where s = "s\<lparr>s_todo := [ERegistry CloseAllOp]\<rparr>"])
next
  case (reader_eff s e es)
  then show ?case by (auto intro!: exI [of _ consumed] data_inv_reader_eff)
next
  case (reader_send_dropped s c d es)
  then have "es = []" by (auto simp: data_inv_def todo_shape_def)
  with reader_send_dropped show ?case by (auto intro!: exI [of _ consumed] data_inv_drop)
next
  case (receiver_drop s c)
  then show ?case
    by (intro exI [of _ consumed]) (auto intro!: data_inv_shrink [of consumed s])
next
  case (reader_spawn s i c es close_ok rs)
  then have "data_inv consumed (s\<lparr>s_todo := es\<rparr>)"
    by (intro data_inv_pop) (auto simp: data_inv_def todo_shape_def)
  with reader_spawn show ?case
    by (intro exI [of _ consumed]) (auto intro: data_inv_shrink [where s = "s\<lparr>s_todo := es\<rparr>"])
next
  case (relay_eff s xs i e es ys)
  then have "relay_effect i e" by (auto simp: srv_inv_def)
  with relay_eff show ?case by (auto intro!: exI [of _ consumed] data_inv_relay)
next
  case (writer_break s)
  then show ?case
    by (intro exI [of _ consumed]) (auto intro!: data_inv_shrink [of consumed s] dest: close_shrinks)
next
  case (writer_drop s)
  then show ?case
    by (intro exI [of _ consumed]) (auto intro!: data_inv_shrink [of consumed s])
qed

lemma srv_reachable_data:
  "srv_reachable items s \<Longrightarrow> \<exists>consumed. items = consumed @ s_in s \<and> data_inv consumed s"
proof (induction rule: srv_reachable.induct)
  case start
  show ?case
    by (auto simp: srv_init_def data_inv_def todo_shape_def registry_new_def)
next
  case (step s t)
  then show ?case using srv_step_data [OF step(2) srv_reachable_inv [OF step(1)]] by blast
qed


subsection \<open>Connections are requested\<close>

text \<open>Every destination a session connects to, or is about to, was named by an OPEN it received.\<close>

fun connect_dests :: "effect list \<Rightarrow> string set" where
  "connect_dests [] = {}"
| "connect_dests (ETcpConnect d ok # es) = insert d (connect_dests es)"
| "connect_dests (_ # es) = connect_dests es"

definition requested :: "ws_item list \<Rightarrow> string set" where
  "requested items = {dest. \<exists>data j. Some (WsBinary data) \<in> set items \<and> decode data = Inr (Open j dest)}"

lemma dispatch_requested:
  "server_dispatch connects ack_ok c item = Some es \<Longrightarrow> connect_dests es \<subseteq> requested [item]"
  by (auto simp: server_dispatch_def handle_open_def requested_def split: option.splits
      ws_message.splits sum.splits frame.splits if_splits)

lemma connect_dests_follow_up [simp]: "connect_dests (follow_up s e @ es) = connect_dests es"
  by (cases "(s, e)" rule: follow_up.cases) (auto split: option.split)

lemma connects_apply_subset:
  "set (s_connects (apply_eff e s)) \<subseteq> set (s_connects s) \<union> connect_dests [e]"
  by (cases e) auto

lemma connect_dests_Cons: "connect_dests (e # es) = connect_dests [e] \<union> connect_dests es"
  by (cases e) auto

lemma relay_effect_dests: "relay_effect i e \<Longrightarrow> connect_dests [e] = {}"
  by (cases e) auto

lemma srv_step_requested:
  "srv_step s t \<Longrightarrow> srv_inv s \<Longrightarrow> set (s_in s) \<subseteq> set items \<Longrightarrow>
     set (s_connects s) \<union> connect_dests (s_todo s) \<subseteq> requested items \<Longrightarrow>
     set (s_in t) \<subseteq> set items \<and> set (s_connects t) \<union> connect_dests (s_todo t) \<subseteq> requested items"
proof (induction rule: srv_step.induct)
  case (read_item s item rest connects ack_ok es)
  then have "requested [item] \<subseteq> requested items" by (auto simp: requested_def)
  with read_item dispatch_requested [OF read_item(4)] show ?case by auto
next
  case (reader_eff s e es)
  then show ?case
    using connects_apply_subset [of e s] connect_dests_Cons [of e es] by auto
next
  case (relay_eff s xs i e es ys)
  then have "relay_effect i e" by (auto simp: srv_inv_def)
  then have "connect_dests [e] = {}" by (rule relay_effect_dests)
  with relay_eff connects_apply_subset [of e s] show ?case by auto
qed auto

lemma srv_reachable_requested:
  "srv_reachable items s \<Longrightarrow>
     set (s_in s) \<subseteq> set items \<and> set (s_connects s) \<union> connect_dests (s_todo s) \<subseteq> requested items"
proof (induction rule: srv_reachable.induct)
  case start
  show ?case by (simp add: srv_init_def)
next
  case (step s t)
  then show ?case using srv_step_requested [OF step(2) srv_reachable_inv [OF step(1)]] by blast
qed

subsection \<open>Runs given by a schedule\<close>

text \<open>A schedule says which task moves next; a move that is not possible is \<open>None\<close>.\<close>

datatype srv_choice = SRead bool bool | SReader | SSpawn bool "(read_result \<times> bool) list" | SRelay nat

fun srv_move :: "srv_choice \<Rightarrow> srv_session \<Rightarrow> srv_session option" where
  "srv_move (SRead connects ack_ok) s =
     (if s_reading s \<and> s_todo s = [] then
        (case s_in s of
           [] \<Rightarrow> None
         | item # rest \<Rightarrow>
             (case server_dispatch connects ack_ok (s_next s) item of
                None \<Rightarrow> None
              | Some es \<Rightarrow> Some (s\<lparr>s_in := rest, s_todo := es, s_next := Suc (s_next s),
                  s_opened := s_opened s @ opens_of item\<rparr>)))
      else None)"
| "srv_move SReader s =
     (case s_todo s of
        [] \<Rightarrow> None
      | e # es \<Rightarrow>
          if eff_enabled s e \<and> \<not> is_spawn e
          then Some ((apply_eff e s)\<lparr>s_todo := follow_up s e @ es\<rparr>) else None)"
| "srv_move (SSpawn close_ok rs) s =
     (case s_todo s of
        ESpawn i c # es \<Rightarrow>
          Some (s\<lparr>s_todo := es, s_relays := s_relays s @ [(i, relay_reader i close_ok rs)]\<rparr>)
      | _ \<Rightarrow> None)"
| "srv_move (SRelay n) s =
     (if n < length (s_relays s) then
        (case s_relays s ! n of
           (i, []) \<Rightarrow> None
         | (i, e # es) \<Rightarrow>
             if eff_enabled s e then Some ((apply_eff e s)\<lparr>s_relays := (s_relays s)[n := (i, es)]\<rparr>)
             else None)
      else None)"

fun srv_run :: "srv_choice list \<Rightarrow> srv_session \<Rightarrow> srv_session option" where
  "srv_run [] s = Some s"
| "srv_run (m # ms) s = (case srv_move m s of None \<Rightarrow> None | Some t \<Rightarrow> srv_run ms t)"

lemma srv_move_step:
  assumes "srv_move m s = Some t"
  shows "srv_step s t"
proof (cases m)
  case (SRead connects ack_ok)
  with assms show ?thesis
    by (auto split: if_splits list.splits option.splits intro: srv_step.read_item)
next
  case SReader
  with assms show ?thesis by (auto split: list.splits if_splits intro: srv_step.reader_eff)
next
  case (SSpawn close_ok rs)
  with assms show ?thesis by (auto split: list.splits effect.splits intro: srv_step.reader_spawn)
next
  case (SRelay n)
  with assms obtain i e es where n: "n < length (s_relays s)" "s_relays s ! n = (i, e # es)" "eff_enabled s e"
    and t: "t = (apply_eff e s)\<lparr>s_relays := (s_relays s)[n := (i, es)]\<rparr>"
    by (auto split: if_splits prod.splits list.splits)
  then have "s_relays s = take n (s_relays s) @ (i, e # es) # drop (Suc n) (s_relays s)"
    by (metis id_take_nth_drop)
  from srv_step.relay_eff [OF this n(3)] show ?thesis by (simp add: t upd_conv_take_nth_drop n(1))
qed

lemma srv_run_reachable: "srv_reachable items s \<Longrightarrow> srv_run ms s = Some t \<Longrightarrow> srv_reachable items t"
proof (induction ms arbitrary: s)
  case (Cons m ms)
  then show ?case
    by (auto split: option.splits) (blast intro: srv_reachable.step srv_move_step)
qed simp

text \<open>A client opens stream 1 and sends one byte; the target answers two bytes.\<close>

definition demo_items :: "ws_item list" where
  "demo_items = [Some (WsBinary (encode (Open 1 ''web.org:80''))),
     Some (WsBinary (encode (Data 1 [7])))]"

lemma demo_dest: "is_dest_allowed ''web.org:80''"
proof -
  have "parse_ip ''web.org'' = None"
    by (rule parse_ip_name) (simp_all add: to_digit_def Let_def starts_with_def)
  moreover have "trim_brackets ''web.org'' = ''web.org''"
    by (rule trim_brackets_id) (simp_all add: bracket_def)
  ultimately show ?thesis by (simp add: is_dest_allowed_def)
qed

lemma demo_dispatch:
  "server_dispatch True True c (Some (WsBinary (encode (Open 1 ''web.org:80'')))) =
     Some [ETcpConnect ''web.org:80'' True, ERegistry (RegOp 1 c),
           ESendFrame (OpenAck 1 True) True, ESpawn 1 c]"
  "server_dispatch True True c (Some (WsBinary (encode (Data 1 [7])))) =
     Some [ERegistry (RouteOp 1 [7])]"
  by (simp_all add: server_dispatch_def decode_encode ascii_valid_str handle_open_def demo_dest
      del: encode.simps)

definition demo_moves :: "srv_choice list" where
  "demo_moves = [SRead True True, SReader, SReader, SReader, SSpawn True [(ReadOk [5, 6], True)],
     SRead True True, SReader, SReader, SRelay 0]"

lemma demo_run:
  "\<exists>s. srv_reachable demo_items s \<and> s_connects s = [''web.org:80''] \<and> s_opened s = [1] \<and>
     s_out s = [OpenAck 1 True, Data 1 [5, 6]] \<and> s_owner s 0 = Some 1 \<and> s_sent s 0 = [[7]] \<and>
     s_todo s = [] \<and> s_open s \<and> inner (s_reg s) 1 = Some 0 \<and> 0 \<notin> s_gone s \<and> s_reading s"
proof -
  have "\<exists>s. srv_run demo_moves (srv_init demo_items) = Some s \<and> s_connects s = [''web.org:80''] \<and>
      s_opened s = [1] \<and> s_out s = [OpenAck 1 True, Data 1 [5, 6]] \<and> s_owner s 0 = Some 1 \<and>
      s_sent s 0 = [[7]] \<and> s_todo s = [] \<and> s_open s \<and> inner (s_reg s) 1 = Some 0 \<and> 0 \<notin> s_gone s \<and>
      s_reading s"
    by (simp add: demo_moves_def demo_items_def srv_init_def demo_dispatch registry_defs decode_encode
        ascii_valid_str del: encode.simps)
  then show ?thesis using srv_run_reachable [OF srv_reachable.start] by blast
qed

text \<open>
  A CLOSE from the client takes the stream out of the registry, which ends the writer task of the
  target; the relay that reads from the target is not told and goes on sending.
\<close>

lemma relay_survives_close:
  "\<exists>s. srv_reachable [Some (WsBinary (encode (Open 1 ''web.org:80''))), Some (WsBinary (encode (Close 1)))] s \<and>
     s_in s = [] \<and> inner (s_reg s) 1 = None \<and> s_out s = [OpenAck 1 True, Data 1 [5, 6]]"
proof -
  let ?items = "[Some (WsBinary (encode (Open 1 ''web.org:80''))), Some (WsBinary (encode (Close 1)))]"
  let ?moves = "[SRead True True, SReader, SReader, SReader, SSpawn True [(ReadOk [5, 6], True)],
     SRead True True, SReader, SRelay 0]"
  have close: "server_dispatch True True c (Some (WsBinary (encode (Close 1)))) = Some [ERegistry (CloseOp 1)]" for c
    by (simp add: server_dispatch_def decode_encode del: encode.simps)
  have "\<exists>s. srv_run ?moves (srv_init ?items) = Some s \<and>
      s_in s = [] \<and> inner (s_reg s) 1 = None \<and> s_out s = [OpenAck 1 True, Data 1 [5, 6]]"
    by (simp add: srv_init_def demo_dispatch close registry_defs del: encode.simps)
  then show ?thesis using srv_run_reachable [OF srv_reachable.start] by blast
qed

subsection \<open>Properties of a session\<close>

text \<open>C8: in every reachable state of a mux session, whatever the client sends and however the tasks
  interleave, the server has attempted TCP connections to destinations that pass the SSRF
  filter only.\<close>

theorem server_never_connects_blocked:
  assumes "srv_reachable items s" and "dest \<in> set (s_connects s)"
  shows "is_dest_allowed dest"
  using srv_reachable_inv [OF assms(1)] assms(2) by (auto simp: srv_inv_def list_all_iff)

theorem server_never_connects_blocked_witness:
  "\<exists>s. srv_reachable demo_items s \<and> ''web.org:80'' \<in> set (s_connects s) \<and>
     is_dest_allowed ''web.org:80''"
proof -
  obtain s where "srv_reachable demo_items s" "''web.org:80'' \<in> set (s_connects s)"
    using demo_run by auto
  with server_never_connects_blocked [OF this] show ?thesis by blast
qed

text \<open>C20: in the sequence of frames a session hands to its writer, a DATA or CLOSE frame of a
  stream never comes before a positive OPEN\_ACK of that stream: the client sees the
  acknowledgement first.\<close>

theorem server_data_after_ack:
  assumes "srv_reachable items s" and "s_out s = pre @ f # post"
    and "(\<exists>bs. f = Data i bs) \<or> f = Close i"
  shows "OpenAck i True \<in> set pre"
proof -
  have "data_after_ack (pre @ f # post)"
    using srv_reachable_inv [OF assms(1)] assms(2) by (simp add: srv_inv_def)
  moreover have "stream_of_relay_frame f = Some i"
    using assms(3) by (auto simp: stream_of_relay_frame_def)
  ultimately show ?thesis
    unfolding data_after_ack_def by (auto dest: spec [of _ "length pre"] simp: nth_append)
qed

theorem server_data_after_ack_witness:
  "\<exists>s. srv_reachable demo_items s \<and> s_out s = [OpenAck 1 True] @ Data 1 [5, 6] # [] \<and>
     OpenAck 1 True \<in> set [OpenAck 1 True]"
proof -
  obtain s where s: "srv_reachable demo_items s" "s_out s = [OpenAck 1 True] @ Data 1 [5, 6] # []"
    using demo_run by auto
  with server_data_after_ack [OF s, of 1] show ?thesis by blast
qed

text \<open>C29: every OPEN frame the server dispatches is answered by exactly one OPEN\_ACK of its stream:
  there are never more acknowledgements than OPENs, and as long as the frame channel is open
  none is missing whenever the reader has finished its current frame.\<close>

theorem server_one_ack_per_open:
  assumes "srv_reachable items s"
  shows "acks_in i (s_out s) \<le> count_list (s_opened s) i \<and>
     (s_open s \<and> s_todo s = [] \<longrightarrow> acks_in i (s_out s) = count_list (s_opened s) i)"
  using srv_reachable_ack [OF assms, of i] by (auto simp: ack_inv_def)

theorem server_one_ack_per_open_witness:
  "\<exists>s. srv_reachable demo_items s \<and> s_opened s = [1] \<and> acks_in 1 (s_out s) = 1"
proof -
  obtain s where "srv_reachable demo_items s" "s_opened s = [1]" "s_open s" "s_todo s = []"
    using demo_run by auto
  with server_one_ack_per_open [of demo_items s 1] show ?thesis by auto
qed

text \<open>What the writer task of a stream has received from its channel is a subsequence of the DATA
  payloads the client sent for that stream id, in their order: no byte of another stream, none
  twice, none out of order. What the channel still holds is bounded by its capacity.\<close>

theorem server_delivers_in_order:
  assumes "chan_contract chan_ok" and "srv_reachable items s" and "s_owner s c = Some i"
    and "chan_ok DATA_CHANNEL_CAP (s_sent s c) rcvd"
  shows "subseq rcvd (payloads i items) \<and> length (s_sent s c) \<le> length rcvd + DATA_CHANNEL_CAP"
proof -
  obtain consumed where c: "items = consumed @ s_in s" "data_inv consumed s"
    using srv_reachable_data [OF assms(2)] by blast
  have "subseq rcvd (s_sent s c)"
    using chan_fifo [OF assms(1,4)] by (rule prefix_imp_subseq)
  also have "subseq (s_sent s c) (payloads i consumed)"
    using c(2) assms(3) by (rule data_inv_sent)
  also have "subseq (payloads i consumed) (payloads i items)"
    using c(1) by (simp add: prefix_imp_subseq)
  finally show ?thesis using chan_bound [OF assms(1,4)] by blast
qed

theorem server_delivers_in_order_witness:
  "\<exists>s. srv_reachable demo_items s \<and> s_owner s 0 = Some 1 \<and>
     fifo_chan DATA_CHANNEL_CAP (s_sent s 0) [[7]] \<and> subseq [[7]] (payloads 1 demo_items)"
proof -
  obtain s where s: "srv_reachable demo_items s" "s_owner s 0 = Some 1" "s_sent s 0 = [[7]]"
    using demo_run by auto
  have "fifo_chan DATA_CHANNEL_CAP (s_sent s 0) [[7]]"
    using s(3) by (simp add: fifo_chan_def)
  with server_delivers_in_order [OF fifo_chan_contract s(1,2)] s(1,2) show ?thesis by blast
qed

end
