(* ===== verification/Http_Request.thy ===== *)
theory Http_Request
  imports Rust_Str
begin

text \<open>
  Reading the head and body of an HTTP request (\<open>parse_request_header\<close> of
  \<open>client/src/lib.rs\<close>). The connection is the list of bytes that have arrived and not been
  consumed, and how it goes on after them; an operation that waits for bytes that have not
  arrived has the value \<open>Pending\<close>.
\<close>

definition MAX_HEADER_BYTES :: nat where "MAX_HEADER_BYTES = 64 * 1024"

definition MAX_CONTENT_LENGTH :: nat where "MAX_CONTENT_LENGTH = 64 * 1024 * 1024"

subsection \<open>Reading from a connection\<close>

datatype stream_end = Eof | Broken | StillOpen

datatype 'a await = Ready 'a | Pending

text \<open>
  \<open>read_line\<close>: the bytes up to and including the next newline, or to the end of input; an error
  of the connection or bytes that are not UTF-8 are \<open>None\<close>.
\<close>

definition read_line :: "bytes \<Rightarrow> stream_end \<Rightarrow> (string \<times> bytes) option await" where
  "read_line bs fin =
     (case split_once 10 bs of
        Some (l, rest) \<Rightarrow>
          Ready (case from_utf8 (l @ [10]) of Some line \<Rightarrow> Some (line, rest) | None \<Rightarrow> None)
      | None \<Rightarrow>
          (case fin of
             Eof \<Rightarrow> Ready (case from_utf8 bs of Some line \<Rightarrow> Some (line, []) | None \<Rightarrow> None)
           | Broken \<Rightarrow> Ready None
           | StillOpen \<Rightarrow> Pending))"

text \<open>\<open>read_exact\<close> into a buffer of \<open>n\<close> bytes.\<close>

definition read_exact :: "nat \<Rightarrow> bytes \<Rightarrow> stream_end \<Rightarrow> (bytes \<times> bytes) option await" where
  "read_exact n bs fin =
     (if n \<le> length bs then Ready (Some (take n bs, drop n bs))
      else if fin = StillOpen then Pending else Ready None)"

subsection \<open>The header loop\<close>

record req_state =
  rq_headers :: string
  rq_host :: string
  rq_content_length :: nat

definition req_init :: req_state where
  "req_init = \<lparr>rq_headers = [], rq_host = [], rq_content_length = 0\<rparr>"

definition header_value :: "string \<Rightarrow> string \<Rightarrow> string" where
  "header_value name line =
     trim_end_matches [CHR 0x0A] (trim_end_matches crlf (trim (drop (length name) line)))"

definition host_value :: "string \<Rightarrow> string" where
  "host_value line =
     (let host = header_value ''host:'' line
      in if CHR '':'' \<in> set host then host else host @ '':80'')"

definition content_length_value :: "string \<Rightarrow> nat" where
  "content_length_value line =
     (case parse_usize (header_value ''content-length:'' line) of Some n \<Rightarrow> n | None \<Rightarrow> 0)"

text \<open>The body of the loop after a line was read; \<open>None\<close> is the early \<open>return None\<close>.\<close>

definition process_line :: "string \<Rightarrow> req_state \<Rightarrow> req_state option" where
  "process_line line st =
     (if MAX_HEADER_BYTES < length (rq_headers st) + length line then None
      else
        let st1 = st\<lparr>rq_headers := rq_headers st @ line\<rparr>;
            lower = to_ascii_lowercase line;
            st2 = (if starts_with lower ''host:'' then st1\<lparr>rq_host := host_value line\<rparr> else st1)
        in if starts_with lower ''content-length:'' then
             (if MAX_CONTENT_LENGTH < content_length_value line then None
              else Some (st2\<lparr>rq_content_length := content_length_value line\<rparr>))
           else Some st2)"

lemma read_line_consumes:
  "read_line bs fin = Ready (Some (line, rest)) \<Longrightarrow> bs = as_bytes line @ rest"
  by (auto simp: read_line_def str_simps split: option.splits stream_end.splits)

function header_loop :: "bytes \<Rightarrow> stream_end \<Rightarrow> req_state \<Rightarrow> (req_state \<times> bytes) option await" where
  "header_loop bs fin st =
     (case read_line bs fin of
        Pending \<Rightarrow> Pending
      | Ready None \<Rightarrow> Ready None
      | Ready (Some (line, rest)) \<Rightarrow>
          if line = [] then Ready (Some (st, rest))
          else
            (case process_line line st of
               None \<Rightarrow> Ready None
             | Some st' \<Rightarrow>
                 if line = crlf then Ready (Some (st', rest)) else header_loop rest fin st'))"
  by pat_completeness auto
termination
  by (relation "measure (\<lambda>(bs, _, _). length bs)") (auto dest!: read_line_consumes)

declare header_loop.simps [simp del]

text \<open>
  The result is the host, the header text and the body, with the bytes left unread.
\<close>

definition parse_request_header ::
  "bytes \<Rightarrow> stream_end \<Rightarrow> ((string \<times> string \<times> bytes) \<times> bytes) option await" where
  "parse_request_header bs fin =
     (case header_loop bs fin req_init of
        Pending \<Rightarrow> Pending
      | Ready None \<Rightarrow> Ready None
      | Ready (Some (st, rest)) \<Rightarrow>
          if 0 < rq_content_length st then
            (case read_exact (rq_content_length st) rest fin of
               Pending \<Rightarrow> Pending
             | Ready None \<Rightarrow> Ready None
             | Ready (Some (body, rest')) \<Rightarrow>
                 Ready (Some ((rq_host st, rq_headers st, body), rest')))
          else Ready (Some ((rq_host st, rq_headers st, []), rest)))"

subsection \<open>What the loop keeps\<close>

lemma process_line_Some:
  assumes "process_line line st = Some st'"
  shows "rq_headers st' = rq_headers st @ line"
    and "length (rq_headers st') \<le> MAX_HEADER_BYTES"
    and "rq_content_length st \<le> MAX_CONTENT_LENGTH \<Longrightarrow> rq_content_length st' \<le> MAX_CONTENT_LENGTH"
  using assms by (auto simp: process_line_def Let_def split: if_splits)

lemma header_loop_sound:
  assumes "header_loop bs fin st = Ready (Some (st', rest))"
    and "length (rq_headers st) \<le> MAX_HEADER_BYTES" "rq_content_length st \<le> MAX_CONTENT_LENGTH"
  shows "\<exists>h. rq_headers st' = rq_headers st @ h \<and> bs = as_bytes h @ rest \<and>
     length (rq_headers st') \<le> MAX_HEADER_BYTES \<and> rq_content_length st' \<le> MAX_CONTENT_LENGTH"
  using assms
proof (induction bs fin st rule: header_loop.induct)
  case (1 bs fin st)
  from "1.prems"(1) obtain line r where rl: "read_line bs fin = Ready (Some (line, r))"
    by (subst (asm) header_loop.simps) (auto split: await.splits option.splits)
  note split = read_line_consumes [OF rl]
  show ?case
  proof (cases "line = []")
    case True
    with "1.prems" rl split show ?thesis by (subst (asm) header_loop.simps) simp
  next
    case False
    with "1.prems"(1) rl obtain s where s: "process_line line st = Some s"
      by (subst (asm) header_loop.simps) (auto split: option.splits)
    note keeps = process_line_Some [OF s]
    show ?thesis
    proof (cases "line = crlf")
      case True
      with "1.prems" rl s split keeps show ?thesis
        by (subst (asm) header_loop.simps) (auto simp: crlf_def)
    next
      case False
      with \<open>line \<noteq> []\<close> "1.prems"(1) rl s have "header_loop r fin s = Ready (Some (st', rest))"
        by (subst (asm) header_loop.simps) simp
      with "1.IH" [OF rl refl refl \<open>line \<noteq> []\<close> s False] keeps "1.prems"(3) split show ?thesis
        by auto
    qed
  qed
qed


subsection \<open>Requests given as lines\<close>

text \<open>A complete line that does not end the head.\<close>

definition header_line :: "string \<Rightarrow> bool" where
  "header_line l \<longleftrightarrow>
     valid_str l \<and> l \<noteq> crlf \<and> (\<exists>t. l = t @ [CHR 0x0A] \<and> CHR 0x0A \<notin> set t)"

definition has_name :: "string \<Rightarrow> string \<Rightarrow> bool" where
  "has_name name line \<longleftrightarrow> starts_with (to_ascii_lowercase line) name"

text \<open>The last line with a name decides.\<close>

definition host_of :: "string list \<Rightarrow> string \<Rightarrow> string" where
  "host_of lines host =
     (case filter (has_name ''host:'') lines of [] \<Rightarrow> host | xs \<Rightarrow> host_value (last xs))"

definition content_length_of :: "string list \<Rightarrow> nat \<Rightarrow> nat" where
  "content_length_of lines n =
     (case filter (has_name ''content-length:'') lines of
        [] \<Rightarrow> n
      | xs \<Rightarrow> content_length_value (last xs))"

definition length_line_ok :: "string \<Rightarrow> bool" where
  "length_line_ok l \<longleftrightarrow>
     (has_name ''content-length:'' l \<longrightarrow> content_length_value l \<le> MAX_CONTENT_LENGTH)"

lemma host_of_simps [simp]:
  "host_of [] h = h"
  "host_of (l # ls) h = host_of ls (if has_name ''host:'' l then host_value l else h)"
  by (auto simp: host_of_def split: list.split)

lemma content_length_of_simps [simp]:
  "content_length_of [] n = n"
  "content_length_of (l # ls) n =
     content_length_of ls (if has_name ''content-length:'' l then content_length_value l else n)"
  by (auto simp: content_length_of_def split: list.split)

lemma byte_of_char_newline: "byte_of_char c = 10 \<longleftrightarrow> c = CHR 0x0A"
proof
  assume "byte_of_char c = 10"
  then have "char_of_byte (byte_of_char c) = char_of_byte 10" by simp
  then have "c = char_of_byte 10" by simp
  then show "c = CHR 0x0A" by (simp add: char_of_byte_def) (simp add: char_of_def bit_0)
qed (simp add: byte_of_char_def)

lemma newline_notin: "CHR 0x0A \<notin> set t \<Longrightarrow> 10 \<notin> set (as_bytes t)"
proof
  assume "CHR 0x0A \<notin> set t" "10 \<in> set (as_bytes t)"
  then obtain c where "c \<in> set t" "byte_of_char c = 10" by (auto simp: as_bytes_def)
  with \<open>CHR 0x0A \<notin> set t\<close> show False by (simp add: byte_of_char_newline)
qed

lemma read_line_line:
  assumes "valid_str (t @ [CHR 0x0A])" "CHR 0x0A \<notin> set t"
  shows "read_line (as_bytes (t @ [CHR 0x0A]) @ rest) fin = Ready (Some (t @ [CHR 0x0A], rest))"
proof -
  have "as_bytes [CHR 0x0A] = [10]" by (simp add: as_bytes_def byte_of_char_def)
  then have "as_bytes (t @ [CHR 0x0A]) = as_bytes t @ [10]" by simp
  moreover have "split_once 10 (as_bytes t @ 10 # rest) = Some (as_bytes t, rest)"
    using newline_notin [OF assms(2)] by (rule split_once_append)
  moreover have "from_utf8 (as_bytes (t @ [CHR 0x0A])) = Some (t @ [CHR 0x0A])"
    using assms(1) by (rule from_utf8_as_bytes)
  ultimately show ?thesis by (simp add: read_line_def del: as_bytes_append)
qed

lemma read_line_header:
  "header_line l \<Longrightarrow> read_line (as_bytes l @ rest) fin = Ready (Some (l, rest))"
  using read_line_line by (auto simp: header_line_def)

lemma read_line_crlf: "read_line (as_bytes crlf @ rest) fin = Ready (Some (crlf, rest))"
  using read_line_line [of "[CHR 0x0D]" rest fin] ascii_valid_str [of "[CHR 0x0D, CHR 0x0A]"]
  by (simp add: crlf_def)

lemma process_line_eq:
  "process_line l st =
     (if length (rq_headers st) + length l \<le> MAX_HEADER_BYTES \<and> length_line_ok l
      then Some \<lparr>rq_headers = rq_headers st @ l, rq_host = host_of [l] (rq_host st),
         rq_content_length = content_length_of [l] (rq_content_length st)\<rparr>
      else None)"
  by (auto simp: process_line_def Let_def has_name_def length_line_ok_def)

lemma header_loop_line:
  assumes "header_line l"
  shows "header_loop (as_bytes l @ rest) fin st =
     (case process_line l st of None \<Rightarrow> Ready None | Some st' \<Rightarrow> header_loop rest fin st')"
proof -
  have "l \<noteq> []" "l \<noteq> crlf" using assms by (auto simp: header_line_def)
  then show ?thesis
    using read_line_header [OF assms, of rest fin]
    by (subst header_loop.simps) (simp cong: option.case_cong)
qed

lemma crlf_names [simp]: "\<not> has_name ''host:'' crlf" "\<not> has_name ''content-length:'' crlf"
  by (simp_all add: has_name_def crlf_def starts_with_def to_ascii_lowercase_def ascii_lower_def)

lemma header_loop_crlf:
  assumes "length (rq_headers st) + 2 \<le> MAX_HEADER_BYTES"
  shows "header_loop (as_bytes crlf @ rest) fin st = Ready (Some (st\<lparr>rq_headers := rq_headers st @ crlf\<rparr>, rest))"
proof -
  have "length crlf = 2" by (simp add: crlf_def)
  then have "process_line crlf st = Some (st\<lparr>rq_headers := rq_headers st @ crlf\<rparr>)"
    using assms by (simp add: process_line_eq length_line_ok_def)
  moreover have "crlf \<noteq> []" by (simp add: crlf_def)
  ultimately show ?thesis
    by (subst header_loop.simps) (simp add: read_line_crlf del: as_bytes_append)
qed

lemma header_loop_lines:
  assumes "list_all header_line lines" "list_all length_line_ok lines"
    and "length (rq_headers st) + length (concat lines) + 2 \<le> MAX_HEADER_BYTES"
  shows "header_loop (as_bytes (concat lines @ crlf) @ rest) fin st =
     Ready (Some (\<lparr>rq_headers = rq_headers st @ concat lines @ crlf, rq_host = host_of lines (rq_host st),
       rq_content_length = content_length_of lines (rq_content_length st)\<rparr>, rest))"
  using assms
proof (induction lines arbitrary: st)
  case Nil
  then show ?case by (simp add: header_loop_crlf)
next
  case (Cons l lines)
  then have "header_loop (as_bytes l @ as_bytes (concat lines @ crlf) @ rest) fin st =
      header_loop (as_bytes (concat lines @ crlf) @ rest) fin \<lparr>rq_headers = rq_headers st @ l,
        rq_host = host_of [l] (rq_host st),
        rq_content_length = content_length_of [l] (rq_content_length st)\<rparr>"
    by (simp add: header_loop_line process_line_eq)
  with Cons show ?case by simp
qed

lemma header_loop_rejects:
  assumes "list_all header_line lines"
    and "\<not> list_all length_line_ok lines \<or> MAX_HEADER_BYTES < length (rq_headers st) + length (concat lines)"
    and "length (rq_headers st) \<le> MAX_HEADER_BYTES"
  shows "header_loop (as_bytes (concat lines) @ rest) fin st = Ready None"
  using assms
proof (induction lines arbitrary: st)
  case (Cons l lines)
  then have "header_loop (as_bytes (concat (l # lines)) @ rest) fin st =
      (case process_line l st of None \<Rightarrow> Ready None
       | Some st' \<Rightarrow> header_loop (as_bytes (concat lines) @ rest) fin st')"
    by (simp add: header_loop_line)
  with Cons show ?case by (auto simp: process_line_eq)
qed auto

lemma ascii_header_line: "is_ascii t \<Longrightarrow> CHR 0x0A \<notin> set t \<Longrightarrow> t \<noteq> [] \<Longrightarrow> header_line (t @ crlf)"
  using ascii_valid_str [of "t @ crlf"]
  by (auto simp: header_line_def crlf_def intro: exI [of _ "t @ [CHR 0x0D]"])

text \<open>A CONNECT request for port 443 whose Host line has no port.\<close>

definition demo_lines :: "string list" where
  "demo_lines = [''CONNECT a.com:443 HTTP/1.1'' @ crlf, ''Host: a.com'' @ crlf]"

lemma demo_lines_ok:
  "list_all header_line demo_lines" "list_all length_line_ok demo_lines"
  "length (concat demo_lines) + 2 \<le> MAX_HEADER_BYTES" "content_length_of demo_lines 0 = 0"
  "host_of demo_lines [] = ''a.com:80''"
proof -
  have "header_line (''CONNECT a.com:443 HTTP/1.1'' @ crlf)" "header_line (''Host: a.com'' @ crlf)"
    by (rule ascii_header_line; simp)+
  then show "list_all header_line demo_lines" by (simp add: demo_lines_def)
  have no_len: "list_ex (has_name ''content-length:'') demo_lines = False" by code_simp
  then show "list_all length_line_ok demo_lines" "content_length_of demo_lines 0 = 0"
    by (auto simp: demo_lines_def length_line_ok_def)
  show "length (concat demo_lines) + 2 \<le> MAX_HEADER_BYTES"
    by (simp add: demo_lines_def MAX_HEADER_BYTES_def crlf_def)
  have "map (has_name ''host:'') demo_lines = [False, True]" by code_simp
  moreover have "host_value (''Host: a.com'' @ crlf) = ''a.com:80''" by code_simp
  ultimately show "host_of demo_lines [] = ''a.com:80''" by (simp add: demo_lines_def)
qed

definition big_line :: string where
  "big_line = ''Content-Length: 99999999'' @ crlf"

lemma big_line_rejected: "header_line big_line" "\<not> length_line_ok big_line"
proof -
  have "is_ascii big_line" by (simp add: big_line_def crlf_def)
  then show "header_line big_line"
    by (auto simp: header_line_def ascii_valid_str)
       (auto simp: big_line_def crlf_def intro: exI [of _ "''Content-Length: 99999999'' @ [CHR 0x0D]"])
  have "header_value ''content-length:'' big_line = ''99999999''" by code_simp
  moreover have "parse_usize ''99999999'' = Some 99999999"
    by (simp add: parse_usize_def parse_uint_def starts_with_def digit_val_def)
  ultimately have "content_length_value big_line = 99999999" by (simp add: content_length_value_def)
  moreover have "has_name ''content-length:'' big_line" by code_simp
  ultimately show "\<not> length_line_ok big_line" by (simp add: length_line_ok_def MAX_CONTENT_LENGTH_def)
qed

lemma parse_request_split:
  assumes "parse_request_header bs fin = Ready (Some ((host, headers, body), rest))"
  shows "bs = as_bytes headers @ body @ rest \<and> length headers \<le> MAX_HEADER_BYTES \<and>
     length body \<le> MAX_CONTENT_LENGTH"
proof -
  from assms obtain st r where hl: "header_loop bs fin req_init = Ready (Some (st, r))"
    by (auto simp: parse_request_header_def split: await.splits option.splits)
  from header_loop_sound [OF hl] have st: "bs = as_bytes (rq_headers st) @ r"
    "length (rq_headers st) \<le> MAX_HEADER_BYTES" "rq_content_length st \<le> MAX_CONTENT_LENGTH"
    by (auto simp: req_init_def)
  from assms hl have "headers = rq_headers st" "r = body @ rest" "length body = rq_content_length st"
    by (auto simp: parse_request_header_def read_exact_def split: if_splits await.splits option.splits)
  with st show ?thesis by simp
qed

subsection \<open>Properties\<close>

text \<open>C23: whatever the client sends, an accepted request consists of a header text of at most 64 KiB
  and a body of at most 64 MiB, and header text, body and unread bytes are together exactly the
  bytes that arrived: the request forwarded upstream is what the client sent.\<close>

theorem parse_request_exact:
  assumes "parse_request_header bs fin = Ready (Some ((host, headers, body), rest))"
  shows "bs = as_bytes headers @ body @ rest \<and> length headers \<le> MAX_HEADER_BYTES \<and>
     length body \<le> MAX_CONTENT_LENGTH"
  using assms by (rule parse_request_split)

theorem parse_request_exact_witness:
  "as_bytes (concat demo_lines @ crlf) = as_bytes (concat demo_lines @ crlf) @ [] @ [] \<and>
     length (concat demo_lines @ crlf) \<le> MAX_HEADER_BYTES \<and> length ([] :: bytes) \<le> MAX_CONTENT_LENGTH"
  by (rule parse_request_exact [where fin = StillOpen and host = "''a.com:80''"])
     (use header_loop_lines [OF demo_lines_ok(1,2), of req_init "[]" StillOpen] demo_lines_ok
       in \<open>simp add: parse_request_header_def req_init_def\<close>)

text \<open>C22: a request whose head is a list of complete lines followed by the empty line, within the
  limits and followed by as many bytes as its Content-Length says, is accepted as soon as these
  bytes are there, with the value of its last Host line (port 80 added if it has no colon) as
  the destination.\<close>

theorem parse_request_accepts:
  assumes "list_all header_line lines" and "list_all length_line_ok lines"
    and "length (concat lines) + 2 \<le> MAX_HEADER_BYTES"
    and "length body = content_length_of lines 0"
  shows "parse_request_header (as_bytes (concat lines @ crlf) @ body @ rest) fin =
     Ready (Some ((host_of lines [], concat lines @ crlf, body), rest))"
  using header_loop_lines [OF assms(1,2), of req_init "body @ rest" fin] assms(3,4)
  by (auto simp: parse_request_header_def req_init_def read_exact_def)

theorem parse_request_accepts_witness:
  "parse_request_header (as_bytes (concat demo_lines @ crlf) @ [] @ []) StillOpen =
     Ready (Some ((''a.com:80'', concat demo_lines @ crlf, []), []))"
  using parse_request_accepts [OF demo_lines_ok(1,2,3), of "[]" "[]" StillOpen] demo_lines_ok(4,5)
  by simp

text \<open>A head whose complete lines exceed 64 KiB, or that announces a Content-Length above 64 MiB,
  is rejected as soon as those lines have arrived, without waiting for the rest.\<close>

theorem parse_request_rejects:
  assumes "list_all header_line lines"
    and "MAX_HEADER_BYTES < length (concat lines) \<or> \<not> list_all length_line_ok lines"
  shows "parse_request_header (as_bytes (concat lines) @ rest) fin = Ready None"
  using header_loop_rejects [OF assms(1), of req_init rest fin] assms(2)
  by (auto simp: parse_request_header_def req_init_def)

theorem parse_request_rejects_witness:
  "parse_request_header (as_bytes (concat [big_line]) @ []) StillOpen = Ready None"
  by (rule parse_request_rejects) (simp_all add: big_line_rejected)

text \<open>A connection that is closed before it sends anything is not rejected as malformed: the
  result is an accepted request with an empty destination and no data.\<close>

lemma parse_request_empty_accepted:
  "parse_request_header [] Eof = Ready (Some (([], [], []), []))"
  by (simp add: parse_request_header_def header_loop.simps read_line_def split_once_def from_utf8_def
      of_bytes_def req_init_def)

end
