(* ===== verification/Geo_Site.thy ===== *)
theory Geo_Site
  imports Rust_Str
begin

text \<open>
  GeoSite domain rules (\<open>client/src/geosite.rs\<close>): the matcher, its loading from a decoded
  GeoSite file, and the errors. Parameters: \<open>regex_new\<close> and \<open>is_match\<close> are the crate regex,
  \<open>decode_geosite\<close> is the protobuf decoder of the crate geosite\_rs, \<open>read_file\<close> the file
  system; \<open>lo\<close> and \<open>up\<close> are the case mappings of non-ASCII strings. An error of a crate is
  represented by its message. \<open>None\<close> as a result of the matcher is a panic.
\<close>

subsection \<open>Data\<close>

datatype geosite_error =
    SiteIo string
  | SiteDecode string
  | SiteTagNotFound string
  | InvalidRegex (pattern: string) (source: string)

fun fmt_geosite_error :: "geosite_error \<Rightarrow> string" where
  "fmt_geosite_error (SiteIo e) = ''failed to read geosite dat: '' @ e"
| "fmt_geosite_error (SiteDecode msg) = ''failed to decode geosite dat: '' @ msg"
| "fmt_geosite_error (SiteTagNotFound tag) =
     ''tag '' @ [CHR 0x27] @ tag @ [CHR 0x27] @ '' not found in geosite dat''"
| "fmt_geosite_error (InvalidRegex p src) =
     ''invalid regex '' @ [CHR 0x27] @ p @ [CHR 0x27] @ '' in geosite dat: '' @ src"

record 're geosite_matcher =
  domains :: "string list"
  fulls :: "string list"
  site_keywords :: "string list"
  regexes :: "'re list"

definition geosite_default :: "'re geosite_matcher" where
  "geosite_default = \<lparr>domains = [], fulls = [], site_keywords = [], regexes = []\<rparr>"

text \<open>The decoded file, as the code reads it: entries with a country code and typed values.\<close>

record geo_domain =
  dom_type :: int
  dom_value :: string

record geosite_entry =
  site_code :: string
  site_domains :: "geo_domain list"

subsection \<open>Matching\<close>

text \<open>\<open>&d[1..]\<close>: panics on an empty string and inside a multi-byte character.\<close>

definition slice_from_1 :: "string \<Rightarrow> string option" where
  "slice_from_1 d =
     (case d of
        [] \<Rightarrow> None
      | [_] \<Rightarrow> Some []
      | _ # c # _ \<Rightarrow> if cont_byte (byte_of_char c) then None else Some (tl d))"

text \<open>\<open>Iterator::any\<close> with a test that may panic.\<close>

fun any_opt :: "('a \<Rightarrow> bool option) \<Rightarrow> 'a list \<Rightarrow> bool option" where
  "any_opt p [] = Some False"
| "any_opt p (x # xs) =
     (case p x of None \<Rightarrow> None | Some True \<Rightarrow> Some True | Some False \<Rightarrow> any_opt p xs)"

definition domain_test :: "string \<Rightarrow> string \<Rightarrow> bool option" where
  "domain_test host d =
     (case slice_from_1 d of
        None \<Rightarrow> None
      | Some apex \<Rightarrow> Some (host = apex \<or> ends_with host d))"

definition geosite_matches ::
  "('re \<Rightarrow> string \<Rightarrow> bool) \<Rightarrow> 're geosite_matcher \<Rightarrow> string \<Rightarrow> bool option" where
  "geosite_matches is_match m host =
     (if list_ex (\<lambda>f. f = host) (fulls m) then Some True
      else if list_ex (\<lambda>k. contains_str host k) (site_keywords m) then Some True
      else
        (case any_opt (domain_test host) (domains m) of
           None \<Rightarrow> None
         | Some True \<Rightarrow> Some True
         | Some False \<Rightarrow> Some (list_ex (\<lambda>r. is_match r host) (regexes m))))"

subsection \<open>Loading\<close>

fun add_domains ::
  "(string \<Rightarrow> string + 're) \<Rightarrow> (string \<Rightarrow> string) \<Rightarrow> geo_domain list \<Rightarrow> 're geosite_matcher
     \<Rightarrow> geosite_error + 're geosite_matcher" where
  "add_domains regex_new lo [] m = Inr m"
| "add_domains regex_new lo (d # ds) m =
     (let v = to_lowercase lo (dom_value d)
      in if dom_type d = 2 then add_domains regex_new lo ds (m\<lparr>domains := domains m @ [''.'' @ v]\<rparr>)
         else if dom_type d = 3 then add_domains regex_new lo ds (m\<lparr>fulls := fulls m @ [v]\<rparr>)
         else if dom_type d = 0 then add_domains regex_new lo ds (m\<lparr>site_keywords := site_keywords m @ [v]\<rparr>)
         else if dom_type d = 1 then
           (case regex_new v of
              Inl e \<Rightarrow> Inl (InvalidRegex v e)
            | Inr re \<Rightarrow> add_domains regex_new lo ds (m\<lparr>regexes := regexes m @ [re]\<rparr>))
         else add_domains regex_new lo ds m)"

definition find_entry :: "(string \<Rightarrow> string) \<Rightarrow> ('e \<Rightarrow> string) \<Rightarrow> 'e list \<Rightarrow> string \<Rightarrow> 'e option" where
  "find_entry up code es tag =
     find (\<lambda>e. to_uppercase up (code e) = to_uppercase up tag) es"

fun load_site_tags ::
  "(string \<Rightarrow> string + 're) \<Rightarrow> (string \<Rightarrow> string) \<Rightarrow> (string \<Rightarrow> string) \<Rightarrow> geosite_entry list \<Rightarrow> string list
     \<Rightarrow> 're geosite_matcher \<Rightarrow> geosite_error + 're geosite_matcher" where
  "load_site_tags regex_new lo up es [] m = Inr m"
| "load_site_tags regex_new lo up es (tag # tags) m =
     (case find_entry up site_code es tag of
        None \<Rightarrow> Inl (SiteTagNotFound tag)
      | Some e \<Rightarrow>
          (case add_domains regex_new lo (site_domains e) m of
             Inl err \<Rightarrow> Inl err
           | Inr m' \<Rightarrow> load_site_tags regex_new lo up es tags m'))"

text \<open>\<open>From<std::io::Error>\<close>, the conversion of the operator \<open>?\<close>.\<close>

definition geosite_error_from_io :: "string \<Rightarrow> geosite_error" where
  geosite_error_from_io_def [simp]: "geosite_error_from_io e = SiteIo e"

definition load_geosite_dat ::
  "(string \<Rightarrow> string + bytes) \<Rightarrow> (bytes \<Rightarrow> string + geosite_entry list) \<Rightarrow> (string \<Rightarrow> string + 're)
     \<Rightarrow> (string \<Rightarrow> string) \<Rightarrow> (string \<Rightarrow> string) \<Rightarrow> string \<Rightarrow> string list
     \<Rightarrow> geosite_error + 're geosite_matcher" where
  "load_geosite_dat read_file decode_geosite regex_new lo up path tags =
     (case read_file path of
        Inl e \<Rightarrow> Inl (geosite_error_from_io e)
      | Inr bytes \<Rightarrow>
          (case decode_geosite bytes of
             Inl e \<Rightarrow> Inl (SiteDecode e)
           | Inr es \<Rightarrow> load_site_tags regex_new lo up es tags geosite_default))"

subsection \<open>What a rule means\<close>

text \<open>The reference meaning of one rule of the file, by the documented rule types.\<close>

definition rule_accepts ::
  "(string \<Rightarrow> string + 're) \<Rightarrow> ('re \<Rightarrow> string \<Rightarrow> bool) \<Rightarrow> (string \<Rightarrow> string) \<Rightarrow> string \<Rightarrow> geo_domain \<Rightarrow> bool"
  where
  "rule_accepts regex_new is_match lo host d =
     (let v = to_lowercase lo (dom_value d)
      in if dom_type d = 2 then host = v \<or> (\<exists>sub. host = sub @ ''.'' @ v)
         else if dom_type d = 3 then host = v
         else if dom_type d = 0 then (\<exists>a b. host = a @ v @ b)
         else if dom_type d = 1 then (\<exists>re. regex_new v = Inr re \<and> is_match re host)
         else False)"

text \<open>The case mapping yields a \<open>String\<close>, whose first byte is not a continuation byte.\<close>

definition starts_char :: "string \<Rightarrow> bool" where
  "starts_char s \<longleftrightarrow> (case s of [] \<Rightarrow> True | c # _ \<Rightarrow> \<not> cont_byte (byte_of_char c))"

definition lower_contract :: "(string \<Rightarrow> string) \<Rightarrow> bool" where
  "lower_contract lo \<longleftrightarrow> (\<forall>s. starts_char (lo s))"

definition domain_rule_ok :: "string \<Rightarrow> bool" where
  "domain_rule_ok d \<longleftrightarrow> (\<exists>v. d = ''.'' @ v \<and> starts_char v)"

lemma starts_char_ascii: "is_ascii s \<Longrightarrow> starts_char s"
proof (cases s)
  case (Cons c t)
  moreover assume "is_ascii s"
  ultimately have "byte_of_char c < 0x80" by (simp add: byte_of_char_less_128)
  with Cons show ?thesis by (auto simp: starts_char_def cont_byte_def)
qed (simp add: starts_char_def)

lemma starts_char_lowercase: "lower_contract lo \<Longrightarrow> starts_char (to_lowercase lo s)"
  by (auto simp: to_lowercase_def lower_contract_def intro: starts_char_ascii)

lemma slice_domain_rule: "starts_char v \<Longrightarrow> slice_from_1 (''.'' @ v) = Some v"
  by (cases v) (auto simp: slice_from_1_def starts_char_def)

lemma any_opt_total:
  "(\<And>x. x \<in> set xs \<Longrightarrow> p x = Some (q x)) \<Longrightarrow> any_opt p xs = Some (list_ex q xs)"
  by (induction xs) (auto split: bool.splits)

lemma domain_test_rule: "starts_char v \<Longrightarrow> domain_test h (''.'' @ v) = Some (h = v \<or> (\<exists>t. h = t @ ''.'' @ v))"
  using slice_domain_rule [of v] by (auto simp: domain_test_def str_simps)

text \<open>What a matcher accepts, as a disjunction over its four lists.\<close>

definition accepts :: "('re \<Rightarrow> string \<Rightarrow> bool) \<Rightarrow> 're geosite_matcher \<Rightarrow> string \<Rightarrow> bool" where
  "accepts is_match m host \<longleftrightarrow>
     host \<in> set (fulls m) \<or> (\<exists>k\<in>set (site_keywords m). contains_str host k) \<or>
     (\<exists>d\<in>set (domains m). domain_test host d = Some True) \<or> (\<exists>r\<in>set (regexes m). is_match r host)"

lemma geosite_matches_accepts:
  assumes "list_all domain_rule_ok (domains m)"
  shows "geosite_matches is_match m host = Some (accepts is_match m host)"
proof -
  have "any_opt (domain_test host) (domains m) =
      Some (list_ex (\<lambda>d. domain_test host d = Some True) (domains m))"
    using assms
    by (intro any_opt_total)
       (auto simp: domain_rule_ok_def list_all_iff domain_test_rule [simplified])
  then show ?thesis
    by (auto simp: geosite_matches_def accepts_def list_ex_iff split: bool.splits)
qed

text \<open>Adding a rule to the list of its type adds what the rule accepts.\<close>

lemma accepts_add [simp]:
  "accepts is_match (m\<lparr>fulls := fulls m @ [v]\<rparr>) h \<longleftrightarrow> accepts is_match m h \<or> h = v"
  "accepts is_match (m\<lparr>site_keywords := site_keywords m @ [v]\<rparr>) h \<longleftrightarrow>
     accepts is_match m h \<or> contains_str h v"
  "accepts is_match (m\<lparr>regexes := regexes m @ [re]\<rparr>) h \<longleftrightarrow> accepts is_match m h \<or> is_match re h"
  "accepts is_match (m\<lparr>domains := domains m @ [d]\<rparr>) h \<longleftrightarrow>
     accepts is_match m h \<or> domain_test h d = Some True"
  by (auto simp: accepts_def)

lemma add_domains_Cons_accepts:
  assumes "lower_contract lo" and "list_all domain_rule_ok (domains m)"
    and "add_domains regex_new lo (d # ds) m = Inr m'"
  obtains m1 where "add_domains regex_new lo ds m1 = Inr m'" "list_all domain_rule_ok (domains m1)"
    "\<And>h. accepts is_match m1 h \<longleftrightarrow> accepts is_match m h \<or> rule_accepts regex_new is_match lo h d"
proof -
  let ?v = "to_lowercase lo (dom_value d)"
  have v: "starts_char ?v" using assms(1) by (rule starts_char_lowercase)
  then have "domain_rule_ok (''.'' @ ?v)" by (auto simp: domain_rule_ok_def)
  with assms(2,3) v that show thesis
    by (auto simp: rule_accepts_def Let_def contains_str_iff domain_test_rule [OF v, simplified]
        split: if_splits sum.splits)
qed

lemma add_domains_accepts:
  assumes "lower_contract lo" and "add_domains regex_new lo ds m = Inr m'"
    and "list_all domain_rule_ok (domains m)"
  shows "list_all domain_rule_ok (domains m') \<and>
     (accepts is_match m' host \<longleftrightarrow>
        accepts is_match m host \<or> (\<exists>d\<in>set ds. rule_accepts regex_new is_match lo host d))"
  using assms(2,3)
proof (induction ds arbitrary: m)
  case (Cons d ds)
  then obtain m1 where "add_domains regex_new lo ds m1 = Inr m'"
    "list_all domain_rule_ok (domains m1)"
    "\<And>h. accepts is_match m1 h \<longleftrightarrow> accepts is_match m h \<or> rule_accepts regex_new is_match lo h d"
    using add_domains_Cons_accepts [OF assms(1), of m regex_new d ds m' is_match] by metis
  with Cons.IH [of m1] show ?case by auto
qed simp

lemma load_site_tags_accepts:
  assumes "lower_contract lo" and "load_site_tags regex_new lo up es tags m = Inr m'"
    and "list_all domain_rule_ok (domains m)"
  shows "list_all domain_rule_ok (domains m') \<and>
     (accepts is_match m' host \<longleftrightarrow> accepts is_match m host \<or>
        (\<exists>tag\<in>set tags. \<exists>e. find_entry up site_code es tag = Some e \<and>
           (\<exists>d\<in>set (site_domains e). rule_accepts regex_new is_match lo host d)))"
  using assms(2,3)
proof (induction tags arbitrary: m)
  case (Cons tag tags)
  then obtain e m1 where e: "find_entry up site_code es tag = Some e"
    and m1: "add_domains regex_new lo (site_domains e) m = Inr m1"
    and rest: "load_site_tags regex_new lo up es tags m1 = Inr m'"
    by (auto split: option.splits sum.splits)
  note add = add_domains_accepts [OF assms(1) m1 Cons.prems(2), of is_match host]
  from Cons.IH [OF rest] add e show ?case by auto
qed simp

lemma add_domains_ok_iff:
  "(\<exists>m'. add_domains regex_new lo ds m = Inr m') \<longleftrightarrow>
     (\<forall>d\<in>set ds. dom_type d = 1 \<longrightarrow> (\<exists>re. regex_new (to_lowercase lo (dom_value d)) = Inr re))"
  by (induction ds arbitrary: m) (auto simp: Let_def split: sum.splits)

lemma load_site_tags_ok_iff:
  "(\<exists>m'. load_site_tags regex_new lo up es tags m = Inr m') \<longleftrightarrow>
     (\<forall>tag\<in>set tags. \<exists>e. find_entry up site_code es tag = Some e \<and>
        (\<forall>d\<in>set (site_domains e). dom_type d = 1 \<longrightarrow>
           (\<exists>re. regex_new (to_lowercase lo (dom_value d)) = Inr re)))"
proof (induction tags arbitrary: m)
  case (Cons tag tags)
  show ?case
  proof (cases "find_entry up site_code es tag")
    case (Some e)
    show ?thesis
    proof (cases "add_domains regex_new lo (site_domains e) m")
      case (Inl err)
      with Some add_domains_ok_iff [of regex_new lo "site_domains e" m] show ?thesis by auto
    next
      case (Inr m1)
      with Some add_domains_ok_iff [of regex_new lo "site_domains e" m] Cons.IH [of m1]
      show ?thesis by auto
    qed
  qed simp
qed simp

subsection \<open>Properties\<close>

text \<open>C38: a matcher loaded from a GeoSite file never panics, and it accepts a host exactly when some
  rule under the first entry of one of the requested tags does: a domain rule its apex and its
  subdomains (and nothing that merely ends in the same letters), a full rule the equal host, a
  keyword rule a host with it as a substring, a regex rule what its compiled form matches; rules
  of other types accept nothing.\<close>

theorem geosite_loaded_matches:
  assumes "lower_contract lo"
    and "load_geosite_dat read_file decode_geosite regex_new lo up path tags = Inr m"
    and "read_file path = Inr raw" and "decode_geosite raw = Inr es"
  shows "geosite_matches is_match m host =
     Some (\<exists>tag\<in>set tags. \<exists>e. find_entry up site_code es tag = Some e \<and>
             (\<exists>d\<in>set (site_domains e). rule_accepts regex_new is_match lo host d))"
proof -
  have "load_site_tags regex_new lo up es tags geosite_default = Inr m"
    using assms by (simp add: load_geosite_dat_def)
  from load_site_tags_accepts [OF assms(1) this] show ?thesis
    by (simp add: geosite_matches_accepts geosite_default_def accepts_def)
qed

definition demo_sites :: "geosite_entry list" where
  "demo_sites = [\<lparr>site_code = ''CN'', site_domains = [\<lparr>dom_type = 2, dom_value = ''Foo.com''\<rparr>]\<rparr>]"

definition no_regex :: "string \<Rightarrow> string + string" where
  "no_regex p = Inl ''unsupported''"

lemma demo_sites_load:
  "load_geosite_dat (\<lambda>_. Inr []) (\<lambda>_. Inr demo_sites) no_regex (\<lambda>_. []) (\<lambda>_. []) ''dlc.dat'' [''cn''] =
     Inr (geosite_default\<lparr>domains := [''.foo.com'']\<rparr>)"
  by (simp add: load_geosite_dat_def demo_sites_def find_entry_def to_uppercase_def to_lowercase_def
      ascii_upper_def ascii_lower_def geosite_default_def) (simp add: char_of_def bit_0)

lemma demo_sites_find:
  "find_entry (\<lambda>_. []) site_code demo_sites ''cn'' = Some (hd demo_sites)"
  by (simp add: demo_sites_def find_entry_def to_uppercase_def ascii_upper_def)
     (simp add: char_of_def bit_0)

lemma demo_rule_accepts:
  "rule_accepts no_regex (\<lambda>_ _. False) (\<lambda>_. []) ''bar.foo.com'' (hd (site_domains (hd demo_sites)))"
proof -
  have "to_lowercase (\<lambda>_. []) ''Foo.com'' = ''foo.com''"
    by (simp add: to_lowercase_def ascii_lower_def) (simp add: char_of_def bit_0)
  moreover have "''bar.foo.com'' = ''bar'' @ ''.'' @ ''foo.com''" by simp
  ultimately show ?thesis by (auto simp: rule_accepts_def demo_sites_def)
qed

theorem geosite_loaded_matches_witness:
  "geosite_matches (\<lambda>_ _. False) ((geosite_default :: string geosite_matcher)\<lparr>domains := [''.foo.com'']\<rparr>)
     ''bar.foo.com'' = Some True"
  using geosite_loaded_matches [OF _ demo_sites_load refl refl, of "\<lambda>_ _. False" "''bar.foo.com''"]
    demo_sites_find demo_rule_accepts
  by (simp add: lower_contract_def starts_char_def demo_sites_def)

text \<open>Loading a GeoSite file succeeds exactly when the file can be read and decoded, every
  requested tag has an entry (compared without case), and every regex rule of those entries
  compiles; otherwise the first failure is reported as the error.\<close>

lemma load_geosite_succeeds_iff:
  "(\<exists>m. load_geosite_dat read_file decode_geosite regex_new lo up path tags = Inr m) \<longleftrightarrow>
     (\<exists>raw es. read_file path = Inr raw \<and> decode_geosite raw = Inr es \<and>
        (\<forall>tag\<in>set tags. \<exists>e. find_entry up site_code es tag = Some e \<and>
           (\<forall>d\<in>set (site_domains e). dom_type d = 1 \<longrightarrow>
              (\<exists>re. regex_new (to_lowercase lo (dom_value d)) = Inr re))))"
  by (simp add: load_geosite_dat_def load_site_tags_ok_iff split: sum.splits)

lemma load_geosite_succeeds_iff_example:
  "\<exists>raw es. (\<lambda>_. Inr []) ''dlc.dat'' = (Inr raw :: string + bytes) \<and>
     (\<lambda>_. Inr demo_sites) raw = (Inr es :: string + geosite_entry list) \<and>
     (\<forall>tag\<in>set [''cn'']. \<exists>e. find_entry (\<lambda>_. []) site_code es tag = Some e \<and>
        (\<forall>d\<in>set (site_domains e). dom_type d = 1 \<longrightarrow>
           (\<exists>re. no_regex (to_lowercase (\<lambda>_. []) (dom_value d)) = Inr re)))"
  by (rule load_geosite_succeeds_iff [THEN iffD1]) (rule exI, rule demo_sites_load)

end
