(* ===== verification/Geo_Ip.thy ===== *)
theory Geo_Ip
  imports Geo_Site Ip_Addr
begin

text \<open>
  GeoIP ranges (\<open>client/src/geoip.rs\<close>): loading the CIDR ranges of some tags from a decoded
  GeoIP file. Parameters: \<open>decode_geoip\<close> is the protobuf decoder, \<open>net_new\<close> and \<open>net_contains\<close>
  are the crate ipnet (\<open>net_new (V4 a b c d) p\<close> is \<open>IpNet::V4(Ipv4Net::new(..))\<close>, and likewise
  for V6), with the contract \<open>ipnet_contract\<close>.
\<close>

datatype geoip_error =
    IpIo string
  | IpDecode string
  | IpTagNotFound string
  | InvalidCidr (ip_len: nat)

fun fmt_geoip_error :: "geoip_error \<Rightarrow> string" where
  "fmt_geoip_error (IpIo e) = ''failed to read geoip dat: '' @ e"
| "fmt_geoip_error (IpDecode msg) = ''failed to decode geoip dat: '' @ msg"
| "fmt_geoip_error (IpTagNotFound tag) =
     ''tag '' @ [CHR 0x27] @ tag @ [CHR 0x27] @ '' not found in geoip dat''"
| "fmt_geoip_error (InvalidCidr n) = ''unexpected IP byte length: '' @ show_nat n"

record geo_cidr =
  cidr_ip :: bytes
  cidr_prefix :: u32

record geoip_entry =
  ip_code :: string
  ip_cidrs :: "geo_cidr list"

text \<open>\<open>Ipv6Addr::from([u8; 16])\<close>\<close>

fun v6_from_octets :: "bytes \<Rightarrow> u16 list" where
  "v6_from_octets (a # b # bs) = u16_from_be_bytes a b # v6_from_octets bs"
| "v6_from_octets _ = []"

text \<open>The match on the length of the address; \<open>cidr.prefix as u8\<close> keeps the low eight bits.\<close>

definition load_cidr :: "(ip_addr \<Rightarrow> u8 \<Rightarrow> 'n option) \<Rightarrow> geo_cidr \<Rightarrow> geoip_error + 'n" where
  "load_cidr net_new cidr =
     (case cidr_ip cidr of
        [a, b, c, d] \<Rightarrow>
          (case net_new (V4 a b c d) (ucast (cidr_prefix cidr)) of
             Some n \<Rightarrow> Inr n
           | None \<Rightarrow> Inl (InvalidCidr 4))
      | ip \<Rightarrow>
          if length ip = 16 then
            (case net_new (V6 (v6_from_octets ip)) (ucast (cidr_prefix cidr)) of
               Some n \<Rightarrow> Inr n
             | None \<Rightarrow> Inl (InvalidCidr 16))
          else Inl (InvalidCidr (length ip)))"

fun load_cidrs :: "(ip_addr \<Rightarrow> u8 \<Rightarrow> 'n option) \<Rightarrow> geo_cidr list \<Rightarrow> 'n list \<Rightarrow> geoip_error + 'n list" where
  "load_cidrs net_new [] result = Inr result"
| "load_cidrs net_new (c # cs) result =
     (case load_cidr net_new c of
        Inl e \<Rightarrow> Inl e
      | Inr n \<Rightarrow> load_cidrs net_new cs (result @ [n]))"

fun load_ip_tags ::
  "(ip_addr \<Rightarrow> u8 \<Rightarrow> 'n option) \<Rightarrow> (string \<Rightarrow> string) \<Rightarrow> geoip_entry list \<Rightarrow> string list \<Rightarrow> 'n list
     \<Rightarrow> geoip_error + 'n list" where
  "load_ip_tags net_new up es [] result = Inr result"
| "load_ip_tags net_new up es (tag # tags) result =
     (case find_entry up ip_code es tag of
        None \<Rightarrow> Inl (IpTagNotFound tag)
      | Some e \<Rightarrow>
          (case load_cidrs net_new (ip_cidrs e) result of
             Inl err \<Rightarrow> Inl err
           | Inr result' \<Rightarrow> load_ip_tags net_new up es tags result'))"

text \<open>\<open>From<std::io::Error>\<close>, the conversion of the operator \<open>?\<close>.\<close>

definition geoip_error_from_io :: "string \<Rightarrow> geoip_error" where
  geoip_error_from_io_def [simp]: "geoip_error_from_io e = IpIo e"

definition load_geoip_dat ::
  "(string \<Rightarrow> string + bytes) \<Rightarrow> (bytes \<Rightarrow> string + geoip_entry list) \<Rightarrow> (ip_addr \<Rightarrow> u8 \<Rightarrow> 'n option)
     \<Rightarrow> (string \<Rightarrow> string) \<Rightarrow> string \<Rightarrow> string list \<Rightarrow> geoip_error + 'n list" where
  "load_geoip_dat read_file decode_geoip net_new up path tags =
     (case read_file path of
        Inl e \<Rightarrow> Inl (geoip_error_from_io e)
      | Inr bytes \<Rightarrow>
          (case decode_geoip bytes of
             Inl e \<Rightarrow> Inl (IpDecode e)
           | Inr es \<Rightarrow> load_ip_tags net_new up es tags []))"

subsection \<open>What a range means\<close>

fun ip_octets :: "ip_addr \<Rightarrow> bytes" where
  "ip_octets (V4 a b c d) = [a, b, c, d]"
| "ip_octets (V6 gs) = concat (map u16_to_be_bytes gs)"

text \<open>The bits of a byte string, most significant first.\<close>

definition addr_bits :: "bytes \<Rightarrow> bool list" where
  "addr_bits bs = concat (map (\<lambda>b. map (\<lambda>k. bit b (7 - k)) [0..<8]) bs)"

text \<open>The network \<open>base/p\<close>: addresses of the same length that agree on the first \<open>p\<close> bits.\<close>

definition in_network :: "bytes \<Rightarrow> nat \<Rightarrow> bytes \<Rightarrow> bool" where
  "in_network base p addr \<longleftrightarrow>
     length addr = length base \<and> take p (addr_bits addr) = take p (addr_bits base)"

definition ipnet_contract :: "(ip_addr \<Rightarrow> u8 \<Rightarrow> 'n option) \<Rightarrow> ('n \<Rightarrow> ip_addr \<Rightarrow> bool) \<Rightarrow> bool" where
  "ipnet_contract net_new net_contains \<longleftrightarrow>
     (\<forall>a p. (net_new a p = None \<longleftrightarrow> 8 * length (ip_octets a) < unat p)) \<and>
     (\<forall>a p n ip. net_new a p = Some n \<longrightarrow>
        (net_contains n ip \<longleftrightarrow> in_network (ip_octets a) (unat p) (ip_octets ip)))"

text \<open>A range of the file covers an address under the truncated prefix length.\<close>

definition cidr_covers :: "ip_addr \<Rightarrow> geo_cidr \<Rightarrow> bool" where
  "cidr_covers ip c \<longleftrightarrow>
     in_network (cidr_ip c) (unat (ucast (cidr_prefix c) :: u8)) (ip_octets ip)"

definition cidr_ok :: "geo_cidr \<Rightarrow> bool" where
  "cidr_ok c \<longleftrightarrow> length (cidr_ip c) \<in> {4, 16} \<and>
     unat (ucast (cidr_prefix c) :: u8) \<le> 8 * length (cidr_ip c)"

lemma octets_v6_from_octets: "even (length bs) \<Longrightarrow> ip_octets (V6 (v6_from_octets bs)) = bs"
  by (induction bs rule: v6_from_octets.induct) (auto simp: wire_simps)

lemma load_cidr_addr:
  "load_cidr net_new c =
     (if length (cidr_ip c) = 4 \<or> length (cidr_ip c) = 16 then
        (case net_new (if length (cidr_ip c) = 4
             then V4 (cidr_ip c ! 0) (cidr_ip c ! 1) (cidr_ip c ! 2) (cidr_ip c ! 3)
             else V6 (v6_from_octets (cidr_ip c))) (ucast (cidr_prefix c)) of
           Some n \<Rightarrow> Inr n
         | None \<Rightarrow> Inl (InvalidCidr (length (cidr_ip c))))
      else Inl (InvalidCidr (length (cidr_ip c))))"
  by (auto simp: load_cidr_def split: list.split option.split)

lemma cidr_addr_octets:
  assumes "length ip = 4 \<or> length ip = 16"
  shows "ip_octets (if length ip = 4 then V4 (ip ! 0) (ip ! 1) (ip ! 2) (ip ! 3)
     else V6 (v6_from_octets ip)) = ip"
proof (cases "length ip = 4")
  case True
  then obtain a b c d where "ip = [a, b, c, d]" by (auto simp: numeral_eq_Suc length_Suc_conv)
  then show ?thesis by simp
qed (use assms in \<open>simp add: octets_v6_from_octets del: ip_octets.simps\<close>)

lemma load_cidr_cases:
  assumes "ipnet_contract net_new net_contains"
  shows "(\<exists>n. load_cidr net_new c = Inr n \<and> cidr_ok c \<and> (\<forall>ip. net_contains n ip \<longleftrightarrow> cidr_covers ip c)) \<or>
     (load_cidr net_new c = Inl (InvalidCidr (length (cidr_ip c))) \<and> \<not> cidr_ok c)"
proof (cases "length (cidr_ip c) = 4 \<or> length (cidr_ip c) = 16")
  case True
  let ?a = "if length (cidr_ip c) = 4
     then V4 (cidr_ip c ! 0) (cidr_ip c ! 1) (cidr_ip c ! 2) (cidr_ip c ! 3)
     else V6 (v6_from_octets (cidr_ip c))"
  have eq: "load_cidr net_new c = (case net_new ?a (ucast (cidr_prefix c)) of
      Some n \<Rightarrow> Inr n | None \<Rightarrow> Inl (InvalidCidr (length (cidr_ip c))))"
    using True by (simp add: load_cidr_addr)
  have oct: "ip_octets ?a = cidr_ip c" using True by (rule cidr_addr_octets)
  show ?thesis
  proof (cases "net_new ?a (ucast (cidr_prefix c))")
    case None
    with assms have "8 * length (ip_octets ?a) < unat (ucast (cidr_prefix c) :: u8)"
      unfolding ipnet_contract_def by blast
    with None eq oct show ?thesis by (simp add: cidr_ok_def)
  next
    case (Some n)
    with assms have "\<not> 8 * length (ip_octets ?a) < unat (ucast (cidr_prefix c) :: u8)"
      "\<And>ip. net_contains n ip \<longleftrightarrow> in_network (ip_octets ?a) (unat (ucast (cidr_prefix c) :: u8)) (ip_octets ip)"
      unfolding ipnet_contract_def by (metis option.distinct(1), blast)
    with Some eq oct True show ?thesis by (auto simp: cidr_ok_def cidr_covers_def)
  qed
qed (auto simp: load_cidr_addr cidr_ok_def)

lemma load_cidrs_result:
  assumes "ipnet_contract net_new net_contains"
  shows "(\<exists>ns. load_cidrs net_new cs result = Inr ns \<and> list_all cidr_ok cs \<and>
       (\<forall>ip. (\<exists>n\<in>set ns. net_contains n ip) \<longleftrightarrow>
          (\<exists>n\<in>set result. net_contains n ip) \<or> (\<exists>c\<in>set cs. cidr_covers ip c))) \<or>
     ((\<exists>k. load_cidrs net_new cs result = Inl (InvalidCidr k)) \<and> \<not> list_all cidr_ok cs)"
proof (induction cs arbitrary: result)
  case (Cons c cs)
  consider n where "load_cidr net_new c = Inr n" "cidr_ok c"
      "\<And>ip. net_contains n ip \<longleftrightarrow> cidr_covers ip c"
    | "load_cidr net_new c = Inl (InvalidCidr (length (cidr_ip c)))" "\<not> cidr_ok c"
    using load_cidr_cases [OF assms, of c] by blast
  then show ?case
  proof cases
    case 1
    with Cons.IH [of "result @ [n]"] show ?thesis by (auto simp: bex_Un)
  qed auto
qed auto

lemma load_ip_tags_result:
  assumes "ipnet_contract net_new net_contains" and "load_ip_tags net_new up es tags result = Inr ns"
  shows "(\<exists>n\<in>set ns. net_contains n ip) \<longleftrightarrow> (\<exists>n\<in>set result. net_contains n ip) \<or>
     (\<exists>tag\<in>set tags. \<exists>e. find_entry up ip_code es tag = Some e \<and> (\<exists>c\<in>set (ip_cidrs e). cidr_covers ip c))"
  using assms(2)
proof (induction tags arbitrary: result)
  case (Cons tag tags)
  then obtain e r where e: "find_entry up ip_code es tag = Some e"
    and r: "load_cidrs net_new (ip_cidrs e) result = Inr r"
    and rest: "load_ip_tags net_new up es tags r = Inr ns"
    by (auto split: option.splits sum.splits)
  from load_cidrs_result [OF assms(1), of "ip_cidrs e" result] r
  have "(\<exists>n\<in>set r. net_contains n ip) \<longleftrightarrow>
      (\<exists>n\<in>set result. net_contains n ip) \<or> (\<exists>c\<in>set (ip_cidrs e). cidr_covers ip c)" by auto
  with Cons.IH [OF rest] e show ?case by auto
qed simp

lemma load_ip_tags_ok_iff:
  assumes "ipnet_contract net_new net_contains"
  shows "(\<exists>ns. load_ip_tags net_new up es tags result = Inr ns) \<longleftrightarrow>
     (\<forall>tag\<in>set tags. \<exists>e. find_entry up ip_code es tag = Some e \<and> list_all cidr_ok (ip_cidrs e))"
proof (induction tags arbitrary: result)
  case (Cons tag tags)
  show ?case
  proof (cases "find_entry up ip_code es tag")
    case (Some e)
    show ?thesis
    proof (cases "load_cidrs net_new (ip_cidrs e) result")
      case (Inl err)
      with load_cidrs_result [OF assms, of "ip_cidrs e" result] Some show ?thesis by auto
    next
      case (Inr r)
      with load_cidrs_result [OF assms, of "ip_cidrs e" result] Some Cons.IH [of r]
      show ?thesis by auto
    qed
  qed simp
qed simp

subsection \<open>Properties\<close>

text \<open>C39: given the behaviour of the crate ipnet, loading GeoIP tags succeeds exactly when the file
  reads and decodes, each tag has an entry, and all ranges there have a 4- or 16-byte address and
  a prefix length (in its low eight bits) that fits; then an address lies in one of the loaded
  networks exactly when it agrees with some range of the tags on the range's prefix bits.\<close>

theorem load_geoip_spec:
  assumes "ipnet_contract net_new net_contains"
  shows "((\<exists>ns. load_geoip_dat read_file decode_geoip net_new up path tags = Inr ns) \<longleftrightarrow>
      (\<exists>raw es. read_file path = Inr raw \<and> decode_geoip raw = Inr es \<and>
        (\<forall>tag\<in>set tags. \<exists>e. find_entry up ip_code es tag = Some e \<and> list_all cidr_ok (ip_cidrs e)))) \<and>
    (\<forall>ns ip. load_geoip_dat read_file decode_geoip net_new up path tags = Inr ns \<longrightarrow>
      ((\<exists>n\<in>set ns. net_contains n ip) \<longleftrightarrow>
        (\<exists>raw es. read_file path = Inr raw \<and> decode_geoip raw = Inr es \<and>
          (\<exists>tag\<in>set tags. \<exists>e. find_entry up ip_code es tag = Some e \<and>
             (\<exists>c\<in>set (ip_cidrs e). cidr_covers ip c)))))"
proof -
  have eq: "load_geoip_dat read_file decode_geoip net_new up path tags = Inr ns \<longleftrightarrow>
      (\<exists>raw es. read_file path = Inr raw \<and> decode_geoip raw = Inr es \<and> load_ip_tags net_new up es tags [] = Inr ns)"
    for ns
    by (simp add: load_geoip_dat_def split: sum.split)
  show ?thesis
    unfolding eq
    using load_ip_tags_ok_iff [OF assms, of up _ tags "[]"]
      load_ip_tags_result [OF assms, of up _ tags "[]"] by fastforce
qed

text \<open>A network as its base address and prefix length, which meets the contract.\<close>

definition pair_net :: "ip_addr \<Rightarrow> u8 \<Rightarrow> (bytes \<times> nat) option" where
  "pair_net a p = (if unat p \<le> 8 * length (ip_octets a) then Some (ip_octets a, unat p) else None)"

definition pair_contains :: "bytes \<times> nat \<Rightarrow> ip_addr \<Rightarrow> bool" where
  "pair_contains n ip = in_network (fst n) (snd n) (ip_octets ip)"

lemma pair_net_contract: "ipnet_contract pair_net pair_contains"
  by (auto simp: ipnet_contract_def pair_net_def pair_contains_def)

definition demo_ranges :: "geoip_entry list" where
  "demo_ranges = [\<lparr>ip_code = ''CN'', ip_cidrs = [\<lparr>cidr_ip = [10, 1, 0, 0], cidr_prefix = 16\<rparr>]\<rparr>]"

lemma demo_ranges_find:
  "find_entry (\<lambda>_. []) ip_code demo_ranges ''cn'' = Some (hd demo_ranges)"
  by (simp add: demo_ranges_def find_entry_def to_uppercase_def ascii_upper_def)
     (simp add: char_of_def bit_0)

theorem load_geoip_spec_witness:
  "\<exists>ns. load_geoip_dat (\<lambda>_. Inr []) (\<lambda>_. Inr demo_ranges) pair_net (\<lambda>_. []) ''geoip.dat'' [''cn''] = Inr ns \<and>
     (\<exists>n\<in>set ns. pair_contains n (V4 10 1 2 3)) \<and> \<not> (\<exists>n\<in>set ns. pair_contains n (V4 10 2 2 3))"
proof -
  note spec = load_geoip_spec [OF pair_net_contract, of "\<lambda>_. Inr []" "\<lambda>_. Inr demo_ranges"
      "\<lambda>_. []" "''geoip.dat''" "[''cn'']"]
  have "list_all cidr_ok (ip_cidrs (hd demo_ranges))"
    by (simp add: demo_ranges_def cidr_ok_def)
  then obtain ns where ns: "load_geoip_dat (\<lambda>_. Inr []) (\<lambda>_. Inr demo_ranges) pair_net (\<lambda>_. [])
      ''geoip.dat'' [''cn''] = Inr ns"
    using spec demo_ranges_find by auto
  have "cidr_covers (V4 10 1 2 3) (hd (ip_cidrs (hd demo_ranges)))"
    "\<not> cidr_covers (V4 10 2 2 3) (hd (ip_cidrs (hd demo_ranges)))"
    by (simp_all add: demo_ranges_def cidr_covers_def in_network_def addr_bits_def upt_rec)
  with ns spec demo_ranges_find show ?thesis by (auto simp: demo_ranges_def)
qed

text \<open>The prefix length of a range is truncated to eight bits before it is checked, so a range
  whose prefix is out of bounds, such as 280 for an IPv4 address, is loaded as a shorter one
  (here /24) instead of being reported as invalid.\<close>

lemma geoip_prefix_truncated:
  assumes "ipnet_contract net_new net_contains"
  shows "\<exists>n. load_cidr net_new \<lparr>cidr_ip = [a, b, c, d], cidr_prefix = 280\<rparr> = Inr n \<and>
     (\<forall>ip. net_contains n ip \<longleftrightarrow> in_network [a, b, c, d] 24 (ip_octets ip))"
  using load_cidr_cases [OF assms, of "\<lparr>cidr_ip = [a, b, c, d], cidr_prefix = 280\<rparr>"]
  by (auto simp: cidr_ok_def cidr_covers_def)

lemma geoip_prefix_truncated_example:
  "\<exists>n. load_cidr pair_net \<lparr>cidr_ip = [1, 2, 3, 0], cidr_prefix = 280\<rparr> = Inr n \<and>
     (\<forall>ip. pair_contains n ip \<longleftrightarrow> in_network [1, 2, 3, 0] 24 (ip_octets ip))"
  by (rule geoip_prefix_truncated [OF pair_net_contract])

end
