(* ===== verification/Host_Routing.thy ===== *)
theory Host_Routing
  imports Server_Dest Geo_Ip
begin

text \<open>
  The client's routing decision (\<open>client/src/lib.rs\<close>, section "Routing rules"): host patterns,
  the routing configuration and \<open>should_bypass\<close>, and the two ways in which request handlers
  split a \<open>host:port\<close> text before they ask for it. \<open>lo\<close> is the lower-case mapping of
  non-ASCII strings; \<open>is_match\<close> and \<open>net_contains\<close> are the crates regex and ipnet.
\<close>

subsection \<open>Host patterns\<close>

record host_pattern =
  pat_host :: string
  pat_port :: "u16 option"

definition host_pattern_parse :: "(string \<Rightarrow> string) \<Rightarrow> string \<Rightarrow> host_pattern" where
  "host_pattern_parse lo s0 =
     (let s = to_lowercase lo s0
      in case rsplit_once CHR '':'' s of
           Some (h, p) \<Rightarrow>
             (case parse_u16 p of
                Some port \<Rightarrow> \<lparr>pat_host = h, pat_port = Some port\<rparr>
              | None \<Rightarrow> \<lparr>pat_host = s, pat_port = None\<rparr>)
         | None \<Rightarrow> \<lparr>pat_host = s, pat_port = None\<rparr>)"

definition host_pattern_matches :: "host_pattern \<Rightarrow> string \<Rightarrow> u16 \<Rightarrow> bool" where
  "host_pattern_matches pat host port =
     (if (case pat_port pat of Some p \<Rightarrow> p \<noteq> port | None \<Rightarrow> False) then False
      else if starts_with (pat_host pat) ''*.'' then
        let suffix = drop 2 (pat_host pat)
        in ends_with host suffix \<and> length suffix < length host \<and>
           ends_with (take (length host - length suffix) host) ''.''
      else pat_host pat = host)"

subsection \<open>The decision\<close>

record ('re, 'n) routing_config =
  rc_proxy :: "host_pattern list"
  rc_bypass :: "host_pattern list"
  rc_geosite :: "'re geosite_matcher option"
  rc_cidrs :: "'n list"

definition routing_default :: "('re, 'n) routing_config" where
  "routing_default = \<lparr>rc_proxy = [], rc_bypass = [], rc_geosite = None, rc_cidrs = []\<rparr>"

text \<open>\<open>None\<close> is a panic of the GeoSite matcher.\<close>

definition should_bypass ::
  "(string \<Rightarrow> string) \<Rightarrow> ('re \<Rightarrow> string \<Rightarrow> bool) \<Rightarrow> ('n \<Rightarrow> ip_addr \<Rightarrow> bool)
     \<Rightarrow> ('re, 'n) routing_config \<Rightarrow> string \<Rightarrow> u16 \<Rightarrow> bool option" where
  "should_bypass lo is_match net_contains cfg host port =
     (let h = to_lowercase lo host
      in if list_ex (\<lambda>r. host_pattern_matches r h port) (rc_proxy cfg) then Some False
         else if list_ex (\<lambda>r. host_pattern_matches r h port) (rc_bypass cfg) then Some True
         else
           (case (case rc_geosite cfg of None \<Rightarrow> Some False | Some gs \<Rightarrow> geosite_matches is_match gs h) of
              None \<Rightarrow> None
            | Some True \<Rightarrow> Some True
            | Some False \<Rightarrow>
                Some (case parse_ip h of
                        Some ip \<Rightarrow> list_ex (\<lambda>n. net_contains n ip) (rc_cidrs cfg)
                      | None \<Rightarrow> False)))"

subsection \<open>Splitting the requested address\<close>

text \<open>The split of \<open>split_host_port\<close> (SOCKS5), which strips the brackets of IPv6 literals.\<close>

definition split_host_port :: "string \<Rightarrow> string \<times> u16" where
  "split_host_port addr =
     (case rsplit_once CHR '':'' addr of
        Some (h, p) \<Rightarrow>
          (trim_brackets h, case parse_u16 p of Some port \<Rightarrow> port | None \<Rightarrow> 80)
      | None \<Rightarrow> (addr, 80))"

text \<open>The split written out in both HTTP handlers, which keeps them.\<close>

definition http_host_port :: "string \<Rightarrow> string \<times> u16" where
  "http_host_port host =
     (case rsplit_once CHR '':'' host of
        Some (h, p) \<Rightarrow> (h, case parse_u16 p of Some port \<Rightarrow> port | None \<Rightarrow> 80)
      | None \<Rightarrow> (host, 80))"

text \<open>
  What both promise: the text after the last colon is the port, 80 when it is no port number or
  missing; they differ in what they do to the host part.
\<close>

locale host_port_split =
  fixes split :: "string \<Rightarrow> string \<times> u16"
    and bare :: "string \<Rightarrow> string"
  assumes split_colon: "CHR '':'' \<notin> set p \<Longrightarrow>
      split (h @ CHR '':'' # p) = (bare h, case parse_u16 p of Some port \<Rightarrow> port | None \<Rightarrow> 80)"
    and split_no_colon: "CHR '':'' \<notin> set s \<Longrightarrow> split s = (s, 80)"
begin

lemma split_port: "split (h @ '':'' @ show_u16 port) = (bare h, port)"
  using split_colon [of "show_u16 port" h] by simp

lemma split_bad_port: "CHR '':'' \<notin> set p \<Longrightarrow> parse_u16 p = None \<Longrightarrow> split (h @ '':'' @ p) = (bare h, 80)"
  by (simp add: split_colon)

lemma split_cases:
  obtains (colon) h p where "s = h @ '':'' @ p" "CHR '':'' \<notin> set p" "fst (split s) = bare h"
  | (plain) "CHR '':'' \<notin> set s" "split s = (s, 80)"
proof (cases "rsplit_once CHR '':'' s")
  case None
  then show ?thesis using plain split_no_colon by (simp add: rsplit_once_None_iff)
next
  case (Some hp)
  then obtain h p where "s = h @ '':'' @ p" "CHR '':'' \<notin> set p"
    by (cases hp) (auto simp: rsplit_once_Some_iff)
  then show ?thesis using colon split_colon by simp
qed

end

interpretation socks_split: host_port_split split_host_port trim_brackets
  by unfold_locales (auto simp: split_host_port_def rsplit_once_None_iff dest: rsplit_once_Some_iff [THEN iffD1]
      split: option.splits)

interpretation http_split: host_port_split http_host_port "\<lambda>h. h"
  by unfold_locales (auto simp: http_host_port_def rsplit_once_None_iff dest: rsplit_once_Some_iff [THEN iffD1]
      split: option.splits)

subsection \<open>Reference meaning\<close>

text \<open>A pattern \<open>*.s\<close> accepts the proper subdomains of \<open>s\<close>; any other accepts the equal host.\<close>

definition pattern_accepts :: "host_pattern \<Rightarrow> string \<Rightarrow> u16 \<Rightarrow> bool" where
  "pattern_accepts pat host port \<longleftrightarrow>
     (pat_port pat = None \<or> pat_port pat = Some port) \<and>
     ((\<exists>s sub. pat_host pat = ''*.'' @ s \<and> host = sub @ ''.'' @ s) \<or>
      (\<nexists>s. pat_host pat = ''*.'' @ s) \<and> host = pat_host pat)"

lemma wildcard_iff:
  "ends_with host s \<and> length s < length host \<and> ends_with (take (length host - length s) host) ''.''
     \<longleftrightarrow> (\<exists>sub. host = sub @ ''.'' @ s)"
proof
  assume a: "ends_with host s \<and> length s < length host \<and>
    ends_with (take (length host - length s) host) ''.''"
  then obtain t where t: "host = t @ s" by (auto simp: ends_with_iff)
  with a obtain u where "t = u @ ''.''" by (auto simp: ends_with_iff)
  with t show "\<exists>sub. host = sub @ ''.'' @ s" by auto
next
  assume "\<exists>sub. host = sub @ ''.'' @ s"
  then obtain sub where h: "host = sub @ ''.'' @ s" ..
  then have "take (length host - length s) host = sub @ ''.''" by simp
  moreover have "host = (sub @ ''.'') @ s" using h by simp
  ultimately show "ends_with host s \<and> length s < length host \<and>
      ends_with (take (length host - length s) host) ''.''"
    using ends_with_append [of "sub @ ''.''" s] ends_with_append [of sub "''.''"] by simp
qed

lemma host_pattern_matches_eq: "host_pattern_matches pat host port = pattern_accepts pat host port"
proof (cases "starts_with (pat_host pat) ''*.''")
  case True
  then obtain s where "pat_host pat = ''*.'' @ s" by (auto simp: starts_with_iff)
  with True show ?thesis
    using wildcard_iff [of host s]
    by (auto simp: host_pattern_matches_def pattern_accepts_def split: option.splits)
next
  case False
  then show ?thesis
    by (auto simp: host_pattern_matches_def pattern_accepts_def starts_with_iff split: option.splits)
qed

definition geosite_ok :: "('re, 'n) routing_config \<Rightarrow> bool" where
  "geosite_ok cfg \<longleftrightarrow>
     (case rc_geosite cfg of None \<Rightarrow> True | Some gs \<Rightarrow> list_all domain_rule_ok (domains gs))"

definition geosite_accepts ::
  "('re \<Rightarrow> string \<Rightarrow> bool) \<Rightarrow> ('re, 'n) routing_config \<Rightarrow> string \<Rightarrow> bool" where
  "geosite_accepts is_match cfg h \<longleftrightarrow>
     (case rc_geosite cfg of None \<Rightarrow> False | Some gs \<Rightarrow> accepts is_match gs h)"

lemma should_bypass_total:
  assumes "geosite_ok cfg"
  shows "should_bypass lo is_match net_contains cfg host port =
     Some (let h = to_lowercase lo host
       in \<not> (\<exists>r\<in>set (rc_proxy cfg). pattern_accepts r h port) \<and>
          ((\<exists>r\<in>set (rc_bypass cfg). pattern_accepts r h port) \<or> geosite_accepts is_match cfg h \<or>
           (\<exists>ip. parse_ip h = Some ip \<and> (\<exists>n\<in>set (rc_cidrs cfg). net_contains n ip))))"
  using assms
  by (auto simp: should_bypass_def Let_def host_pattern_matches_eq list_ex_iff geosite_ok_def
      geosite_accepts_def geosite_matches_accepts split: option.splits bool.splits)

subsection \<open>Parsing patterns\<close>

lemma host_pattern_parse_port:
  assumes "is_ascii h"
  shows "host_pattern_parse lo (h @ '':'' @ show_u16 port) =
     \<lparr>pat_host = map ascii_lower h, pat_port = Some port\<rparr>"
proof -
  have "map ascii_lower (show_u16 port) = show_u16 port"
    by (rule map_idI) (auto simp: show_u16_def ascii_lower_def Let_def dest: show_nat_range)
  moreover have "ascii_lower CHR '':'' = CHR '':''" by (simp add: ascii_lower_def)
  ultimately have "to_lowercase lo (h @ '':'' @ show_u16 port) = map ascii_lower h @ '':'' @ show_u16 port"
    using assms by (simp add: to_lowercase_def show_u16_def show_nat_ascii)
  then show ?thesis by (simp add: host_pattern_parse_def)
qed

lemma ascii_lower_colon: "ascii_lower c = CHR '':'' \<longleftrightarrow> c = CHR '':''"
proof
  assume "ascii_lower c = CHR '':''"
  then have "(of_char (ascii_lower c) :: nat) = 58" by simp
  then have "(of_char c :: nat) = 58" by (simp add: of_char_ascii_lower split: if_splits)
  then have "(of_char c :: nat) = of_char CHR '':''" by simp
  then show "c = CHR '':''" by (metis char_of_char)
qed (simp add: ascii_lower_def)

lemma host_pattern_parse_no_port:
  assumes "is_ascii h" "CHR '':'' \<notin> set h"
  shows "host_pattern_parse lo h = \<lparr>pat_host = map ascii_lower h, pat_port = None\<rparr>"
proof -
  have "CHR '':'' \<notin> set (map ascii_lower h)"
  proof
    assume "CHR '':'' \<in> set (map ascii_lower h)"
    then obtain c where "c \<in> set h" "ascii_lower c = CHR '':''" by auto
    with assms(2) show False by (auto simp: ascii_lower_colon)
  qed
  then have "rsplit_once CHR '':'' (map ascii_lower h) = None" by (simp add: rsplit_once_None_iff)
  with assms(1) show ?thesis by (simp add: host_pattern_parse_def to_lowercase_def)
qed

subsection \<open>Addresses and their routing\<close>

lemma split_host_port_ip: "ip_wf ip \<Longrightarrow> split_host_port (ip_host ip @ '':'' @ show_u16 port) = (show_ip ip, port)"
  using socks_split.split_port [of "ip_host ip" port] by (simp add: trim_brackets_ip_host)

lemma http_host_port_v6:
  "http_host_port (ip_host (V6 gs) @ '':'' @ show_u16 port) = (ip_host (V6 gs), port)"
  by (rule http_split.split_port)

lemma bracketed_not_ip: "parse_ip (''['' @ s) = None"
  by (rule parse_ip_name) (simp_all add: to_digit_def Let_def starts_with_def)

text \<open>The characters of a printed address: the dot, the digits, the colon and \<open>a\<close> to \<open>f\<close>.\<close>

definition ip_char :: "char \<Rightarrow> bool" where
  "ip_char c \<longleftrightarrow> (of_char c :: nat) \<in> {46..58} \<union> {97..102}"

lemma show_v4_ip_char: "c \<in> set (show_v4 a b d e) \<Longrightarrow> ip_char c"
  by (auto simp: ip_char_def dest!: show_v4_chars)

lemma fmt_subslice_ip_char: "c \<in> set (fmt_subslice gs) \<Longrightarrow> ip_char c"
  by (induction gs rule: fmt_subslice.induct) (auto simp: ip_char_def dest: show_hex_range)

lemma show_ip_ip_char: "c \<in> set (show_ip ip) \<Longrightarrow> ip_char c"
proof (cases ip)
  case (V6 gs)
  moreover have "ip_char CHR '':''" "ip_char CHR ''f''" by (simp_all add: ip_char_def)
  moreover assume "c \<in> set (show_ip ip)"
  ultimately show ?thesis
    by (auto simp: show_v6_def dest: show_v4_ip_char fmt_subslice_ip_char split: if_splits prod.splits)
qed (auto dest: show_v4_ip_char)

lemma to_lowercase_show_ip: "to_lowercase lo (show_ip ip) = show_ip ip"
proof -
  have "is_ascii (show_ip ip)"
    by (auto simp: is_ascii_def list_all_iff ip_char_def dest!: show_ip_ip_char)
  moreover have "ascii_lower c = c" if "c \<in> set (show_ip ip)" for c
    using show_ip_ip_char [OF that] by (auto simp: ip_char_def ascii_lower_def Let_def)
  ultimately show ?thesis by (auto simp: to_lowercase_def intro: map_idI)
qed

subsection \<open>Properties\<close>

text \<open>C21: the routing decision never panics on a configuration whose GeoSite rules are well formed,
  and follows the documented priority: the host, lower-cased, is connected directly exactly when
  no proxy rule matches it and a bypass rule, a GeoSite rule or (if it is an IP literal) a CIDR
  range does. A rule \<open>*.s\<close> matches proper subdomains of \<open>s\<close> only, any other rule the equal host,
  and a rule with a port that port only.\<close>

theorem should_bypass_priority:
  assumes "geosite_ok cfg"
  shows "should_bypass lo is_match net_contains cfg host port =
     Some (let h = to_lowercase lo host
       in \<not> (\<exists>r\<in>set (rc_proxy cfg). pattern_accepts r h port) \<and>
          ((\<exists>r\<in>set (rc_bypass cfg). pattern_accepts r h port) \<or> geosite_accepts is_match cfg h \<or>
           (\<exists>ip. parse_ip h = Some ip \<and> (\<exists>n\<in>set (rc_cidrs cfg). net_contains n ip))))"
  using assms by (rule should_bypass_total)

definition demo_routing :: "(string, bytes \<times> nat) routing_config" where
  "demo_routing = \<lparr>rc_proxy = [\<lparr>pat_host = ''*.foo.com'', pat_port = Some 443\<rparr>],
     rc_bypass = [\<lparr>pat_host = ''*.foo.com'', pat_port = None\<rparr>],
     rc_geosite = Some (geosite_default\<lparr>domains := [''.cn'']\<rparr>), rc_cidrs = [([10, 0, 0, 0], 8)]\<rparr>"

lemma demo_accepts:
  "pattern_accepts \<lparr>pat_host = ''*.foo.com'', pat_port = q\<rparr> ''a.foo.com'' port \<longleftrightarrow> q = None \<or> q = Some port"
  by (auto simp: pattern_accepts_def intro: exI [of _ "''a''"])

theorem should_bypass_priority_witness:
  "should_bypass (\<lambda>_. []) (\<lambda>_ _. False) pair_contains demo_routing ''A.foo.com'' 443 = Some False \<and>
   should_bypass (\<lambda>_. []) (\<lambda>_ _. False) pair_contains demo_routing ''A.foo.com'' 80 = Some True"
proof -
  have ok: "geosite_ok demo_routing"
    by (simp add: geosite_ok_def demo_routing_def domain_rule_ok_def starts_char_ascii)
  have "to_lowercase (\<lambda>_. []) ''A.foo.com'' = ''a.foo.com''"
    by (simp add: to_lowercase_def ascii_lower_def) (simp add: char_of_def bit_0)
  with should_bypass_priority [OF ok, of "\<lambda>_. []" "\<lambda>_ _. False" pair_contains "''A.foo.com''"]
  show ?thesis by (simp add: demo_routing_def demo_accepts)
qed

text \<open>For an IP address in the text form in which the SOCKS5 parser passes it on (IPv6 in
  brackets), the split before routing recovers the port and a bare host that parses to the
  address, so without host rules the CIDR ranges decide.\<close>

theorem socks_ip_routed_by_cidr:
  assumes "ip_wf ip" and "rc_proxy cfg = []" and "rc_bypass cfg = []" and "rc_geosite cfg = None"
  shows "(case split_host_port (ip_host ip @ '':'' @ show_u16 port) of
       (h, p) \<Rightarrow> p = port \<and>
         should_bypass lo is_match net_contains cfg h p =
           Some (\<exists>n\<in>set (rc_cidrs cfg). net_contains n ip))"
  using assms
  unfolding split_host_port_ip [OF assms(1)]
  by (simp add: should_bypass_total geosite_ok_def geosite_accepts_def to_lowercase_show_ip
      parse_show_ip)

theorem socks_ip_routed_by_cidr_witness:
  "case split_host_port (ip_host (V6 [0, 0, 0, 0, 0, 0, 0, 1]) @ '':'' @ show_u16 443) of
     (h, p) \<Rightarrow> p = 443 \<and>
       should_bypass (\<lambda>_. []) (\<lambda>_ _. False) pair_contains
         (routing_default\<lparr>rc_cidrs := [(replicate 15 0 @ [1], 128)]\<rparr> :: (string, bytes \<times> nat) routing_config)
         h p =
         Some (\<exists>n\<in>set [(replicate 15 0 @ [1], 128)]. pair_contains n (V6 [0, 0, 0, 0, 0, 0, 0, 1]))"
  using socks_ip_routed_by_cidr [of "V6 [0, 0, 0, 0, 0, 0, 0, 1]"
      "routing_default\<lparr>rc_cidrs := [(replicate 15 0 @ [1], 128)]\<rparr> :: (string, bytes \<times> nat) routing_config"
      443 "\<lambda>_. []" "\<lambda>_ _. False" pair_contains]
  by (simp add: routing_default_def)

text \<open>The HTTP handlers keep the brackets of an IPv6 literal when they split the host, so the bare
  host is no IP literal and no CIDR range applies to it, whereas the same target requested over
  SOCKS5 is looked up: the two front ends route IPv6 literals differently.\<close>

theorem http_ipv6_literal_ignores_cidrs:
  assumes "rc_proxy cfg = []" and "rc_bypass cfg = []" and "rc_geosite cfg = None"
  shows "should_bypass lo is_match net_contains cfg
     (fst (http_host_port (ip_host (V6 gs) @ '':'' @ show_u16 port))) port = Some False"
proof -
  have "(of_char c :: nat) < 128" if "c \<in> set (show_v6 gs)" for c
    using show_ip_ip_char [of c "V6 gs"] that by (auto simp: ip_char_def)
  then have "to_lowercase lo (''['' @ show_v6 gs @ '']'') = ''['' @ map ascii_lower (show_v6 gs @ '']'')"
    by (auto simp: to_lowercase_def ascii_lower_def is_ascii_def list_all_iff)
  then have "parse_ip (to_lowercase lo (''['' @ show_v6 gs @ '']'')) = None"
    using bracketed_not_ip by simp
  with assms show ?thesis
    using http_host_port_v6 [of gs port]
    by (simp add: should_bypass_total geosite_ok_def geosite_accepts_def)
qed

theorem http_ipv6_literal_ignores_cidrs_witness:
  "should_bypass (\<lambda>_. []) (\<lambda>_ _. False) pair_contains
     (routing_default\<lparr>rc_cidrs := [(replicate 15 0 @ [1], 128)]\<rparr> :: (string, bytes \<times> nat) routing_config)
     (fst (http_host_port (ip_host (V6 [0, 0, 0, 0, 0, 0, 0, 1]) @ '':'' @ show_u16 80))) 80 = Some False"
  by (rule http_ipv6_literal_ignores_cidrs) (simp_all add: routing_default_def)

text \<open>A rule text \<open>host:port\<close> parses to the lower-cased host with that port and a text without a
  colon to the host for any port; but a rule that is a bare IPv6 literal such as \<open>::1\<close> is split
  at its last colon, to host \<open>:\<close> and port 1, and so never matches that address.\<close>

theorem host_pattern_parse_cases:
  "(is_ascii h \<longrightarrow> host_pattern_parse lo (h @ '':'' @ show_u16 port) =
      \<lparr>pat_host = map ascii_lower h, pat_port = Some port\<rparr>) \<and>
   (is_ascii h \<and> CHR '':'' \<notin> set h \<longrightarrow>
      host_pattern_parse lo h = \<lparr>pat_host = map ascii_lower h, pat_port = None\<rparr>) \<and>
   host_pattern_parse lo ''::1'' = \<lparr>pat_host = '':'', pat_port = Some 1\<rparr> \<and>
   \<not> host_pattern_matches (host_pattern_parse lo ''::1'') ''::1'' p"
proof -
  have "show_u16 1 = ''1''"
    by (simp add: show_u16_def show_nat_def show_radix_small digit_char_def) (simp add: char_of_def bit_0)
  then have v6: "host_pattern_parse lo ''::1'' = \<lparr>pat_host = '':'', pat_port = Some 1\<rparr>"
    using host_pattern_parse_port [of "'':''" lo 1] by (simp add: ascii_lower_def)
  show ?thesis
    using host_pattern_parse_port host_pattern_parse_no_port
    by (simp add: v6 host_pattern_matches_def starts_with_def)
qed

theorem host_pattern_parse_cases_witness:
  "host_pattern_parse (\<lambda>_. []) (''Foo'' @ '':'' @ show_u16 8080) =
     \<lparr>pat_host = map ascii_lower ''Foo'', pat_port = Some 8080\<rparr> \<and>
   host_pattern_parse (\<lambda>_. []) ''Foo'' = \<lparr>pat_host = map ascii_lower ''Foo'', pat_port = None\<rparr>"
  using host_pattern_parse_cases [of "''Foo''" "\<lambda>_. []" 8080] by simp

end
