(* ===== verification/Socks5.thy ===== *)
theory Socks5
  imports Http_Request Host_Routing
begin

text \<open>
  The SOCKS5 front end (\<open>client/src/lib.rs\<close>, section "SOCKS5 helpers"): the reply messages and
  \<open>parse_socks5_request\<close>. The parser's value is the bytes it passed to \<open>write_all\<close>, in order,
  and its result with the bytes left unread; \<open>auth_ok\<close> is the result of writing the method
  selection, the only write whose failure matters.
\<close>

definition SOCKS5_VERSION :: u8 where "SOCKS5_VERSION = 0x05"
definition SOCKS5_AUTH_NO_AUTH :: u8 where "SOCKS5_AUTH_NO_AUTH = 0x00"
definition SOCKS5_AUTH_NO_ACCEPTABLE :: u8 where "SOCKS5_AUTH_NO_ACCEPTABLE = 0xFF"
definition SOCKS5_CMD_CONNECT :: u8 where "SOCKS5_CMD_CONNECT = 0x01"
definition SOCKS5_ATYP_IPV4 :: u8 where "SOCKS5_ATYP_IPV4 = 0x01"
definition SOCKS5_ATYP_DOMAIN :: u8 where "SOCKS5_ATYP_DOMAIN = 0x03"
definition SOCKS5_ATYP_IPV6 :: u8 where "SOCKS5_ATYP_IPV6 = 0x04"
definition SOCKS5_REP_SUCCESS :: u8 where "SOCKS5_REP_SUCCESS = 0x00"
definition SOCKS5_REP_GENERAL_FAILURE :: u8 where "SOCKS5_REP_GENERAL_FAILURE = 0x01"
definition SOCKS5_REP_CMD_NOT_SUPPORTED :: u8 where "SOCKS5_REP_CMD_NOT_SUPPORTED = 0x07"
definition SOCKS5_REP_ATYP_NOT_SUPPORTED :: u8 where "SOCKS5_REP_ATYP_NOT_SUPPORTED = 0x08"

lemmas socks_consts = SOCKS5_VERSION_def SOCKS5_AUTH_NO_AUTH_def SOCKS5_AUTH_NO_ACCEPTABLE_def
  SOCKS5_CMD_CONNECT_def SOCKS5_ATYP_IPV4_def SOCKS5_ATYP_DOMAIN_def SOCKS5_ATYP_IPV6_def
  SOCKS5_REP_SUCCESS_def SOCKS5_REP_GENERAL_FAILURE_def SOCKS5_REP_CMD_NOT_SUPPORTED_def
  SOCKS5_REP_ATYP_NOT_SUPPORTED_def

definition socks5_reply :: "u8 \<Rightarrow> bytes" where
  "socks5_reply rep = [SOCKS5_VERSION, rep, 0x00, SOCKS5_ATYP_IPV4, 0, 0, 0, 0, 0, 0]"

type_synonym 'a socks_out = "bytes \<times> ('a \<times> bytes) option await"

text \<open>\<open>read_exact(..).await.ok()?\<close>, with the bytes written so far.\<close>

definition with_read ::
  "bytes \<Rightarrow> (bytes \<times> bytes) option await \<Rightarrow> (bytes \<Rightarrow> bytes \<Rightarrow> 'a socks_out) \<Rightarrow> 'a socks_out" where
  "with_read written r k =
     (case r of
        Pending \<Rightarrow> (written, Pending)
      | Ready None \<Rightarrow> (written, Ready None)
      | Ready (Some (buf, rest)) \<Rightarrow> k buf rest)"

text \<open>The match on the address type: the host part of the destination.\<close>

definition socks_host :: "bytes \<Rightarrow> u8 \<Rightarrow> bytes \<Rightarrow> stream_end \<Rightarrow> string socks_out" where
  "socks_host written atyp bs fin =
     (if atyp = SOCKS5_ATYP_IPV4 then
        with_read written (read_exact 4 bs fin) (\<lambda>addr bs.
          (written, Ready (Some (show_v4 (addr ! 0) (addr ! 1) (addr ! 2) (addr ! 3), bs))))
      else if atyp = SOCKS5_ATYP_IPV6 then
        with_read written (read_exact 16 bs fin) (\<lambda>addr bs.
          (written, Ready (Some (''['' @ show_v6 (v6_from_octets addr) @ '']'', bs))))
      else if atyp = SOCKS5_ATYP_DOMAIN then
        with_read written (read_exact 1 bs fin) (\<lambda>len bs.
          with_read written (read_exact (unat (len ! 0)) bs fin) (\<lambda>domain bs.
            (written, Ready (case from_utf8 domain of Some s \<Rightarrow> Some (s, bs) | None \<Rightarrow> None))))
      else (written @ socks5_reply SOCKS5_REP_ATYP_NOT_SUPPORTED, Ready None))"

definition parse_socks5_request :: "bool \<Rightarrow> bytes \<Rightarrow> stream_end \<Rightarrow> string socks_out" where
  "parse_socks5_request auth_ok bs fin =
     with_read [] (read_exact 2 bs fin) (\<lambda>hdr bs.
       if hdr ! 0 \<noteq> SOCKS5_VERSION then ([], Ready None)
       else with_read [] (read_exact (unat (hdr ! 1)) bs fin) (\<lambda>methods bs.
         if SOCKS5_AUTH_NO_AUTH \<in> set methods then
           (let w = [SOCKS5_VERSION, SOCKS5_AUTH_NO_AUTH]
            in if \<not> auth_ok then (w, Ready None)
               else with_read w (read_exact 4 bs fin) (\<lambda>req bs.
                 if req ! 0 \<noteq> SOCKS5_VERSION then (w, Ready None)
                 else if req ! 1 \<noteq> SOCKS5_CMD_CONNECT then
                   (w @ socks5_reply SOCKS5_REP_CMD_NOT_SUPPORTED, Ready None)
                 else
                   (case socks_host w (req ! 3) bs fin of
                      (w', Ready (Some (host, bs))) \<Rightarrow>
                        with_read w' (read_exact 2 bs fin) (\<lambda>p bs.
                          (w', Ready (Some (host @ '':'' @ show_u16 (u16_from_be_bytes (p ! 0) (p ! 1)), bs))))
                    | other \<Rightarrow> other)))
         else ([SOCKS5_VERSION, SOCKS5_AUTH_NO_ACCEPTABLE], Ready None)))"

subsection \<open>Requests as a client builds them\<close>

datatype socks_target = TIp ip_addr | TDomain string

fun target_ok :: "socks_target \<Rightarrow> bool" where
  "target_ok (TIp ip) = ip_wf ip"
| "target_ok (TDomain d) = (valid_str d \<and> length d < 256)"

fun encode_target :: "socks_target \<Rightarrow> bytes" where
  "encode_target (TIp (V4 a b c d)) = [1, a, b, c, d]"
| "encode_target (TIp (V6 gs)) = 4 # ip_octets (V6 gs)"
| "encode_target (TDomain d) = 3 # of_nat (length d) # as_bytes d"

fun target_text :: "socks_target \<Rightarrow> string" where
  "target_text (TIp ip) = ip_host ip"
| "target_text (TDomain d) = d"

definition socks_greeting :: "bytes \<Rightarrow> bytes" where
  "socks_greeting methods = [5, of_nat (length methods)] @ methods"

definition socks_request :: "u8 \<Rightarrow> u8 \<Rightarrow> socks_target \<Rightarrow> u16 \<Rightarrow> bytes" where
  "socks_request cmd rsv target port = [5, cmd, rsv] @ encode_target target @ u16_to_be_bytes port"

lemma read_exact_append [simp]:
  "length xs = n \<Longrightarrow> read_exact n (xs @ rest) fin = Ready (Some (xs, rest))"
  by (simp add: read_exact_def)

lemma read_exact_Some:
  "read_exact n bs fin = Ready (Some (xs, rest)) \<longleftrightarrow> bs = xs @ rest \<and> length xs = n"
  by (auto simp: read_exact_def split: if_splits)

lemma with_read_Some:
  "with_read w r k = (v, Ready (Some x)) \<longleftrightarrow>
     (\<exists>buf rest. r = Ready (Some (buf, rest)) \<and> k buf rest = (v, Ready (Some x)))"
  by (auto simp: with_read_def split: await.splits option.splits)

lemma with_read_Ready [simp]: "with_read w (Ready (Some (buf, rest))) k = k buf rest"
  by (simp add: with_read_def)

lemma unat_of_nat_length: "n < 256 \<Longrightarrow> unat (of_nat n :: u8) = n"
  by (simp add: unat_of_nat)

lemma length_octets_v6 [simp]: "length (ip_octets (V6 gs)) = 2 * length gs"
  by (induction gs) auto

lemma v6_from_octets_octets [simp]: "v6_from_octets (ip_octets (V6 gs)) = gs"
  by (induction gs) (auto simp: u16_to_be_bytes_def wire_simps)

lemma length_v6_from_octets: "length (v6_from_octets bs) = length bs div 2"
  by (induction bs rule: v6_from_octets.induct) auto

lemma four_bytes: "length (xs :: bytes) = 4 \<Longrightarrow> xs = [xs ! 0, xs ! 1, xs ! 2, xs ! 3]"
  by (auto simp: numeral_eq_Suc length_Suc_conv)

lemma two_bytes: "length (xs :: bytes) = 2 \<Longrightarrow> xs = [xs ! 0, xs ! 1]"
  by (auto simp: numeral_eq_Suc length_Suc_conv)

lemma socks_host_encode:
  assumes "target_ok t" "encode_target t = atyp # addr"
  shows "socks_host w atyp (addr @ rest) fin = (w, Ready (Some (target_text t, rest)))"
proof (cases t rule: encode_target.cases)
  case (1 a b c d)
  with assms have "atyp = 1" "addr = [a, b, c, d]" by auto
  then show ?thesis
    using 1 read_exact_append [of "[a, b, c, d]" 4 rest fin] by (simp add: socks_host_def socks_consts)
next
  case (2 gs)
  with assms have "atyp = 4" "addr = ip_octets (V6 gs)" "length gs = 8" by auto
  with 2 show ?thesis
    using read_exact_append [of "ip_octets (V6 gs)" 16 rest fin]
    by (simp add: socks_host_def socks_consts del: ip_octets.simps)
next
  case (3 d)
  with assms show ?thesis
    using read_exact_append [of "[of_nat (length d)]" 1 "as_bytes d @ rest" fin]
    by (auto simp: socks_host_def socks_consts unat_of_nat_length from_utf8_as_bytes)
qed

lemma socks_host_Some:
  assumes "socks_host w atyp bs fin = (w', Ready (Some (h, rest)))"
  shows "w' = w \<and> (\<exists>t. target_ok t \<and> atyp # bs = encode_target t @ rest \<and> h = target_text t)"
proof -
  consider (v4) addr where "atyp = 1" "w' = w" "bs = addr @ rest" "length addr = 4"
      "h = show_v4 (addr ! 0) (addr ! 1) (addr ! 2) (addr ! 3)"
    | (v6) addr where "atyp = 4" "w' = w" "bs = addr @ rest" "length addr = 16"
      "h = ''['' @ show_v6 (v6_from_octets addr) @ '']''"
    | (dom) len dom where "atyp = 3" "w' = w" "bs = [len] @ dom @ rest" "length dom = unat len"
      "from_utf8 dom = Some h"
    using assms
    by (auto simp: socks_host_def socks_consts with_read_Some read_exact_Some length_Suc_conv
        split: if_splits option.splits)
  then show ?thesis
  proof cases
    case v4
    then have "addr = [addr ! 0, addr ! 1, addr ! 2, addr ! 3]" by (intro four_bytes)
    with v4 show ?thesis
      by (intro conjI exI [of _ "TIp (V4 (addr ! 0) (addr ! 1) (addr ! 2) (addr ! 3))"]) auto
  next
    case v6
    then have "ip_octets (V6 (v6_from_octets addr)) = addr" by (intro octets_v6_from_octets) simp
    with v6 show ?thesis
      by (intro conjI exI [of _ "TIp (V6 (v6_from_octets addr))"])
         (auto simp: length_v6_from_octets simp del: ip_octets.simps)
  next
    case dom
    then have "valid_str h" "dom = as_bytes h" by (auto simp: str_simps)
    with dom show ?thesis
      using unsigned_less [of len, where ?'a = nat]
      by (intro conjI exI [of _ "TDomain h"]) auto
  qed
qed

lemma socks_host_not_supported:
  "atyp \<notin> {1, 3, 4} \<Longrightarrow> socks_host w atyp bs fin = (w @ socks5_reply 8, Ready None)"
  by (simp add: socks_host_def socks_consts)

subsection \<open>Completeness and soundness of the parser\<close>

lemma parse_socks5_greeting:
  assumes "length methods < 256" "0 \<in> set methods"
  shows "parse_socks5_request True (socks_greeting methods @ bs) fin =
     with_read [5, 0] (read_exact 4 bs fin) (\<lambda>req bs.
       if req ! 0 \<noteq> 5 then ([5, 0], Ready None)
       else if req ! 1 \<noteq> 1 then ([5, 0] @ socks5_reply 7, Ready None)
       else (case socks_host [5, 0] (req ! 3) bs fin of
               (w', Ready (Some (host, bs))) \<Rightarrow>
                 with_read w' (read_exact 2 bs fin) (\<lambda>p bs.
                   (w', Ready (Some (host @ '':'' @ show_u16 (u16_from_be_bytes (p ! 0) (p ! 1)), bs))))
             | other \<Rightarrow> other))"
proof -
  have "read_exact 2 (socks_greeting methods @ bs) fin = Ready (Some ([5, of_nat (length methods)], methods @ bs))"
    using read_exact_append [of "[5, of_nat (length methods)]" 2 "methods @ bs" fin]
    by (simp add: socks_greeting_def)
  then show ?thesis
    unfolding parse_socks5_request_def socks_consts Let_def
    using assms by (simp add: unat_of_nat_length)
qed

lemma encode_target_Cons: "\<exists>atyp addr. encode_target t = atyp # addr"
  by (cases t rule: encode_target.cases) auto

lemma parse_socks5_complete:
  assumes "length methods < 256" "0 \<in> set methods" "target_ok t"
  shows "parse_socks5_request True (socks_greeting methods @ socks_request 1 rsv t port @ rest) fin =
     ([5, 0], Ready (Some (target_text t @ '':'' @ show_u16 port, rest)))"
proof -
  obtain atyp addr where t: "encode_target t = atyp # addr" using encode_target_Cons by blast
  let ?tail = "addr @ u16_to_be_bytes port @ rest"
  have "read_exact 4 (socks_request 1 rsv t port @ rest) fin = Ready (Some ([5, 1, rsv, atyp], ?tail))"
    using read_exact_append [of "[5, 1, rsv, atyp]" 4 ?tail fin] by (simp add: socks_request_def t)
  moreover have "socks_host [5, 0] atyp ?tail fin =
      ([5, 0], Ready (Some (target_text t, u16_to_be_bytes port @ rest)))"
    using assms(3) t by (rule socks_host_encode)
  moreover have "u16_from_be_bytes (u16_to_be_bytes port ! 0) (u16_to_be_bytes port ! 1) = port"
    by (simp add: u16_to_be_bytes_def wire_simps)
  ultimately show ?thesis
    using parse_socks5_greeting [OF assms(1,2)] read_exact_append [of "u16_to_be_bytes port" 2 rest fin]
    by simp
qed

lemma parse_socks5_sound:
  assumes "parse_socks5_request auth_ok bs fin = (w, Ready (Some (h, rest)))"
  shows "auth_ok \<and> w = [5, 0] \<and>
     (\<exists>methods rsv t port. length methods < 256 \<and> 0 \<in> set methods \<and> target_ok t \<and>
        bs = socks_greeting methods @ socks_request 1 rsv t port @ rest \<and>
        h = target_text t @ '':'' @ show_u16 port)"
proof -
  from assms obtain hdr methods req bs1 host p where auth: "auth_ok"
    and r: "bs = hdr @ methods @ req @ bs1" "length hdr = 2" "hdr ! 0 = 5" "length methods = unat (hdr ! 1)"
      "0 \<in> set methods" "length req = 4" "req ! 0 = 5" "req ! 1 = 1"
    and host: "socks_host [5, 0] (req ! 3) bs1 fin = (w, Ready (Some (host, p @ rest)))" "length p = 2"
    and h: "h = host @ '':'' @ show_u16 (u16_from_be_bytes (p ! 0) (p ! 1))"
    unfolding parse_socks5_request_def
    by (auto simp: socks_consts with_read_Some read_exact_Some Let_def
        split: if_splits prod.splits await.splits option.splits)
  from socks_host_Some [OF host(1)] obtain t where t: "w = [5, 0]" "target_ok t"
    "req ! 3 # bs1 = encode_target t @ p @ rest" "host = target_text t" by auto
  have "hdr = [5, of_nat (length methods)]" "length methods < 256"
    using two_bytes [OF r(2)] r(3,4) u8_less [of "hdr ! 1"] by auto
  moreover have "req = [5, 1, req ! 2, req ! 3]" using four_bytes [OF r(6)] r(7,8) by simp
  moreover have "p = u16_to_be_bytes (u16_from_be_bytes (p ! 0) (p ! 1))"
    using two_bytes [OF host(2)] by (simp add: wire_simps)
  ultimately have "bs = socks_greeting methods @
      socks_request 1 (req ! 2) t (u16_from_be_bytes (p ! 0) (p ! 1)) @ rest"
    using t(3) r(1) by (simp add: socks_greeting_def socks_request_def)
       (metis append_Cons append_Nil append.assoc)
  with t auth r(5) h \<open>length methods < 256\<close> show ?thesis by blast
qed

lemma parse_socks5_no_method:
  assumes "length methods < 256" "0 \<notin> set methods"
  shows "parse_socks5_request auth_ok (socks_greeting methods @ bs) fin = ([5, 0xFF], Ready None)"
proof -
  have "read_exact 2 (socks_greeting methods @ bs) fin = Ready (Some ([5, of_nat (length methods)], methods @ bs))"
    using read_exact_append [of "[5, of_nat (length methods)]" 2 "methods @ bs" fin]
    by (simp add: socks_greeting_def)
  then show ?thesis
    unfolding parse_socks5_request_def socks_consts Let_def
    using assms by (simp add: unat_of_nat_length)
qed

subsection \<open>Properties\<close>

text \<open>C24: the SOCKS5 parser returns a destination exactly for the inputs that are, up to the unread
  rest, a greeting that offers NO\_AUTH followed by a CONNECT request for an IPv4 address, an
  IPv6 address or a UTF-8 domain; it then has written the NO\_AUTH selection and nothing else,
  and the destination is the text of that target (IPv6 in brackets) and its port.\<close>

theorem parse_socks5_iff:
  "parse_socks5_request True bs fin = (w, Ready (Some (h, rest))) \<longleftrightarrow>
     w = [5, 0] \<and>
     (\<exists>methods rsv t port. length methods < 256 \<and> 0 \<in> set methods \<and> target_ok t \<and>
        bs = socks_greeting methods @ socks_request 1 rsv t port @ rest \<and>
        h = target_text t @ '':'' @ show_u16 port)"
proof
  assume "parse_socks5_request True bs fin = (w, Ready (Some (h, rest)))"
  from parse_socks5_sound [OF this] show "w = [5, 0] \<and>
     (\<exists>methods rsv t port. length methods < 256 \<and> 0 \<in> set methods \<and> target_ok t \<and>
        bs = socks_greeting methods @ socks_request 1 rsv t port @ rest \<and>
        h = target_text t @ '':'' @ show_u16 port)" by blast
qed (use parse_socks5_complete in fastforce)

text \<open>Each refusal of the SOCKS5 parser is answered as RFC 1928 asks, on every input with that
  prefix: no NO\_AUTH among the methods with method 0xFF, a command other than CONNECT with reply
  7, an unknown address type with reply 8; a wrong version is dropped without an answer.\<close>

theorem parse_socks5_errors:
  assumes "length methods < 256"
  shows "(0 \<notin> set methods \<longrightarrow>
        parse_socks5_request auth_ok (socks_greeting methods @ bs) fin = ([5, 0xFF], Ready None)) \<and>
     (0 \<in> set methods \<and> cmd \<noteq> 1 \<longrightarrow>
        parse_socks5_request True (socks_greeting methods @ [5, cmd, rsv, atyp] @ bs) fin =
          ([5, 0] @ socks5_reply SOCKS5_REP_CMD_NOT_SUPPORTED, Ready None)) \<and>
     (0 \<in> set methods \<and> atyp \<notin> {1, 3, 4} \<longrightarrow>
        parse_socks5_request True (socks_greeting methods @ [5, 1, rsv, atyp] @ bs) fin =
          ([5, 0] @ socks5_reply SOCKS5_REP_ATYP_NOT_SUPPORTED, Ready None)) \<and>
     (ver \<noteq> 5 \<longrightarrow> parse_socks5_request auth_ok ([ver, n] @ bs) fin = ([], Ready None))"
proof -
  have "read_exact 2 ([ver, n] @ bs) fin = Ready (Some ([ver, n], bs))"
    by (rule read_exact_append) simp
  then have "ver \<noteq> 5 \<longrightarrow> parse_socks5_request auth_ok ([ver, n] @ bs) fin = ([], Ready None)"
    unfolding parse_socks5_request_def socks_consts by simp
  moreover have "read_exact 4 ([5, c, rsv, atyp] @ bs) fin = Ready (Some ([5, c, rsv, atyp], bs))" for c
    using read_exact_append [of "[5, c, rsv, atyp]" 4 bs fin] by simp
  ultimately show ?thesis
    using parse_socks5_no_method [OF assms] parse_socks5_greeting [OF assms]
    by (simp add: socks_host_not_supported socks_consts)
qed

theorem parse_socks5_errors_witness:
  "parse_socks5_request True (socks_greeting [2] @ []) StillOpen = ([5, 0xFF], Ready None) \<and>
   parse_socks5_request True (socks_greeting [0] @ [5, 2, 0, 1] @ []) StillOpen =
     ([5, 0] @ socks5_reply SOCKS5_REP_CMD_NOT_SUPPORTED, Ready None) \<and>
   parse_socks5_request True (socks_greeting [0] @ [5, 1, 0, 9] @ []) StillOpen =
     ([5, 0] @ socks5_reply SOCKS5_REP_ATYP_NOT_SUPPORTED, Ready None)"
  using parse_socks5_errors [of "[2]" True "[]" StillOpen] parse_socks5_errors [of "[0]" True "[]" StillOpen 2 0 1]
    parse_socks5_errors [of "[0]" True "[]" StillOpen 2 0 9] by simp

text \<open>An IPv4 or IPv6 address requested over SOCKS5 reaches the routing decision as that address:
  the destination text the parser returns splits into the requested port and a bare host that
  parses back to the address.\<close>

theorem socks5_address_recovered:
  assumes "length methods < 256" and "0 \<in> set methods" and "ip_wf ip"
  shows "\<exists>dest. parse_socks5_request True (socks_greeting methods @ socks_request 1 rsv (TIp ip) port @ rest) fin =
       ([5, 0], Ready (Some (dest, rest))) \<and>
     snd (split_host_port dest) = port \<and> parse_ip (fst (split_host_port dest)) = Some ip"
proof (intro exI conjI)
  show "parse_socks5_request True (socks_greeting methods @ socks_request 1 rsv (TIp ip) port @ rest) fin =
      ([5, 0], Ready (Some (ip_host ip @ '':'' @ show_u16 port, rest)))"
    using parse_socks5_complete [of methods "TIp ip"] assms by simp
  show "snd (split_host_port (ip_host ip @ '':'' @ show_u16 port)) = port"
    "parse_ip (fst (split_host_port (ip_host ip @ '':'' @ show_u16 port))) = Some ip"
    unfolding split_host_port_ip [OF assms(3)] using parse_show_ip [OF assms(3)] by simp_all
qed

theorem socks5_address_recovered_witness:
  "\<exists>dest. parse_socks5_request True (socks_greeting [0] @ socks_request 1 0 (TIp (V4 10 0 0 1)) 443 @ []) Eof =
       ([5, 0], Ready (Some (dest, []))) \<and>
     snd (split_host_port dest) = 443 \<and> parse_ip (fst (split_host_port dest)) = Some (V4 10 0 0 1)"
  by (rule socks5_address_recovered) simp_all

end
