(* ===== verification/Client_Handlers.thy ===== *)
theory Client_Handlers
  imports Effects Socks5
begin

text \<open>
  The client's connection handlers (\<open>client/src/lib.rs\<close>): direct forwarding, forwarding through
  the mux with and without a deadline for the OPEN\_ACK, the SOCKS5 handlers, and the entry
  points that parse, route and dispatch. A handler maps the results of its awaits, collected in
  an environment, to the effects it performs; where it waits for a result that has not come, it
  has performed the effects up to there.
\<close>

subsection \<open>Environments\<close>

text \<open>The await for the OPEN\_ACK: a value, a closed channel, the deadline, or still waiting.\<close>

datatype ack_wait = AckGot bool | AckClosed | AckTimedOut | AckWaiting

record relay_env =
  close_ok :: bool                          \<comment> \<open>result of sending CLOSE\<close>
  reads :: "(read_result \<times> bool) list"     \<comment> \<open>reads from the client with the results of sending them\<close>

record mux_env = relay_env +
  data_cid :: cid                           \<comment> \<open>the channel \<open>register\<close> creates\<close>
  ack_cid :: cid                            \<comment> \<open>the one-shot channel for the OPEN\_ACK\<close>
  open_ok :: bool                           \<comment> \<open>result of sending OPEN\<close>
  ack_res :: ack_wait
  reply_ok :: bool                          \<comment> \<open>result of writing to the client\<close>
  data_ok :: bool                           \<comment> \<open>result of sending the request data\<close>

record direct_env =
  connect_ok :: bool
  direct_reply_ok :: bool
  request_ok :: bool                        \<comment> \<open>result of writing the request upstream\<close>
  up_reads :: "(read_result \<times> bool) list"  \<comment> \<open>reads from upstream, with the writes to the client\<close>

record proxy_request =
  pr_host :: string
  pr_is_connect :: bool
  pr_headers :: string
  pr_body :: bytes

definition bad_gateway :: bytes where
  "bad_gateway = as_bytes (''HTTP/1.1 502 Bad Gateway'' @ crlf @ ''Content-Length: 0'' @ crlf @ crlf)"

definition connection_established :: bytes where
  "connection_established = as_bytes (''HTTP/1.1 200 Connection established'' @ crlf @ crlf)"

subsection \<open>Direct connections\<close>

text \<open>
  The main loop of \<open>relay_tcp a b\<close> copies from \<open>b\<close> to \<open>a\<close>; the task it starts first copies
  from \<open>a\<close> to \<open>b\<close>.
\<close>

definition relay_tcp :: "(read_result \<times> bool) list \<Rightarrow> effect list" where
  "relay_tcp rs = ESpawnCopy # copy_loop ETcpWrite rs"

definition relay_tcp_task :: "(read_result \<times> bool) list \<Rightarrow> effect list" where
  "relay_tcp_task rs = copy_loop EUpWrite rs"

definition handle_direct :: "direct_env \<Rightarrow> proxy_request \<Rightarrow> effect list" where
  "handle_direct env req =
     ETcpConnect (pr_host req) (connect_ok env) #
     (if \<not> connect_ok env then [ETcpWrite bad_gateway (direct_reply_ok env)]
      else if pr_is_connect req then
        ETcpWrite connection_established (direct_reply_ok env) #
        (if direct_reply_ok env then relay_tcp (up_reads env) else [])
      else
        EUpWrite (as_bytes (pr_headers req) @ pr_body req) (request_ok env) #
        (if request_ok env then relay_tcp (up_reads env) else []))"

definition handle_socks_direct :: "direct_env \<Rightarrow> string \<Rightarrow> effect list" where
  "handle_socks_direct env host =
     ETcpConnect host (connect_ok env) #
     (if \<not> connect_ok env
      then [ETcpWrite (socks5_reply SOCKS5_REP_GENERAL_FAILURE) (direct_reply_ok env)]
      else ETcpWrite (socks5_reply SOCKS5_REP_SUCCESS) (direct_reply_ok env) # relay_tcp (up_reads env))"

subsection \<open>Connections through the mux\<close>

text \<open>\<open>do_mux_relay\<close> and the same code at the end of \<open>handle_via_mux\<close>.\<close>

definition do_mux_relay :: "'a mux_env_scheme \<Rightarrow> u32 \<Rightarrow> effect list" where
  "do_mux_relay env i = ESpawn i (data_cid env) # relay_reader i (close_ok env) (reads env)"

text \<open>Registering the stream and the one-shot channel, and sending OPEN.\<close>

definition open_stream :: "'a mux_env_scheme \<Rightarrow> u32 \<Rightarrow> string \<Rightarrow> effect list" where
  "open_stream env i host =
     [ERegistry (RegOp i (data_cid env)), EAckInsert i (ack_cid env), ESendFrame (Open i host) (open_ok env)]"

text \<open>
  The value of \<open>ok\<close> after the await: \<open>recv().await.unwrap_or(false)\<close> has no deadline, the other
  has. \<open>None\<close> while waiting.
\<close>

fun recv_ack :: "ack_wait \<Rightarrow> bool option" where
  "recv_ack (AckGot v) = Some v"
| "recv_ack AckClosed = Some False"
| "recv_ack _ = None"

fun recv_ack_timeout :: "ack_wait \<Rightarrow> bool option" where
  "recv_ack_timeout (AckGot v) = Some v"
| "recv_ack_timeout AckClosed = Some False"
| "recv_ack_timeout AckTimedOut = Some False"
| "recv_ack_timeout AckWaiting = None"

fun ack_value :: "ack_wait \<Rightarrow> bool option" where
  "ack_value (AckGot v) = Some v"
| "ack_value _ = None"

text \<open>The part of the HTTP handlers after a positive acknowledgement.\<close>

definition http_forward :: "'a mux_env_scheme \<Rightarrow> u32 \<Rightarrow> proxy_request \<Rightarrow> effect list" where
  "http_forward env i req =
     (if pr_is_connect req then
        ETcpWrite connection_established (reply_ok env) #
        (if reply_ok env then do_mux_relay env i else [ERegistry (CloseOp i)])
      else
        ESendFrame (Data i (as_bytes (pr_headers req) @ pr_body req)) (data_ok env) #
        (if data_ok env then do_mux_relay env i else [ERegistry (CloseOp i)]))"

definition handle_via_mux :: "'a mux_env_scheme \<Rightarrow> u32 \<Rightarrow> proxy_request \<Rightarrow> effect list" where
  "handle_via_mux env i req =
     open_stream env i (pr_host req) @
     (if \<not> open_ok env then [ERegistry (CloseOp i)]
      else
        (case recv_ack (ack_res env) of
           None \<Rightarrow> []
         | Some ok \<Rightarrow>
             EAckRecv (ack_cid env) (ack_value (ack_res env)) #
             (if \<not> ok then [ERegistry (CloseOp i), ETcpWrite bad_gateway (reply_ok env)]
              else http_forward env i req)))"

definition handle_via_mux_with_timeout :: "'a mux_env_scheme \<Rightarrow> u32 \<Rightarrow> proxy_request \<Rightarrow> effect list" where
  "handle_via_mux_with_timeout env i req =
     open_stream env i (pr_host req) @
     (if \<not> open_ok env then [ERegistry (CloseOp i)]
      else
        (case recv_ack_timeout (ack_res env) of
           None \<Rightarrow> []
         | Some ok \<Rightarrow>
             EAckRecv (ack_cid env) (ack_value (ack_res env)) #
             (if \<not> ok then [ERegistry (CloseOp i), ETcpWrite bad_gateway (reply_ok env)]
              else http_forward env i req)))"

definition handle_socks_via_mux_with_timeout :: "'a mux_env_scheme \<Rightarrow> u32 \<Rightarrow> string \<Rightarrow> effect list" where
  "handle_socks_via_mux_with_timeout env i host =
     open_stream env i host @
     (if \<not> open_ok env
      then [ERegistry (CloseOp i), ETcpWrite (socks5_reply SOCKS5_REP_GENERAL_FAILURE) (reply_ok env)]
      else
        (case recv_ack_timeout (ack_res env) of
           None \<Rightarrow> []
         | Some ok \<Rightarrow>
             EAckRecv (ack_cid env) (ack_value (ack_res env)) #
             (if \<not> ok
              then [ERegistry (CloseOp i), ETcpWrite (socks5_reply SOCKS5_REP_GENERAL_FAILURE) (reply_ok env)]
              else
                ETcpWrite (socks5_reply SOCKS5_REP_SUCCESS) (reply_ok env) #
                (if reply_ok env then do_mux_relay env i else [ERegistry (CloseOp i)]))))"

subsection \<open>Entry points\<close>

text \<open>What the entry points use besides the connection: the routing configuration and its crates.\<close>

record ('re, 'n) client_ctx =
  cx_lower :: "string \<Rightarrow> string"
  cx_is_match :: "'re \<Rightarrow> string \<Rightarrow> bool"
  cx_contains :: "'n \<Rightarrow> ip_addr \<Rightarrow> bool"
  cx_routing :: "('re, 'n) routing_config"

definition route_of :: "('re, 'n) client_ctx \<Rightarrow> string \<times> u16 \<Rightarrow> bool option" where
  "route_of cx hp =
     should_bypass (cx_lower cx) (cx_is_match cx) (cx_contains cx) (cx_routing cx) (fst hp) (snd hp)"

definition to_request :: "string \<times> string \<times> bytes \<Rightarrow> proxy_request" where
  "to_request r =
     (case r of (host, headers, body) \<Rightarrow>
        \<lparr>pr_host = host, pr_is_connect = starts_with headers ''CONNECT '', pr_headers = headers,
         pr_body = body\<rparr>)"

text \<open>
  The connection is what has arrived and how it goes on. A panic of the routing decision ends
  the task, as does a request that is not accepted.
\<close>

definition handle_local_connection ::
  "('re, 'n) client_ctx \<Rightarrow> direct_env \<Rightarrow> mux_env \<Rightarrow> u32 \<Rightarrow> bytes \<Rightarrow> stream_end \<Rightarrow> effect list" where
  "handle_local_connection cx denv menv i bs fin =
     (case parse_request_header bs fin of
        Ready (Some (r, _)) \<Rightarrow>
          let req = to_request r
          in (case route_of cx (http_host_port (pr_host req)) of
                None \<Rightarrow> []
              | Some True \<Rightarrow> handle_direct denv req
              | Some False \<Rightarrow> handle_via_mux menv i req)
      | _ \<Rightarrow> [])"

text \<open>
  The resilient entry points take a snapshot of the shared connection: \<open>None\<close> while it is being
  re-established, \<open>Some\<close> environment of a connection otherwise.
\<close>

definition handle_local_connection_resilient ::
  "('re, 'n) client_ctx \<Rightarrow> direct_env \<Rightarrow> mux_env option \<Rightarrow> bool \<Rightarrow> u32 \<Rightarrow> bytes \<Rightarrow> stream_end \<Rightarrow> effect list" where
  "handle_local_connection_resilient cx denv conn write_ok i bs fin =
     (case parse_request_header bs fin of
        Ready (Some (r, _)) \<Rightarrow>
          let req = to_request r
          in (case route_of cx (http_host_port (pr_host req)) of
                None \<Rightarrow> []
              | Some True \<Rightarrow> handle_direct denv req
              | Some False \<Rightarrow>
                  (case conn of
                     None \<Rightarrow> [ETcpWrite bad_gateway write_ok]
                   | Some menv \<Rightarrow> handle_via_mux_with_timeout menv i req))
      | _ \<Rightarrow> [])"

text \<open>The writes of the SOCKS5 parser are joined into one effect.\<close>

definition handle_socks_connection_resilient ::
  "('re, 'n) client_ctx \<Rightarrow> direct_env \<Rightarrow> mux_env option \<Rightarrow> bool \<Rightarrow> bool \<Rightarrow> u32 \<Rightarrow> bytes \<Rightarrow> stream_end
     \<Rightarrow> effect list" where
  "handle_socks_connection_resilient cx denv conn auth_ok write_ok i bs fin =
     (case parse_socks5_request auth_ok bs fin of
        (written, Ready (Some (host, _))) \<Rightarrow>
          ETcpWrite written True #
          (case route_of cx (split_host_port host) of
             None \<Rightarrow> []
           | Some True \<Rightarrow> handle_socks_direct denv host
           | Some False \<Rightarrow>
               (case conn of
                  None \<Rightarrow> [ETcpWrite (socks5_reply SOCKS5_REP_GENERAL_FAILURE) write_ok]
                | Some menv \<Rightarrow> handle_socks_via_mux_with_timeout menv i host))
      | ([], _) \<Rightarrow> []
      | (written, _) \<Rightarrow> [ETcpWrite written write_ok])"

subsection \<open>The contract of a mux handler\<close>

text \<open>
  The handlers that forward through the mux share a contract on the registry and on the frames
  they send. \<open>first_ok\<close> is the result of the step between the acknowledgement and the relay,
  \<open>preface\<close> the request data sent before it.
\<close>

definition handler_ends ::
  "(ack_wait \<Rightarrow> bool option) \<Rightarrow> bool \<Rightarrow> mux_env \<Rightarrow> bool" where
  "handler_ends recv first_ok env \<longleftrightarrow>
     \<not> open_ok env \<or> recv (ack_res env) = Some False \<or>
     recv (ack_res env) = Some True \<and> (\<not> first_ok \<or> relay_ends (reads env))"

locale mux_handler =
  fixes handle :: "mux_env \<Rightarrow> u32 \<Rightarrow> 'r \<Rightarrow> effect list"
    and dest :: "'r \<Rightarrow> string"
    and recv :: "ack_wait \<Rightarrow> bool option"
    and first_ok :: "mux_env \<Rightarrow> 'r \<Rightarrow> bool"
    and preface :: "'r \<Rightarrow> bytes option"
  assumes handle_ops:
      "reg_ops_of (handle env i r) =
         RegOp i (data_cid env) # (if handler_ends recv (first_ok env r) env then [CloseOp i] else [])"
    and handle_frames:
      "frames_of (handle env i r) =
         (if \<not> open_ok env then []
          else Open i (dest r) #
            (if recv (ack_res env) \<noteq> Some True \<or> \<not> first_ok env r then []
             else (case preface r of Some d \<Rightarrow> [Data i d] | None \<Rightarrow> []) @
                  frames_of (relay_reader i (close_ok env) (reads env))))"
    and recv_value: "recv (AckGot v) = Some v"
begin

text \<open>When a handler has ended its stream is unregistered; other streams are never touched.\<close>

lemma stream_released:
  "handler_ends recv (first_ok env r) env \<Longrightarrow>
     inner (reg.run_ops (reg_ops_of (handle env i r)) g) i = None"
  by (simp add: handle_ops registry_defs)

lemma stream_registered:
  "\<not> handler_ends recv (first_ok env r) env \<Longrightarrow>
     inner (reg.run_ops (reg_ops_of (handle env i r)) g) i = Some (data_cid env)"
  by (simp add: handle_ops registry_defs)

lemma other_streams:
  "j \<noteq> i \<Longrightarrow> inner (reg.run_ops (reg_ops_of (handle env i r)) g) j = inner g j"
  by (auto simp: handle_ops registry_defs)

lemma data_sent:
  assumes "open_ok env" "recv (ack_res env) = Some True" "first_ok env r"
  shows "data_bytes i (frames_of (handle env i r)) =
     (case preface r of Some d \<Rightarrow> d | None \<Rightarrow> []) @ relay_input (reads env)"
  using assms by (auto simp: handle_frames relay_reader_bytes split: option.split)

text \<open>Nothing but OPEN is sent unless the server acknowledged the stream.\<close>

lemma only_open_without_ack:
  "recv (ack_res env) \<noteq> Some True \<Longrightarrow> set (frames_of (handle env i r)) \<subseteq> {Open i (dest r)}"
  by (auto simp: handle_frames)

lemma own_frames:
  assumes "f \<in> set (frames_of (handle env i r))"
  shows "f = Open i (dest r) \<or> (\<exists>bs. f = Data i bs) \<or> f = Close i"
proof -
  have "f = Close i \<or> (\<exists>bs. f = Data i bs)"
    if "f \<in> set (frames_of (relay_reader i (close_ok env) (reads env)))"
    using that by (auto simp: relay_reader_frames split: if_splits)
  with assms show ?thesis by (auto simp: handle_frames split: if_splits option.splits)
qed

lemma open_first:
  "frames_of (handle env i r) = f # fs \<Longrightarrow> f = Open i (dest r) \<and> (\<forall>d. Open i d \<notin> set fs)"
  by (auto simp: handle_frames relay_reader_frames split: if_splits option.splits)

end

definition http_first_ok :: "mux_env \<Rightarrow> proxy_request \<Rightarrow> bool" where
  "http_first_ok env req = (if pr_is_connect req then reply_ok env else data_ok env)"

definition http_preface :: "proxy_request \<Rightarrow> bytes option" where
  "http_preface req = (if pr_is_connect req then None else Some (as_bytes (pr_headers req) @ pr_body req))"

lemmas mux_handler_defs = handle_via_mux_def handle_via_mux_with_timeout_def
  handle_socks_via_mux_with_timeout_def http_forward_def open_stream_def do_mux_relay_def
  handler_ends_def http_first_ok_def http_preface_def

interpretation http_mux: mux_handler handle_via_mux pr_host recv_ack http_first_ok http_preface
  by unfold_locales (auto simp: mux_handler_defs relay_reader_ops split: option.split)

interpretation http_mux_timeout:
  mux_handler handle_via_mux_with_timeout pr_host recv_ack_timeout http_first_ok http_preface
  by unfold_locales (auto simp: mux_handler_defs relay_reader_ops split: option.split)

interpretation socks_mux:
  mux_handler handle_socks_via_mux_with_timeout "\<lambda>host. host" recv_ack_timeout
    "\<lambda>env _. reply_ok env" "\<lambda>_. None"
  by unfold_locales (auto simp: mux_handler_defs relay_reader_ops split: option.split)

subsection \<open>Pending acknowledgements and connections made\<close>

text \<open>The table of pending acknowledgements after some effects.\<close>

fun pending_after :: "effect list \<Rightarrow> (u32 \<rightharpoonup> cid) \<Rightarrow> (u32 \<rightharpoonup> cid)" where
  "pending_after [] m = m"
| "pending_after (EAckInsert i a # es) m = pending_after es (m(i \<mapsto> a))"
| "pending_after (EAckDeliver i ok # es) m = pending_after es (m(i := None))"
| "pending_after (EAckClear # es) m = pending_after es Map.empty"
| "pending_after (_ # es) m = pending_after es m"

fun connects_of :: "effect list \<Rightarrow> string list" where
  "connects_of [] = []"
| "connects_of (ETcpConnect d ok # es) = d # connects_of es"
| "connects_of (_ # es) = connects_of es"

lemma connects_of_append [simp]: "connects_of (xs @ ys) = connects_of xs @ connects_of ys"
  by (induction xs rule: connects_of.induct) auto

lemma pending_after_append [simp]: "pending_after (xs @ ys) m = pending_after ys (pending_after xs m)"
proof (induction xs arbitrary: m)
  case (Cons e xs)
  then show ?case by (cases e) (simp_all add: fun_upd_def)
qed simp

lemma relay_quiet [simp]:
  "connects_of (relay_reader i ok rs) = []" "pending_after (relay_reader i ok rs) m = m"
  by (induction i ok rs rule: relay_reader.induct) (auto simp: relay_finish_def)

lemma copy_loop_no_connect [simp]: "connects_of (copy_loop ETcpWrite rs) = []"
  by (induction rs rule: relay_input.induct) auto

lemma mux_handlers_no_connect [simp]:
  "connects_of (handle_via_mux env i req) = []"
  "connects_of (handle_via_mux_with_timeout env i req) = []"
  "connects_of (handle_socks_via_mux_with_timeout env i host) = []"
  by (auto simp: mux_handler_defs split: option.split)

lemma direct_no_tunnel [simp]:
  "frames_of (handle_direct denv req) = []" "reg_ops_of (handle_direct denv req) = []"
  "frames_of (handle_socks_direct denv host) = []" "reg_ops_of (handle_socks_direct denv host) = []"
  by (auto simp: handle_direct_def handle_socks_direct_def relay_tcp_def)

lemma direct_connects [simp]:
  "connects_of (handle_direct denv req) = [pr_host req]"
  "connects_of (handle_socks_direct denv host) = [host]"
  by (auto simp: handle_direct_def handle_socks_direct_def relay_tcp_def)

subsection \<open>Properties\<close>

text \<open>C37: a request that the routing decision sends through the tunnel is never connected directly by
  the client, and one it sends directly puts no frame on the tunnel and is connected to its own
  destination: for the plain and the resilient HTTP entry point.\<close>

theorem http_routing_respected:
  assumes "parse_request_header bs fin = Ready (Some ((host, headers, body), rest))"
  shows "(route_of cx (http_host_port host) = Some False \<longrightarrow>
        connects_of (handle_local_connection cx denv menv i bs fin) = [] \<and>
        connects_of (handle_local_connection_resilient cx denv conn write_ok i bs fin) = []) \<and>
     (route_of cx (http_host_port host) = Some True \<longrightarrow>
        frames_of (handle_local_connection cx denv menv i bs fin) = [] \<and>
        connects_of (handle_local_connection cx denv menv i bs fin) = [host] \<and>
        frames_of (handle_local_connection_resilient cx denv conn write_ok i bs fin) = [] \<and>
        connects_of (handle_local_connection_resilient cx denv conn write_ok i bs fin) = [host])"
  using assms
  by (auto simp: handle_local_connection_def handle_local_connection_resilient_def to_request_def
      split: option.split)

definition demo_direct :: direct_env where
  "demo_direct = \<lparr>connect_ok = True, direct_reply_ok = True, request_ok = True, up_reads = []\<rparr>"

definition demo_mux :: mux_env where
  "demo_mux = \<lparr>close_ok = True, reads = [(ReadOk [7], True), (ReadOk [], True)], data_cid = 0, ack_cid = 1,
     open_ok = True, ack_res = AckGot True, reply_ok = True, data_ok = True\<rparr>"

definition demo_ctx :: "(string, bytes \<times> nat) client_ctx" where
  "demo_ctx = \<lparr>cx_lower = (\<lambda>s. s), cx_is_match = (\<lambda>_ _. False), cx_contains = pair_contains,
     cx_routing = routing_default\<rparr>"

lemma demo_ctx_route: "route_of demo_ctx hp = Some False"
  by (simp add: route_of_def demo_ctx_def should_bypass_def routing_default_def split: option.split)

theorem http_routing_respected_witness:
  "connects_of (handle_local_connection demo_ctx demo_direct demo_mux 1
     (as_bytes (concat demo_lines @ crlf) @ [] @ []) StillOpen) = []"
proof -
  have "parse_request_header (as_bytes (concat demo_lines @ crlf) @ [] @ []) StillOpen =
      Ready (Some ((''a.com:80'', concat demo_lines @ crlf, []), []))"
    using header_loop_lines [OF demo_lines_ok(1,2), of req_init "[]" StillOpen] demo_lines_ok
    by (simp add: parse_request_header_def req_init_def)
  from http_routing_respected [OF this] demo_ctx_route show ?thesis by blast
qed

text \<open>Once the server acknowledged a stream, the DATA bytes the handlers send for it are the
  request text and body as received (nothing for CONNECT and SOCKS5) followed by exactly what
  the relay read from the client, in order; without an acknowledgement only OPEN is sent.\<close>

theorem mux_handlers_data:
  assumes "open_ok env"
  shows "(recv_ack_timeout (ack_res env) = Some True \<and> http_first_ok env req \<longrightarrow>
        data_bytes i (frames_of (handle_via_mux_with_timeout env i req)) =
          (if pr_is_connect req then [] else as_bytes (pr_headers req) @ pr_body req) @ relay_input (reads env)) \<and>
     (recv_ack_timeout (ack_res env) = Some True \<and> reply_ok env \<longrightarrow>
        data_bytes i (frames_of (handle_socks_via_mux_with_timeout env i host)) = relay_input (reads env)) \<and>
     (recv_ack_timeout (ack_res env) \<noteq> Some True \<longrightarrow>
        frames_of (handle_via_mux_with_timeout env i req) = [Open i (pr_host req)] \<and>
        frames_of (handle_socks_via_mux_with_timeout env i host) = [Open i host])"
  using assms http_mux_timeout.data_sent [where env = env and r = req and i = i]
    socks_mux.data_sent [where env = env and r = host and i = i]
  by (auto simp: http_preface_def http_mux_timeout.handle_frames socks_mux.handle_frames)

theorem mux_handlers_data_witness:
  "data_bytes 1 (frames_of (handle_socks_via_mux_with_timeout demo_mux 1 ''a.com:80'')) = [7]"
  using mux_handlers_data [of demo_mux _ 1 "''a.com:80''"] by (simp add: demo_mux_def)

text \<open>C36: what the local program is told by the entry points of the resilient client, for a request that is
  accepted and routed to the tunnel, as far as its connection takes the answer. Without a tunnel, and
  when the stream is refused, the tunnel closes or the deadline passes, HTTP answers 502 and SOCKS5,
  after the answer to its greeting, general failure; on success CONNECT is answered 200 and SOCKS5
  success. When the OPEN cannot be sent, SOCKS5 reports the failure but HTTP says nothing. When the
  deadline passes, the handler that waits for the acknowledgement goes on with the close of its
  stream and the failure answer; the handler of the proxy without reconnection has no deadline and
  goes on waiting.\<close>

theorem tunnel_failures_reported:
  fixes denv :: direct_env and env :: mux_env and i :: u32 and write_ok :: bool
  assumes http: "parse_request_header bs fin = Ready (Some ((host, headers, body), rest))"
      "route_of cx (http_host_port host) = Some False"
    and socks: "parse_socks5_request True sbs sfin = (w, Ready (Some (dest, srest)))"
      "route_of cx (split_host_port dest) = Some False"
  defines "http_entry conn \<equiv> handle_local_connection_resilient cx denv conn write_ok i bs fin"
    and "socks_entry conn \<equiv> handle_socks_connection_resilient cx denv conn True write_ok i sbs sfin"
    and "http_plain e \<equiv> handle_local_connection cx denv e i bs fin"
  shows "tcp_written (http_entry None) = (if write_ok then bad_gateway else []) \<and>
     tcp_written (socks_entry None) = [5, 0] @ (if write_ok then socks5_reply SOCKS5_REP_GENERAL_FAILURE else []) \<and>
     tcp_written (http_entry (Some env)) =
       (if \<not> open_ok env \<or> \<not> reply_ok env then []
        else case ack_res env of
          AckWaiting \<Rightarrow> []
        | AckGot True \<Rightarrow> if starts_with headers ''CONNECT '' then connection_established else []
        | _ \<Rightarrow> bad_gateway) \<and>
     tcp_written (socks_entry (Some env)) = [5, 0] @
       (if \<not> reply_ok env then []
        else if \<not> open_ok env then socks5_reply SOCKS5_REP_GENERAL_FAILURE
        else case ack_res env of
          AckWaiting \<Rightarrow> []
        | AckGot True \<Rightarrow> socks5_reply SOCKS5_REP_SUCCESS
        | _ \<Rightarrow> socks5_reply SOCKS5_REP_GENERAL_FAILURE) \<and>
     (open_ok env \<and> ack_res env = AckWaiting \<longrightarrow>
        http_entry (Some (env\<lparr>ack_res := AckTimedOut\<rparr>)) = http_entry (Some env) @
          [EAckRecv (ack_cid env) None, ERegistry (CloseOp i), ETcpWrite bad_gateway (reply_ok env)] \<and>
        socks_entry (Some (env\<lparr>ack_res := AckTimedOut\<rparr>)) = socks_entry (Some env) @
          [EAckRecv (ack_cid env) None, ERegistry (CloseOp i),
           ETcpWrite (socks5_reply SOCKS5_REP_GENERAL_FAILURE) (reply_ok env)] \<and>
        http_plain (env\<lparr>ack_res := AckTimedOut\<rparr>) = http_plain env)"
proof -
  let ?req = "to_request (host, headers, body)"
  have entries: "http_entry None = [ETcpWrite bad_gateway write_ok]"
    "http_entry (Some e) = handle_via_mux_with_timeout e i ?req" "http_plain e = handle_via_mux e i ?req" for e
    using http by (simp_all add: http_entry_def http_plain_def handle_local_connection_resilient_def
        handle_local_connection_def to_request_def)
  have w: "w = [5, 0]" using parse_socks5_sound [OF socks(1)] by blast
  have socks_entries:
    "socks_entry None = [ETcpWrite [5, 0] True, ETcpWrite (socks5_reply SOCKS5_REP_GENERAL_FAILURE) write_ok]"
    "socks_entry (Some e) = ETcpWrite [5, 0] True # handle_socks_via_mux_with_timeout e i dest" for e
    using socks by (simp_all add: w socks_entry_def handle_socks_connection_resilient_def)
  have req: "pr_is_connect ?req = starts_with headers ''CONNECT ''" by (simp add: to_request_def)
  show ?thesis
    unfolding entries socks_entries
    by (auto simp: mux_handler_defs req split: ack_wait.split bool.split)
qed

text \<open>An HTTP and a SOCKS5 request whose OPEN the server does not answer in time.\<close>

definition demo_late :: mux_env where
  "demo_late = demo_mux\<lparr>ack_res := AckTimedOut\<rparr>"

definition demo_socks :: bytes where
  "demo_socks = socks_greeting [0] @ socks_request 1 0 (TIp (V4 1 2 3 4)) 80 @ []"

theorem tunnel_failures_reported_witness:
  "tcp_written (handle_local_connection_resilient demo_ctx demo_direct (Some demo_late) True 1
     (as_bytes (concat demo_lines @ crlf) @ [] @ []) StillOpen) = bad_gateway \<and>
   tcp_written (handle_socks_connection_resilient demo_ctx demo_direct (Some demo_late) True True 1 demo_socks StillOpen) =
     [5, 0] @ socks5_reply SOCKS5_REP_GENERAL_FAILURE"
proof -
  have "parse_request_header (as_bytes (concat demo_lines @ crlf) @ [] @ []) StillOpen =
      Ready (Some ((''a.com:80'', concat demo_lines @ crlf, []), []))"
    using header_loop_lines [OF demo_lines_ok(1,2), of req_init "[]" StillOpen] demo_lines_ok
    by (simp add: parse_request_header_def req_init_def)
  moreover have "parse_socks5_request True demo_socks StillOpen = ([5, 0],
      Ready (Some (target_text (TIp (V4 1 2 3 4)) @ '':'' @ show_u16 80, [])))"
    unfolding demo_socks_def by (rule parse_socks5_complete) simp_all
  moreover have "open_ok demo_late" "reply_ok demo_late" "ack_res demo_late = AckTimedOut"
    by (simp_all add: demo_late_def demo_mux_def)
  ultimately show ?thesis
    using tunnel_failures_reported [OF _ demo_ctx_route _ demo_ctx_route, where env = demo_late and denv = demo_direct
        and i = 1 and write_ok = True] by simp
qed

text \<open>The entry in the table of pending acknowledgements is removed only by the reader: a handler
  that gives up (OPEN not sent, or the deadline passed) leaves it behind, so it stays until the
  connection is dropped.\<close>

lemma pending_ack_left_behind:
  assumes "\<not> open_ok env \<or> ack_res env = AckTimedOut"
  shows "pending_after (handle_via_mux_with_timeout env i req) m i = Some (ack_cid env) \<and>
     pending_after (handle_socks_via_mux_with_timeout env i host) m i = Some (ack_cid env) \<and>
     handler_ends recv_ack_timeout (http_first_ok env req) env"
  using assms by (auto simp: mux_handler_defs)

lemma pending_ack_left_behind_example:
  "pending_after (handle_via_mux_with_timeout (demo_mux\<lparr>ack_res := AckTimedOut\<rparr>) 5
     \<lparr>pr_host = ''a.com:80'', pr_is_connect = True, pr_headers = [], pr_body = []\<rparr>) Map.empty 5 = Some 1"
  using pending_ack_left_behind [of "demo_mux\<lparr>ack_res := AckTimedOut\<rparr>" 5
      "\<lparr>pr_host = ''a.com:80'', pr_is_connect = True, pr_headers = [], pr_body = []\<rparr>" Map.empty]
  by (simp add: demo_mux_def)

end
