(* ===== verification/Client_Session.thy ===== *)
theory Client_Session
  imports Client_Handlers Server_Control
begin

text \<open>
  A mux session of the client (\<open>client/src/lib.rs\<close>): the control handshake, the accept loops
  with their stream ids, the reader loop and, as a step relation, the interleaving of reader,
  writer and request handlers on one connection.
\<close>

subsection \<open>The control handshake\<close>

definition with_slash :: "string \<Rightarrow> string" where
  "with_slash endpoint = (if ends_with endpoint ''/'' then endpoint else endpoint @ ''/'')"

definition control_url :: "string \<Rightarrow> string" where
  "control_url endpoint = with_slash endpoint @ ''control''"

definition mux_url :: "string \<Rightarrow> string" where
  "mux_url endpoint = with_slash endpoint @ ''mux''"

text \<open>
  The WebSocket request for a URL: \<open>parse_uri\<close>, \<open>uri_host\<close> and \<open>http_build\<close> are the crate http, \<open>key\<close> is the
  random key; \<open>None\<close> is a panic.
\<close>

record http_request =
  hr_uri :: string
  hr_headers :: "(string \<times> string) list"

definition build_request ::
  "(string \<Rightarrow> 'uri option) \<Rightarrow> ('uri \<Rightarrow> string option) \<Rightarrow> (http_request \<Rightarrow> 'e + 'r) \<Rightarrow> string \<Rightarrow> string
     \<Rightarrow> ('e + 'r) option" where
  "build_request parse_uri uri_host http_build key url_str =
     (case parse_uri url_str of
        None \<Rightarrow> None
      | Some uri \<Rightarrow>
          (case uri_host uri of
             None \<Rightarrow> None
           | Some host \<Rightarrow>
               Some (http_build
                 \<lparr>hr_uri = url_str,
                  hr_headers = [(''Host'', host), (''Connection'', ''Upgrade''), (''Upgrade'', ''websocket''),
                    (''Sec-WebSocket-Version'', ''13''), (''Sec-WebSocket-Key'', key)]\<rparr>)))"

text \<open>
  On the wire the request has its header values, so the server's peek recognises an upgrade and runs
  the handshake, whichever bytes the key has.
\<close>

definition shows_headers :: "(http_request \<Rightarrow> bytes) \<Rightarrow> bool" where
  "shows_headers render \<longleftrightarrow>
     (\<forall>r. \<forall>(n, v) \<in> set (hr_headers r). contains_str (render r) (as_bytes v))"

lemma build_request_is_websocket:
  assumes "shows_headers render" "build_request parse_uri uri_host (\<lambda>r. Inr (render r)) key url = Some (Inr bs)"
  shows "is_websocket bs"
proof -
  obtain r where r: "bs = render r" "(''Upgrade'', ''websocket'') \<in> set (hr_headers r)"
    using assms(2) by (auto simp: build_request_def split: option.split_asm)
  with assms(1) have "contains_str bs (as_bytes ''websocket'')" unfolding shows_headers_def by blast
  then obtain t u where "bs = t @ as_bytes ''websocket'' @ u" by (auto simp: contains_str_iff)
  then have "map ascii_lower (of_bytes bs) =
      map ascii_lower (of_bytes t) @ map ascii_lower (of_bytes (as_bytes ''websocket'')) @ map ascii_lower (of_bytes u)"
    by (simp add: of_bytes_def)
  moreover have "map ascii_lower ''websocket'' = ''websocket''" by code_simp
  ultimately show ?thesis by (auto simp: is_websocket_def contains_str_iff)
qed

lemma client_connections_dispatched:
  assumes "is_websocket bs" "bs \<noteq> []"
  shows "accept_connection (Some bs) (\<lambda>ok. if ok ''/control'' then Some ''/control'' else None) = RunControl"
    and "accept_connection (Some bs) (\<lambda>ok. if ok ''/mux'' then Some ''/mux'' else None) = RunMux"
  using assms by (simp_all add: accept_connection_def path_allowed_def ends_with_def)

definition hello_text :: "string \<Rightarrow> string \<Rightarrow> string" where
  "hello_text version user = ''Hello:'' @ version @ '':'' @ user"

text \<open>
  The results of the awaits are arguments: connecting, sending, flushing, and the first item of
  the stream (\<open>None\<close> when it ends). \<open>to_text\<close> is the conversion of the WebSocket library.
\<close>

definition obtain_token_with_version ::
  "(ws_message \<Rightarrow> string option) \<Rightarrow> bool \<Rightarrow> bool \<Rightarrow> bool \<Rightarrow> ws_item option \<Rightarrow> string option" where
  "obtain_token_with_version to_text connects sends flushes answer =
     (if \<not> connects \<or> \<not> sends \<or> \<not> flushes then None
      else
        (case answer of
           Some (Some msg) \<Rightarrow>
             (case to_text msg of
                Some text \<Rightarrow> strip_prefix text ''Hi:''
              | None \<Rightarrow> None)
         | _ \<Rightarrow> None))"

subsection \<open>Accept loops\<close>

text \<open>\<open>next_id.fetch_add(1)\<close> returns the counter and adds one, modulo \<open>2^32\<close>.\<close>

fun run_proxy_accepts :: "u32 \<Rightarrow> 's accept_event list \<Rightarrow> (u32 \<times> 's) list \<times> bool option" where
  "run_proxy_accepts next_id [] = ([], None)"
| "run_proxy_accepts next_id (AcceptOk s # es) =
     (let (hs, r) = run_proxy_accepts (next_id + 1) es in ((next_id, s) # hs, r))"
| "run_proxy_accepts next_id (AcceptErr # es) = ([], Some False)"
| "run_proxy_accepts next_id (ShutdownRecv # es) = ([], Some True)"

text \<open>
  The proxy without reconnection: the mux connection and its HELLO first, then the accept loop.
  The result is the messages sent, the connections handed out with their ids, and the return
  value, if it returns.
\<close>

definition run_proxy_with_routing ::
  "bool \<Rightarrow> bool \<Rightarrow> string \<Rightarrow> 's accept_event list \<Rightarrow> ws_message list \<times> (u32 \<times> 's) list \<times> bool option" where
  "run_proxy_with_routing connects hello_ok token events =
     (if \<not> connects then ([], [], Some False)
      else
        let hello = WsBinary (encode (Hello token))
        in if \<not> hello_ok then ([hello], [], Some False)
           else ([hello], run_proxy_accepts 1 events))"

text \<open>
  The resilient proxy has an HTTP loop and, in a task of its own, a SOCKS5 loop, which share the
  counter. The result of the function is that of the HTTP loop, which also signals the keeper to
  stop; the SOCKS5 task ends only with an error of its listener.
\<close>

datatype 's listener_event = HttpAccept 's | HttpErr | SocksAccept 's | SocksErr | Shutdown

datatype 's dispatched = HttpConn u32 's | SocksConn u32 's | StopKeeper

fun run_proxy_resilient_accepts ::
  "bool \<Rightarrow> bool \<Rightarrow> u32 \<Rightarrow> 's listener_event list \<Rightarrow> 's dispatched list" where
  "run_proxy_resilient_accepts http socks next_id [] = []"
| "run_proxy_resilient_accepts http socks next_id (e # es) =
     (case e of
        HttpAccept s \<Rightarrow>
          if http then HttpConn next_id s # run_proxy_resilient_accepts http socks (next_id + 1) es
          else run_proxy_resilient_accepts http socks next_id es
      | HttpErr \<Rightarrow>
          if http then StopKeeper # run_proxy_resilient_accepts False socks next_id es
          else run_proxy_resilient_accepts http socks next_id es
      | Shutdown \<Rightarrow>
          if http then StopKeeper # run_proxy_resilient_accepts False socks next_id es
          else run_proxy_resilient_accepts http socks next_id es
      | SocksAccept s \<Rightarrow>
          if socks then SocksConn next_id s # run_proxy_resilient_accepts http socks (next_id + 1) es
          else run_proxy_resilient_accepts http socks next_id es
      | SocksErr \<Rightarrow> run_proxy_resilient_accepts http False next_id es)"

fun conn_id :: "'s dispatched \<Rightarrow> u32 list" where
  "conn_id (HttpConn i s) = [i]"
| "conn_id (SocksConn i s) = [i]"
| "conn_id StopKeeper = []"

lemma accept_ids:
  "map fst (fst (run_proxy_accepts n es)) =
     map (\<lambda>k. n + of_nat k) [0..<length (fst (run_proxy_accepts n es))]"
proof (induction n es rule: run_proxy_accepts.induct)
  case (2 n s es)
  then show ?case
    by (simp add: split_beta map_upt_Suc add.assoc [symmetric] del: upt_Suc)
qed auto

lemma resilient_ids:
  "concat (map conn_id (run_proxy_resilient_accepts h s n es)) =
     map (\<lambda>k. n + of_nat k) [0..<length (concat (map conn_id (run_proxy_resilient_accepts h s n es)))]"
proof (induction es arbitrary: h s n)
  case (Cons e es)
  have "concat (map conn_id (run_proxy_resilient_accepts h s (n + 1) es)) =
      map (\<lambda>k. n + 1 + of_nat k) [0..<length (concat (map conn_id (run_proxy_resilient_accepts h s (n + 1) es)))]"
    by (rule Cons.IH)
  then show ?case
    using Cons.IH
    by (simp add: map_upt_Suc add.assoc [symmetric] del: upt_Suc split: listener_event.split)
qed simp

lemma ids_distinct:
  assumes "m \<le> 2 ^ 32"
  shows "distinct (map (\<lambda>k. n + of_nat k :: u32) [0..<m])"
proof -
  have "inj_on (\<lambda>k. n + of_nat k :: u32) {0..<m}"
  proof (rule inj_onI)
    fix j k assume "j \<in> {0..<m}" "k \<in> {0..<m}" "n + of_nat j = n + (of_nat k :: u32)"
    then have "(of_nat j :: u32) = of_nat k" "j < 2 ^ 32" "k < 2 ^ 32" using assms by auto
    then have "unat (of_nat j :: u32) = unat (of_nat k :: u32)" by simp
    with \<open>j < 2 ^ 32\<close> \<open>k < 2 ^ 32\<close> show "j = k" by (simp add: unat_of_nat)
  qed
  then show ?thesis by (simp add: distinct_map)
qed

subsection \<open>The reader loop\<close>

definition client_dispatch :: "ws_item \<Rightarrow> effect list option" where
  "client_dispatch item =
     (case item of
        Some (WsBinary data) \<Rightarrow>
          Some (case decode data of
                  Inr (OpenAck i ok) \<Rightarrow> [EAckDeliver i ok]
                | Inr (Data i bs) \<Rightarrow> [ERegistry (RouteOp i bs)]
                | Inr (Close i) \<Rightarrow> [ERegistry (CloseOp i)]
                | _ \<Rightarrow> [])
      | Some (WsPing p) \<Rightarrow> Some []
      | _ \<Rightarrow> None)"

definition reader_end :: "effect list" where
  "reader_end = [ERegistry CloseAllOp, EAckClear]"

fun run_client_reader :: "ws_item list \<Rightarrow> effect list" where
  "run_client_reader [] = reader_end"
| "run_client_reader (item # items) =
     (case client_dispatch item of
        None \<Rightarrow> reader_end
      | Some es \<Rightarrow> es @ run_client_reader items)"

lemma run_client_reader_ends: "\<exists>es. run_client_reader items = es @ reader_end"
  by (induction items) (auto split: option.split)

lemma run_client_reader_clears:
  "pending_after (run_client_reader items) m = Map.empty \<and>
   inner (reg.run_ops (reg_ops_of (run_client_reader items)) g) = Map.empty"
proof -
  obtain es where "run_client_reader items = es @ reader_end" using run_client_reader_ends by blast
  then show ?thesis by (simp add: reader_end_def reg.run_ops_append close_all_def)
qed

subsection \<open>Properties\<close>

text \<open>Both accept loops number the connections they hand out 1, 2, 3, ... modulo \<open>2^32\<close>, in the
  order of acceptance (HTTP and SOCKS5 connections share the sequence), so no two among any
  \<open>2^32\<close> consecutive ones share an id; the \<open>2^32\<close>-th connection gets id 0, which the protocol
  reserves for HELLO.\<close>

theorem accept_loop_ids:
  "map fst (fst (run_proxy_accepts 1 es)) =
     map (\<lambda>k. 1 + of_nat k) [0..<length (fst (run_proxy_accepts 1 es))] \<and>
   concat (map conn_id (run_proxy_resilient_accepts http socks 1 evs)) =
     map (\<lambda>k. 1 + of_nat k) [0..<length (concat (map conn_id (run_proxy_resilient_accepts http socks 1 evs)))] \<and>
   distinct (map (\<lambda>k. 1 + of_nat k :: u32) [0..<2 ^ 32]) \<and>
   (1 + of_nat (2 ^ 32 - 1) :: u32) = 0"
proof (intro conjI)
  show "(1 + of_nat (2 ^ 32 - 1) :: u32) = 0" by simp
qed (rule accept_ids resilient_ids, rule accept_ids resilient_ids, rule ids_distinct, rule le_refl)

text \<open>
  A shutdown (or an error of the HTTP listener) stops the HTTP loop and the keeper, but not the
  SOCKS5 loop: every connection that reaches the SOCKS5 listener afterwards is still handed out.
\<close>

fun socks_of :: "'s listener_event \<Rightarrow> 's list" where
  "socks_of (SocksAccept s) = [s]"
| "socks_of _ = []"

fun socks_handed :: "'s dispatched \<Rightarrow> 's list" where
  "socks_handed (SocksConn i s) = [s]"
| "socks_handed _ = []"

lemma socks_loop_runs:
  "SocksErr \<notin> set es \<Longrightarrow>
     concat (map socks_handed (run_proxy_resilient_accepts http True n es)) = concat (map socks_of es)"
  by (induction es arbitrary: http n) (auto split: listener_event.split)

lemma socks_loop_survives_shutdown:
  assumes "SocksErr \<notin> set es"
  shows "concat (map socks_handed (run_proxy_resilient_accepts True True n (Shutdown # es))) =
     concat (map socks_of es)"
  using socks_loop_runs [of "Shutdown # es" True n] assms by simp

end
