(* ===== verification/Client_Mux.thy ===== *)
theory Client_Mux
  imports Client_Session
begin

text \<open>
  One mux connection of the client as a step relation: the reader loop, the writer loop, the
  request handlers of \<open>Client_Handlers\<close> and the keeper's \<open>close\<close> interleave on the shared
  registry, table of pending acknowledgements and frame channel.
\<close>

subsection \<open>State and steps\<close>

text \<open>
  Besides the shared state: the unread input, the pending effects of the reader, the running
  handlers with the effects they will perform, the content of the one-shot ack channels, the
  frames accepted by the frame channel, the values accepted by each stream channel, and the
  channels whose receiver was dropped. History: \<open>c_ids\<close> are the stream ids of the handlers that ran
  on the connection, \<open>c_owner\<close> and \<open>c_ackowner\<close> record for which stream a channel was made, and
  \<open>c_unread\<close> the input that was unread when a channel was registered.
\<close>

record cl_session =
  c_reg :: registry
  c_acks :: "u32 \<rightharpoonup> cid"
  c_ackq :: "cid \<Rightarrow> bool option"
  c_in :: "ws_item list"
  c_todo :: "effect list"
  c_reading :: bool
  c_tasks :: "(u32 \<times> effect list) list"
  c_out :: "frame list"
  c_open :: bool
  c_writing :: bool
  c_sent :: "cid \<Rightarrow> bytes list"
  c_next :: cid
  c_ids :: "u32 list"
  c_owner :: "cid \<rightharpoonup> u32"
  c_ackowner :: "cid \<rightharpoonup> u32"
  c_unread :: "cid \<Rightarrow> ws_item list"
  c_gone :: "cid set"

definition cl_init :: "ws_item list \<Rightarrow> cl_session" where
  "cl_init items = \<lparr>c_reg = registry_new, c_acks = Map.empty, c_ackq = (\<lambda>_. None), c_in = items,
     c_todo = [], c_reading = True, c_tasks = [], c_out = [], c_open = True, c_writing = True,
     c_sent = (\<lambda>_. []), c_next = 0, c_ids = [], c_owner = Map.empty, c_ackowner = Map.empty,
     c_unread = (\<lambda>_. []), c_gone = {}\<rparr>"

text \<open>
  When an effect can happen with the result it carries: a send on the frame channel succeeds
  exactly while the receiver is there, so does one on a stream channel, an ack is received from a
  channel that holds it, and the wait for it fails only on a channel that holds none.
\<close>

fun cl_enabled :: "cl_session \<Rightarrow> effect \<Rightarrow> bool" where
  "cl_enabled s (ESendFrame f ok) = (ok = c_open s)"
| "cl_enabled s (EAckRecv a r) = (c_ackq s a = r)"
| "cl_enabled s (EChanSend c d) = (c \<notin> c_gone s)"
| "cl_enabled s _ = True"

fun cl_apply :: "effect \<Rightarrow> cl_session \<Rightarrow> cl_session" where
  "cl_apply (ERegistry x) s = s\<lparr>c_reg := reg.op_step x (c_reg s),
     c_unread := (case x of RegOp i c \<Rightarrow> (c_unread s)(c := c_in s) | _ \<Rightarrow> c_unread s)\<rparr>"
| "cl_apply (EChanSend c d) s = s\<lparr>c_sent := (c_sent s)(c := c_sent s c @ [d])\<rparr>"
| "cl_apply (ESendFrame f ok) s = (if ok then s\<lparr>c_out := c_out s @ [f]\<rparr> else s)"
| "cl_apply (EAckInsert i a) s = s\<lparr>c_acks := (c_acks s)(i \<mapsto> a)\<rparr>"
| "cl_apply (EAckRecv a r) s = s\<lparr>c_ackq := (c_ackq s)(a := None)\<rparr>"
| "cl_apply (EAckDeliver i ok) s =
     (case c_acks s i of
        None \<Rightarrow> s
      | Some a \<Rightarrow>
          s\<lparr>c_acks := (c_acks s)(i := None),
            c_ackq := (case c_ackq s a of None \<Rightarrow> (c_ackq s)(a \<mapsto> ok) | Some _ \<Rightarrow> c_ackq s)\<rparr>)"
| "cl_apply EAckClear s = s\<lparr>c_acks := Map.empty\<rparr>"
| "cl_apply _ s = s"

fun cl_follow_up :: "cl_session \<Rightarrow> effect \<Rightarrow> effect list" where
  "cl_follow_up s (ERegistry (RouteOp i d)) =
     (case route i d (c_reg s) of Some (c, e) \<Rightarrow> [EChanSend c e] | None \<Rightarrow> [])"
| "cl_follow_up s _ = []"

text \<open>
  The handlers that run on a mux connection: the resilient ones take it from the keeper, the
  plain one belongs to the proxy without reconnection. Each comes with the stream id its
  accept loop gave it; ids of connections that are forwarded directly, that are rejected or that
  use another mux connection never appear here, and handlers start in any order.
\<close>

inductive mux_task :: "mux_env \<Rightarrow> u32 \<Rightarrow> effect list \<Rightarrow> bool" where
  http: "mux_task env i (handle_via_mux_with_timeout env i req)"
| socks: "mux_task env i (handle_socks_via_mux_with_timeout env i host)"
| plain: "mux_task env i (handle_via_mux env i req)"

definition cl_accept :: "u32 \<Rightarrow> effect list \<Rightarrow> cl_session \<Rightarrow> cl_session" where
  "cl_accept i es s =
     s\<lparr>c_tasks := c_tasks s @ [(i, es)], c_next := Suc (Suc (c_next s)), c_ids := c_ids s @ [i],
       c_owner := (c_owner s)(c_next s \<mapsto> i), c_ackowner := (c_ackowner s)(Suc (c_next s) \<mapsto> i)\<rparr>"

lemma cl_accept_in [simp]: "c_in (cl_accept i es s) = c_in s"
  by (simp add: cl_accept_def)

inductive cl_step :: "cl_session \<Rightarrow> cl_session \<Rightarrow> bool" where
  accept:
    "mux_task env i es \<Longrightarrow> data_cid env = c_next s \<Longrightarrow> ack_cid env = Suc (c_next s) \<Longrightarrow>
     cl_step s (cl_accept i es s)"
| task_eff:
    "c_tasks s = xs @ (i, e # es) # ys \<Longrightarrow> cl_enabled s e \<Longrightarrow>
     cl_step s ((cl_apply e s)\<lparr>c_tasks := xs @ (i, es) # ys\<rparr>)"
| read_item:
    "c_reading s \<Longrightarrow> c_todo s = [] \<Longrightarrow> c_in s = item # rest \<Longrightarrow> client_dispatch item = Some es \<Longrightarrow>
     cl_step s (s\<lparr>c_in := rest, c_todo := es\<rparr>)"
| read_break:
    "c_reading s \<Longrightarrow> c_todo s = [] \<Longrightarrow>
     c_in s = [] \<or> (\<exists>item rest. c_in s = item # rest \<and> client_dispatch item = None) \<Longrightarrow>
     cl_step s (s\<lparr>c_reading := False, c_todo := reader_end\<rparr>)"
| reader_eff:
    "c_todo s = e # es \<Longrightarrow> cl_enabled s e \<Longrightarrow>
     cl_step s ((cl_apply e s)\<lparr>c_todo := cl_follow_up s e @ es\<rparr>)"
| reader_send_dropped:
    "c_todo s = EChanSend c d # es \<Longrightarrow> c \<in> c_gone s \<Longrightarrow> cl_step s (s\<lparr>c_todo := es\<rparr>)"
| receiver_drop:
    "cl_step s (s\<lparr>c_gone := insert c (c_gone s)\<rparr>)"
| writer_break:
    "c_writing s \<Longrightarrow> cl_step s (s\<lparr>c_writing := False, c_reg := close_all (c_reg s)\<rparr>)"
| writer_drop:
    "\<not> c_writing s \<Longrightarrow> cl_step s (s\<lparr>c_open := False\<rparr>)"
| conn_close:
    "cl_step s (s\<lparr>c_acks := Map.empty, c_reg := close_all (c_reg s)\<rparr>)"

inductive cl_reachable :: "ws_item list \<Rightarrow> cl_session \<Rightarrow> bool" for items where
  start: "cl_reachable items (cl_init items)"
| step: "cl_reachable items s \<Longrightarrow> cl_step s t \<Longrightarrow> cl_reachable items t"

subsection \<open>What handlers are\<close>

text \<open>The frames among the items of a connection.\<close>

fun item_frames :: "ws_item \<Rightarrow> frame list" where
  "item_frames (Some (WsBinary data)) = (case decode data of Inr f \<Rightarrow> [f] | Inl _ \<Rightarrow> [])"
| "item_frames _ = []"

definition acks_true :: "ws_item list \<Rightarrow> u32 set" where
  "acks_true items = {i. OpenAck i True \<in> set (concat (map item_frames items))}"

lemma acks_true_append [simp]: "acks_true (xs @ ys) = acks_true xs \<union> acks_true ys"
  by (auto simp: acks_true_def)

text \<open>
  The rest of a handler for stream \<open>i\<close>: \<open>sent\<close> says whether its OPEN was sent, \<open>acked\<close> whether a
  positive acknowledgement was received. DATA and CLOSE come after both, there is one OPEN, and
  the channels it uses are its own.
\<close>

fun task_ok :: "(cid \<rightharpoonup> u32) \<Rightarrow> (cid \<rightharpoonup> u32) \<Rightarrow> u32 \<Rightarrow> bool \<Rightarrow> bool \<Rightarrow> effect list \<Rightarrow> bool" where
  "task_ok ow aow i sent acked [] = True"
| "task_ok ow aow i sent acked (e # es) =
     (case e of
        ESendFrame (Open j d) ok \<Rightarrow> j = i \<and> \<not> sent \<and> task_ok ow aow i ok acked es
      | ESendFrame (Data j bs) ok \<Rightarrow> j = i \<and> sent \<and> acked \<and> task_ok ow aow i sent acked es
      | ESendFrame (Close j) ok \<Rightarrow> j = i \<and> sent \<and> acked \<and> task_ok ow aow i sent acked es
      | ESendFrame _ ok \<Rightarrow> False
      | EAckInsert j a \<Rightarrow> j = i \<and> aow a = Some i \<and> task_ok ow aow i sent acked es
      | EAckRecv a r \<Rightarrow> aow a = Some i \<and> task_ok ow aow i sent (r = Some True) es
      | ERegistry (RegOp j c) \<Rightarrow> j = i \<and> ow c = Some i \<and> task_ok ow aow i sent acked es
      | ERegistry (CloseOp j) \<Rightarrow> j = i \<and> task_ok ow aow i sent acked es
      | ETcpWrite bs ok \<Rightarrow> task_ok ow aow i sent acked es
      | ESpawn j c \<Rightarrow> j = i \<and> task_ok ow aow i sent acked es
      | _ \<Rightarrow> False)"

lemma relay_task_ok: "task_ok ow aow i True True (relay_reader i ok rs)"
  by (induction i ok rs rule: relay_reader.induct) (auto simp: relay_finish_def)

lemma mux_task_ok:
  assumes "mux_task env i es" "ow (data_cid env) = Some i" "aow (ack_cid env) = Some i"
  shows "task_ok ow aow i False False es"
  using assms
  by (cases rule: mux_task.cases; cases "ack_res env")
     (auto simp: mux_handler_defs relay_task_ok split: option.split)

subsection \<open>Invariant\<close>

text \<open>Whether the OPEN of a stream has been accepted by the frame channel.\<close>

definition opened :: "cl_session \<Rightarrow> u32 \<Rightarrow> bool" where
  "opened s i \<longleftrightarrow> (\<exists>d. Open i d \<in> set (c_out s))"

definition frame_ok :: "u32 set \<Rightarrow> frame list \<Rightarrow> frame \<Rightarrow> bool" where
  "frame_ok A pre f \<longleftrightarrow>
     (case f of
        Data i bs \<Rightarrow> (\<exists>d. Open i d \<in> set pre) \<and> i \<in> A
      | Close i \<Rightarrow> (\<exists>d. Open i d \<in> set pre) \<and> i \<in> A
      | Open i d \<Rightarrow> True
      | _ \<Rightarrow> False)"

fun out_ok :: "u32 set \<Rightarrow> frame list \<Rightarrow> frame list \<Rightarrow> bool" where
  "out_ok A pre [] = True"
| "out_ok A pre (f # fs) = (frame_ok A pre f \<and> out_ok A (pre @ [f]) fs)"

text \<open>
  A running handler: the rest of a well-formed one, where it relies on an OPEN it is in the
  output, and where it relies on an acknowledgement the server sent one.
\<close>

definition task_inv :: "u32 set \<Rightarrow> cl_session \<Rightarrow> u32 \<times> effect list \<Rightarrow> bool" where
  "task_inv A s t \<longleftrightarrow>
     (\<exists>sent acked. task_ok (c_owner s) (c_ackowner s) (fst t) sent acked (snd t) \<and>
        (sent \<longrightarrow> opened s (fst t)) \<and> (acked \<longrightarrow> fst t \<in> A))"

definition reader_ack_ok :: "u32 set \<Rightarrow> effect \<Rightarrow> bool" where
  "reader_ack_ok A e \<longleftrightarrow>
     (case e of
        EAckDeliver i ok \<Rightarrow> ok \<longrightarrow> i \<in> A
      | ERegistry (RegOp i c) \<Rightarrow> False
      | ERegistry x \<Rightarrow> True
      | EChanSend c d \<Rightarrow> True
      | EAckClear \<Rightarrow> True
      | _ \<Rightarrow> False)"

definition cl_inv :: "ws_item list \<Rightarrow> cl_session \<Rightarrow> bool" where
  "cl_inv consumed s \<longleftrightarrow>
     list_all (reader_ack_ok (acks_true consumed)) (c_todo s) \<and>
     (\<forall>i a. c_acks s i = Some a \<longrightarrow> c_ackowner s a = Some i) \<and>
     (\<forall>a i. c_ackq s a = Some True \<longrightarrow> c_ackowner s a = Some i \<longrightarrow> i \<in> acks_true consumed) \<and>
     (\<forall>a. c_next s \<le> a \<longrightarrow> c_ackowner s a = None \<and> c_owner s a = None) \<and>
     (\<forall>a. c_ackowner s a = None \<longrightarrow> c_ackq s a = None) \<and>
     list_all (task_inv (acks_true consumed) s) (c_tasks s) \<and>
     out_ok (acks_true consumed) [] (c_out s)"

lemma out_ok_append [simp]: "out_ok A pre (xs @ ys) \<longleftrightarrow> out_ok A pre xs \<and> out_ok A (pre @ xs) ys"
  by (induction xs arbitrary: pre) auto

lemma out_ok_mono: "out_ok A pre fs \<Longrightarrow> A \<subseteq> B \<Longrightarrow> out_ok B pre fs"
  by (induction fs arbitrary: pre) (auto simp: frame_ok_def split: frame.splits)

lemma task_ok_owners:
  assumes "task_ok ow aow i sent acked es"
    and "\<And>c j. ow c = Some j \<Longrightarrow> ow' c = Some j" "\<And>a j. aow a = Some j \<Longrightarrow> aow' a = Some j"
  shows "task_ok ow' aow' i sent acked es"
  using assms(1)
  by (induction es arbitrary: sent acked)
     (auto simp: assms(2,3) split: effect.split_asm frame.split_asm reg_op.split_asm
       intro: assms(2,3))

lemma task_inv_mono:
  assumes "task_inv A s t" "A \<subseteq> B"
    and "\<And>c j. c_owner s c = Some j \<Longrightarrow> c_owner s' c = Some j"
    and "\<And>a j. c_ackowner s a = Some j \<Longrightarrow> c_ackowner s' a = Some j"
    and "set (c_out s) \<subseteq> set (c_out s')"
  shows "task_inv B s' t"
proof -
  obtain sent acked where t: "task_ok (c_owner s) (c_ackowner s) (fst t) sent acked (snd t)"
    "sent \<longrightarrow> opened s (fst t)" "acked \<longrightarrow> fst t \<in> A"
    using assms(1) by (auto simp: task_inv_def)
  have "task_ok (c_owner s') (c_ackowner s') (fst t) sent acked (snd t)"
    using t(1) assms(3,4) by (rule task_ok_owners)
  with t assms(2,5) show ?thesis unfolding task_inv_def opened_def by blast
qed

lemma tasks_inv_mono:
  assumes "list_all (task_inv A s) ts" "A \<subseteq> B"
    and "\<And>c j. c_owner s c = Some j \<Longrightarrow> c_owner s' c = Some j"
    and "\<And>a j. c_ackowner s a = Some j \<Longrightarrow> c_ackowner s' a = Some j"
    and "set (c_out s) \<subseteq> set (c_out s')"
  shows "list_all (task_inv B s') ts"
  using assms(1) task_inv_mono [OF _ assms(2-5)] by (auto simp: list_all_iff)

lemma dispatch_acks_ok:
  "client_dispatch item = Some es \<Longrightarrow> list_all (reader_ack_ok (A \<union> acks_true [item])) es"
  by (auto simp: client_dispatch_def reader_ack_ok_def acks_true_def split: option.splits
      ws_message.splits sum.splits frame.splits)

lemma reader_ack_ok_mono: "reader_ack_ok A e \<Longrightarrow> A \<subseteq> B \<Longrightarrow> reader_ack_ok B e"
  by (auto simp: reader_ack_ok_def split: effect.splits reg_op.splits)

lemma follow_up_ack_ok: "list_all (reader_ack_ok A) (cl_follow_up s e)"
  by (cases "(s, e)" rule: cl_follow_up.cases) (auto simp: reader_ack_ok_def split: option.split)

lemma cl_apply_simps [simp]:
  "c_owner (cl_apply e s) = c_owner s" "c_ackowner (cl_apply e s) = c_ackowner s"
  "c_next (cl_apply e s) = c_next s" "c_todo (cl_apply e s) = c_todo s" "c_in (cl_apply e s) = c_in s"
  "c_tasks (cl_apply e s) = c_tasks s" "c_open (cl_apply e s) = c_open s"
  "c_ids (cl_apply e s) = c_ids s" "c_gone (cl_apply e s) = c_gone s"
  by (cases e; simp split: option.split)+

lemma cl_apply_out:
  "c_out (cl_apply e s) = c_out s @ (case e of ESendFrame f ok \<Rightarrow> if ok then [f] else [] | _ \<Rightarrow> [])"
  by (cases e) (auto split: option.split)

text \<open>The tables of acknowledgements under an effect of a handler or of the reader.\<close>

definition ack_tables_ok :: "u32 set \<Rightarrow> cl_session \<Rightarrow> bool" where
  "ack_tables_ok A s \<longleftrightarrow>
     (\<forall>i a. c_acks s i = Some a \<longrightarrow> c_ackowner s a = Some i) \<and>
     (\<forall>a i. c_ackq s a = Some True \<longrightarrow> c_ackowner s a = Some i \<longrightarrow> i \<in> A) \<and>
     (\<forall>a. c_ackowner s a = None \<longrightarrow> c_ackq s a = None)"

lemma ack_tables_task:
  assumes "ack_tables_ok A s" "task_ok (c_owner s) (c_ackowner s) i sent acked (e # es)"
  shows "ack_tables_ok A (cl_apply e s)"
  using assms by (cases e) (auto simp: ack_tables_ok_def split: frame.splits reg_op.splits)

lemma ack_tables_reader:
  assumes "ack_tables_ok A s" "reader_ack_ok A e"
  shows "ack_tables_ok A (cl_apply e s)"
  using assms
  by (cases e) (auto simp: ack_tables_ok_def reader_ack_ok_def split: option.splits reg_op.splits)

lemma task_step:
  assumes tables: "ack_tables_ok A s" and task: "task_inv A s (i, e # es)" and en: "cl_enabled s e"
  shows "task_inv A (cl_apply e s) (i, es)"
proof -
  obtain sent acked where t: "task_ok (c_owner s) (c_ackowner s) i sent acked (e # es)"
    "sent \<longrightarrow> opened s i" "acked \<longrightarrow> i \<in> A"
    using task by (auto simp: task_inv_def)
  show ?thesis
  proof (cases e)
    case (ESendFrame f ok)
    with t show ?thesis
      by (cases f) (auto simp: task_inv_def opened_def intro: exI [of _ ok] exI [of _ True])
  next
    case (EAckRecv a r)
    with t en tables have "r = Some True \<longrightarrow> i \<in> A" by (auto simp: ack_tables_ok_def)
    with EAckRecv t show ?thesis by (auto simp: task_inv_def opened_def)
  qed (use t in \<open>auto simp: task_inv_def opened_def split: reg_op.splits option.splits\<close>)
qed

lemma task_out_ok:
  assumes "out_ok A [] (c_out s)" and task: "task_inv A s (i, e # es)"
  shows "out_ok A [] (c_out (cl_apply e s))"
  using assms
  by (cases e) (auto simp: task_inv_def opened_def frame_ok_def split: frame.splits option.splits)

lemma cl_inv_tables: "cl_inv consumed s \<Longrightarrow> ack_tables_ok (acks_true consumed) s"
  by (simp add: cl_inv_def ack_tables_ok_def)

lemma cl_inv_intro:
  assumes "list_all (reader_ack_ok (acks_true consumed)) (c_todo s)"
    and "ack_tables_ok (acks_true consumed) s"
    and "\<And>a. c_next s \<le> a \<Longrightarrow> c_ackowner s a = None \<and> c_owner s a = None"
    and "list_all (task_inv (acks_true consumed) s) (c_tasks s)"
    and "out_ok (acks_true consumed) [] (c_out s)"
  shows "cl_inv consumed s"
  using assms by (simp add: cl_inv_def ack_tables_ok_def)

lemma cl_inv_task_eff:
  assumes inv: "cl_inv consumed s" and tasks: "c_tasks s = xs @ (i, e # es) # ys" and en: "cl_enabled s e"
  shows "cl_inv consumed ((cl_apply e s)\<lparr>c_tasks := xs @ (i, es) # ys\<rparr>)"
proof -
  let ?A = "acks_true consumed" and ?t = "(cl_apply e s)\<lparr>c_tasks := xs @ (i, es) # ys\<rparr>"
  from inv tasks have task: "task_inv ?A s (i, e # es)" and others: "list_all (task_inv ?A s) (xs @ ys)"
    by (auto simp: cl_inv_def)
  obtain sent acked where ok: "task_ok (c_owner s) (c_ackowner s) i sent acked (e # es)"
    using task by (auto simp: task_inv_def)
  have mono: "list_all (task_inv ?A ?t) (xs @ ys)"
    by (rule tasks_inv_mono [OF others]) (auto simp: cl_apply_out)
  have "task_inv ?A (cl_apply e s) (i, es)"
    using cl_inv_tables [OF inv] task en by (rule task_step)
  then have "task_inv ?A ?t (i, es)" by (rule task_inv_mono) auto
  with mono have "list_all (task_inv ?A ?t) (c_tasks ?t)" by simp
  moreover have "ack_tables_ok ?A ?t"
    using ack_tables_task [OF cl_inv_tables [OF inv] ok] by (simp add: ack_tables_ok_def)
  moreover have "out_ok ?A [] (c_out ?t)"
    using task_out_ok [OF _ task] inv by (simp add: cl_inv_def)
  ultimately show ?thesis
    using inv by (intro cl_inv_intro) (simp_all add: cl_inv_def)
qed

lemma cl_inv_reader_eff:
  assumes inv: "cl_inv consumed s" and todo: "c_todo s = e # es"
  shows "cl_inv consumed ((cl_apply e s)\<lparr>c_todo := cl_follow_up s e @ es\<rparr>)"
proof -
  let ?A = "acks_true consumed" and ?t = "(cl_apply e s)\<lparr>c_todo := cl_follow_up s e @ es\<rparr>"
  from inv todo have e: "reader_ack_ok ?A e" "list_all (reader_ack_ok ?A) es" by (auto simp: cl_inv_def)
  then have out: "c_out ?t = c_out s"
    by (cases e) (auto simp: reader_ack_ok_def split: option.splits)
  have "list_all (task_inv ?A ?t) (c_tasks s)"
    by (rule tasks_inv_mono [where A = ?A and s = s]) (use inv out in \<open>auto simp: cl_inv_def\<close>)
  moreover have "ack_tables_ok ?A ?t"
    using ack_tables_reader [OF cl_inv_tables [OF inv] e(1)] by (simp add: ack_tables_ok_def)
  ultimately show ?thesis
    using inv e out by (intro cl_inv_intro) (simp_all add: cl_inv_def follow_up_ack_ok)
qed

lemma cl_inv_accept:
  assumes inv: "cl_inv consumed s" and task: "mux_task env i es"
    and cids: "data_cid env = c_next s" "ack_cid env = Suc (c_next s)"
  shows "cl_inv consumed (cl_accept i es s)"
proof -
  let ?A = "acks_true consumed" and ?t = "cl_accept i es s"
  have fresh: "c_owner s (c_next s) = None" "c_ackowner s (Suc (c_next s)) = None"
    using inv by (auto simp: cl_inv_def)
  have "list_all (task_inv ?A ?t) (c_tasks s)"
    by (rule tasks_inv_mono [where A = ?A and s = s])
       (use inv fresh in \<open>auto simp: cl_inv_def cl_accept_def\<close>)
  moreover have "task_ok (c_owner ?t) (c_ackowner ?t) i False False es"
    using task by (rule mux_task_ok) (simp_all add: cl_accept_def cids)
  then have "task_inv ?A ?t (i, es)" by (auto simp: task_inv_def)
  moreover have "ack_tables_ok ?A ?t"
    using cl_inv_tables [OF inv] fresh by (auto simp: ack_tables_ok_def cl_accept_def)
  ultimately show ?thesis
    using inv by (intro cl_inv_intro) (auto simp: cl_inv_def cl_accept_def)
qed

lemma cl_inv_read:
  assumes inv: "cl_inv consumed s" and es: "client_dispatch item = Some es"
  shows "cl_inv (consumed @ [item]) (s\<lparr>c_in := rest, c_todo := es\<rparr>)"
proof -
  let ?A = "acks_true (consumed @ [item])" and ?t = "s\<lparr>c_in := rest, c_todo := es\<rparr>"
  have "list_all (task_inv ?A ?t) (c_tasks s)"
    by (rule tasks_inv_mono [where A = "acks_true consumed" and s = s])
       (use inv in \<open>auto simp: cl_inv_def\<close>)
  moreover have "out_ok ?A [] (c_out s)"
    using inv by (auto simp: cl_inv_def intro: out_ok_mono)
  ultimately show ?thesis
    using inv dispatch_acks_ok [OF es, of "acks_true consumed"] cl_inv_tables [OF inv]
    by (intro cl_inv_intro) (auto simp: cl_inv_def ack_tables_ok_def)
qed

text \<open>Fields the invariant does not depend on, and smaller tables.\<close>

lemma cl_inv_other:
  assumes inv: "cl_inv consumed s"
    and "c_owner t = c_owner s" "c_ackowner t = c_ackowner s" "c_ackq t = c_ackq s" "c_next t = c_next s"
    and "c_tasks t = c_tasks s" "c_out t = c_out s"
    and "\<And>i a. c_acks t i = Some a \<Longrightarrow> c_acks s i = Some a"
    and "list_all (reader_ack_ok (acks_true consumed)) (c_todo t)"
  shows "cl_inv consumed t"
proof -
  have "list_all (task_inv (acks_true consumed) t) (c_tasks s)"
    by (rule tasks_inv_mono [where A = "acks_true consumed" and s = s])
       (use assms in \<open>auto simp: cl_inv_def\<close>)
  with assms show ?thesis
    by (intro cl_inv_intro) (auto simp: cl_inv_def ack_tables_ok_def)
qed

lemma cl_inv_todo: "cl_inv consumed s \<Longrightarrow> list_all (reader_ack_ok (acks_true consumed)) (c_todo s)"
  by (simp add: cl_inv_def)

lemma out_ok_split: "out_ok A pre0 (pre @ f # post) \<Longrightarrow> frame_ok A (pre0 @ pre) f"
  by simp

subsection \<open>Data reaches its own connection, in order\<close>

text \<open>The shapes of the reader's pending effects: a DATA frame being routed, or no routing.\<close>

definition cl_todo_shape :: "cl_session \<Rightarrow> bool" where
  "cl_todo_shape s \<longleftrightarrow>
     (\<exists>i d. c_todo s = [ERegistry (RouteOp i d)]) \<or>
     (\<exists>c d. c_todo s = [EChanSend c d] \<and> c_owner s c \<noteq> None) \<or>
     list_all (\<lambda>e. (\<forall>c d. e \<noteq> EChanSend c d) \<and> (\<forall>i d. e \<noteq> ERegistry (RouteOp i d))) (c_todo s)"

definition cl_data_inv :: "ws_item list \<Rightarrow> cl_session \<Rightarrow> bool" where
  "cl_data_inv consumed s \<longleftrightarrow>
     (\<forall>i c. inner (c_reg s) i = Some c \<longrightarrow> c_owner s c = Some i) \<and>
     (\<forall>c. c_owner s c = None \<longrightarrow> c_sent s c = []) \<and>
     cl_todo_shape s \<and>
     (\<forall>i d. c_todo s = [ERegistry (RouteOp i d)] \<longrightarrow> d \<in> set (payloads i consumed)) \<and>
     (\<forall>c i. c_owner s c = Some i \<longrightarrow>
        subseq (c_sent s c @ in_flight (c_owner s) c (c_todo s)) (payloads i consumed))"

lemma in_flight_none:
  "list_all (\<lambda>e. (\<forall>c d. e \<noteq> EChanSend c d) \<and> (\<forall>i d. e \<noteq> ERegistry (RouteOp i d))) es \<Longrightarrow>
     in_flight ow c es = []"
  by (cases "(ow, c, es)" rule: in_flight.cases) auto

lemma cl_data_sent:
  assumes "cl_data_inv consumed s" "c_owner s c = Some i"
  shows "subseq (c_sent s c) (payloads i consumed)"
proof -
  have "subseq (c_sent s c) (c_sent s c @ in_flight (c_owner s) c (c_todo s))"
    by (simp add: prefix_imp_subseq)
  also have "subseq \<dots> (payloads i consumed)" using assms by (simp add: cl_data_inv_def)
  finally show ?thesis .
qed

text \<open>Other fields, a smaller registry, and pending effects without routing.\<close>

lemma cl_data_shrink:
  assumes "cl_data_inv consumed s"
    and "c_owner t = c_owner s" "c_sent t = c_sent s" "c_todo t = c_todo s"
    and "\<And>i c. inner (c_reg t) i = Some c \<Longrightarrow> c_owner s c = Some i"
  shows "cl_data_inv consumed t"
  using assms by (simp add: cl_data_inv_def cl_todo_shape_def)

lemma cl_data_own: "cl_data_inv consumed s \<Longrightarrow> inner (c_reg s) i = Some c \<Longrightarrow> c_owner s c = Some i"
  by (simp add: cl_data_inv_def)

lemma cl_data_todo:
  assumes "cl_data_inv consumed s"
    and "list_all (\<lambda>e. (\<forall>c d. e \<noteq> EChanSend c d) \<and> (\<forall>i d. e \<noteq> ERegistry (RouteOp i d))) es"
  shows "cl_data_inv consumed (s\<lparr>c_todo := es\<rparr>)"
  using assms cl_data_sent [OF assms(1)] in_flight_none [OF assms(2)]
  by (auto simp: cl_data_inv_def cl_todo_shape_def)

lemma client_dispatch_cases:
  assumes "client_dispatch item = Some es"
  obtains (routes) i d where "es = [ERegistry (RouteOp i d)]"
      "\<And>j. payload_of j item = (if j = i then [d] else [])"
  | (plain) "\<And>j. payload_of j item = []"
      "list_all (\<lambda>e. (\<forall>c d. e \<noteq> EChanSend c d) \<and> (\<forall>i d. e \<noteq> ERegistry (RouteOp i d))) es"
  using assms
  by (auto simp: client_dispatch_def split: option.splits ws_message.splits sum.splits frame.splits)

lemma cl_data_read:
  assumes "cl_data_inv consumed s" "c_todo s = []" "client_dispatch item = Some es"
  shows "cl_data_inv (consumed @ [item]) (s\<lparr>c_in := rest, c_todo := es\<rparr>)"
  using assms(3)
proof (cases rule: client_dispatch_cases)
  case (routes i d)
  with assms(1,2) show ?thesis
    by (auto simp: cl_data_inv_def cl_todo_shape_def intro: subseq_snoc_same)
next
  case plain
  with assms(1,2) in_flight_none [OF plain(2)] show ?thesis
    by (auto simp: cl_data_inv_def cl_todo_shape_def)
qed

lemma cl_data_route:
  assumes "cl_data_inv consumed s" "c_todo s = [ERegistry (RouteOp i d)]"
  shows "cl_data_inv consumed (s\<lparr>c_todo := cl_follow_up s (ERegistry (RouteOp i d))\<rparr>)"
proof (cases "inner (c_reg s) i")
  case None
  then show ?thesis using cl_data_todo [OF assms(1), of "[]"] by (simp add: route_def)
next
  case (Some c)
  then have ow: "c_owner s c = Some i" using assms(1) by (auto simp: cl_data_inv_def)
  then have "subseq (c_sent s c @ [d]) (payloads i consumed)"
    using assms by (auto simp: cl_data_inv_def dest: spec [of _ c])
  with Some ow show ?thesis
    using assms cl_data_sent [OF assms(1)] by (auto simp: cl_data_inv_def route_def cl_todo_shape_def)
qed

lemma cl_data_chan_send:
  assumes "cl_data_inv consumed s" "c_todo s = [EChanSend c d]"
  shows "cl_data_inv consumed (s\<lparr>c_sent := (c_sent s)(c := c_sent s c @ [d]), c_todo := []\<rparr>)"
proof -
  obtain k where k: "c_owner s c = Some k"
    using assms by (auto simp: cl_data_inv_def cl_todo_shape_def)
  then have "subseq (c_sent s c @ [d]) (payloads k consumed)"
    using assms by (auto simp: cl_data_inv_def dest: spec [of _ c])
  with k assms cl_data_sent [OF assms(1)] show ?thesis
    by (auto simp: cl_data_inv_def cl_todo_shape_def)
qed

lemma cl_data_reader_eff:
  assumes inv: "cl_data_inv consumed s" and todo: "c_todo s = e # es" and ack: "reader_ack_ok A e"
  shows "cl_data_inv consumed ((cl_apply e s)\<lparr>c_todo := cl_follow_up s e @ es\<rparr>)"
proof -
  from inv todo consider (route) i d where "e = ERegistry (RouteOp i d)" "es = []"
    | (chan) c d where "e = EChanSend c d" "es = []"
    | (plain) "list_all (\<lambda>e. (\<forall>c d. e \<noteq> EChanSend c d) \<and> (\<forall>i d. e \<noteq> ERegistry (RouteOp i d))) (e # es)"
    by (auto simp: cl_data_inv_def cl_todo_shape_def)
  then show ?thesis
  proof cases
    case route
    with cl_data_route [OF inv] todo show ?thesis by simp
  next
    case chan
    with cl_data_chan_send [OF inv] todo show ?thesis by simp
  next
    case plain
    then have fu: "cl_follow_up s e = []"
      by (cases "(s, e)" rule: cl_follow_up.cases) auto
    have pop: "cl_data_inv consumed (s\<lparr>c_todo := es\<rparr>)"
      using inv plain by (intro cl_data_todo) auto
    have own: "\<And>i c. inner (c_reg s) i = Some c \<Longrightarrow> c_owner s c = Some i"
      using inv by (auto simp: cl_data_inv_def)
    show ?thesis
      unfolding fu
    proof (cases e)
      case (ERegistry x)
      with plain ack own show "cl_data_inv consumed (cl_apply e s\<lparr>c_todo := [] @ es\<rparr>)"
        by (cases x) (auto intro!: cl_data_shrink [OF pop] simp: reader_ack_ok_def registry_defs split: if_splits)
    qed (use plain ack own in \<open>auto intro!: cl_data_shrink [OF pop] simp: reader_ack_ok_def split: option.split\<close>)
  qed
qed

lemma cl_data_task_eff:
  assumes inv: "cl_data_inv consumed s" and task: "task_inv A s (i, e # es)"
  shows "cl_data_inv consumed ((cl_apply e s)\<lparr>c_tasks := ts\<rparr>)"
proof -
  obtain sent acked where t: "task_ok (c_owner s) (c_ackowner s) i sent acked (e # es)"
    using task by (auto simp: task_inv_def)
  have own: "\<And>i c. inner (c_reg s) i = Some c \<Longrightarrow> c_owner s c = Some i"
    using inv by (auto simp: cl_data_inv_def)
  show ?thesis
  proof (cases e)
    case (ERegistry x)
    with t own show ?thesis
      by (cases x) (auto intro!: cl_data_shrink [OF inv] simp: registry_defs split: if_splits)
  qed (use t own in \<open>auto intro!: cl_data_shrink [OF inv] split: frame.splits\<close>)
qed

lemma cl_data_accept:
  assumes inv: "cl_data_inv consumed s" and fresh: "c_owner s (c_next s) = None"
  shows "cl_data_inv consumed (cl_accept i es s)"
proof -
  let ?ow = "(c_owner s)(c_next s \<mapsto> i)"
  have nil: "c_sent s (c_next s) = []" using inv fresh by (simp add: cl_data_inv_def)
  have "subseq (c_sent s c @ in_flight ?ow c (c_todo s)) (payloads j consumed)" if "?ow c = Some j" for c j
  proof (cases "c = c_next s")
    case True
    then show ?thesis
      using inv nil fresh that
      by (auto simp: cl_data_inv_def cl_todo_shape_def in_flight_none subseq_singleton_left)
  next
    case False
    then have "in_flight ?ow c (c_todo s) = in_flight (c_owner s) c (c_todo s)"
      by (cases "(c_owner s, c, c_todo s)" rule: in_flight.cases) auto
    with False that inv show ?thesis by (simp add: cl_data_inv_def)
  qed
  moreover have "\<forall>j c. inner (c_reg s) j = Some c \<longrightarrow> ?ow c = Some j"
    using inv fresh by (auto simp: cl_data_inv_def)
  ultimately show ?thesis
    using inv fresh by (auto simp: cl_data_inv_def cl_accept_def cl_todo_shape_def)
qed

lemma cl_step_data:
  "cl_step s t \<Longrightarrow> items = consumed @ c_in s \<Longrightarrow> cl_inv consumed s \<Longrightarrow> cl_data_inv consumed s \<Longrightarrow>
     \<exists>consumed'. items = consumed' @ c_in t \<and> cl_inv consumed' t \<and> cl_data_inv consumed' t"
proof (induction rule: cl_step.induct)
  case (accept env i es s)
  then have "c_owner s (c_next s) = None" by (simp add: cl_inv_def)
  with accept show ?case
    by (intro exI [of _ consumed]) (auto intro: cl_inv_accept cl_data_accept)
next
  case (task_eff s xs i e es ys)
  then have "task_inv (acks_true consumed) s (i, e # es)" by (simp add: cl_inv_def)
  with task_eff show ?case
    by (intro exI [of _ consumed]) (auto intro: cl_inv_task_eff cl_data_task_eff)
next
  case (read_item s item rest es)
  then show ?case by (intro exI [of _ "consumed @ [item]"]) (auto intro: cl_inv_read cl_data_read)
next
  case (read_break s)
  let ?t = "s\<lparr>c_reading := False, c_todo := reader_end\<rparr>"
  have "cl_data_inv consumed (s\<lparr>c_todo := reader_end\<rparr>)"
    using read_break by (intro cl_data_todo) (auto simp: reader_end_def)
  then have "cl_data_inv consumed ?t"
    by (rule cl_data_shrink) (use cl_data_own [OF read_break(6)] in simp_all)
  moreover have "cl_inv consumed ?t"
    by (rule cl_inv_other [OF read_break(5)]) (simp_all add: reader_end_def reader_ack_ok_def)
  ultimately show ?case using read_break by auto
next
  case (reader_eff s e es)
  then have "reader_ack_ok (acks_true consumed) e" by (simp add: cl_inv_def)
  with reader_eff show ?case
    by (intro exI [of _ consumed]) (auto intro: cl_inv_reader_eff cl_data_reader_eff)
next
  case (reader_send_dropped s c d es)
  then have es: "es = []" by (auto simp: cl_data_inv_def cl_todo_shape_def)
  then have "cl_data_inv consumed (s\<lparr>c_todo := es\<rparr>)"
    using reader_send_dropped by (intro cl_data_todo) simp_all
  moreover have "cl_inv consumed (s\<lparr>c_todo := es\<rparr>)"
    by (rule cl_inv_other [OF reader_send_dropped(4)]) (simp_all add: es)
  ultimately show ?case using reader_send_dropped by auto
next
  case (receiver_drop s c)
  let ?t = "s\<lparr>c_gone := insert c (c_gone s)\<rparr>"
  have "cl_data_inv consumed ?t"
    by (rule cl_data_shrink [OF receiver_drop(3)]) (simp_all add: cl_data_own [OF receiver_drop(3)])
  moreover have "cl_inv consumed ?t"
    by (rule cl_inv_other [OF receiver_drop(2)]) (simp_all add: cl_inv_todo [OF receiver_drop(2)])
  ultimately show ?case using receiver_drop by auto
next
  case (writer_break s)
  let ?t = "s\<lparr>c_writing := False, c_reg := close_all (c_reg s)\<rparr>"
  have "cl_data_inv consumed ?t"
    by (rule cl_data_shrink [OF writer_break(4)]) (simp_all add: close_all_def)
  moreover have "cl_inv consumed ?t"
    by (rule cl_inv_other [OF writer_break(3)]) (simp_all add: cl_inv_todo [OF writer_break(3)])
  ultimately show ?case using writer_break by auto
next
  case (writer_drop s)
  have "cl_data_inv consumed (s\<lparr>c_open := False\<rparr>)"
    by (rule cl_data_shrink [OF writer_drop(4)]) (simp_all add: cl_data_own [OF writer_drop(4)])
  moreover have "cl_inv consumed (s\<lparr>c_open := False\<rparr>)"
    by (rule cl_inv_other [OF writer_drop(3)]) (simp_all add: cl_inv_todo [OF writer_drop(3)])
  ultimately show ?case using writer_drop by auto
next
  case (conn_close s)
  let ?t = "s\<lparr>c_acks := Map.empty, c_reg := close_all (c_reg s)\<rparr>"
  have "cl_data_inv consumed ?t"
    by (rule cl_data_shrink [OF conn_close(3)]) (simp_all add: close_all_def)
  moreover have "cl_inv consumed ?t"
    by (rule cl_inv_other [OF conn_close(2)]) (simp_all add: cl_inv_todo [OF conn_close(2)])
  ultimately show ?case using conn_close by auto
qed

lemma cl_reachable_data:
  "cl_reachable items s \<Longrightarrow> \<exists>consumed. items = consumed @ c_in s \<and> cl_inv consumed s \<and> cl_data_inv consumed s"
proof (induction rule: cl_reachable.induct)
  case start
  show ?case
    by (intro exI [of _ "[]"]) (simp add: cl_inv_def cl_init_def cl_data_inv_def cl_todo_shape_def registry_new_def)
next
  case (step s t)
  then show ?case using cl_step_data [OF step(2)] by blast
qed

lemma cl_reachable_inv:
  "cl_reachable items s \<Longrightarrow> \<exists>consumed. items = consumed @ c_in s \<and> cl_inv consumed s"
  using cl_reachable_data by blast

subsection \<open>One OPEN per stream id\<close>

fun opens_id :: "u32 \<Rightarrow> frame \<Rightarrow> bool" where
  "opens_id i (Open j d) = (i = j)"
| "opens_id i _ = False"

fun task_opens :: "u32 \<Rightarrow> effect list \<Rightarrow> nat" where
  "task_opens i [] = 0"
| "task_opens i (ESendFrame f ok # es) = of_bool (opens_id i f) + task_opens i es"
| "task_opens i (_ # es) = task_opens i es"

definition open_inv :: "u32 \<Rightarrow> cl_session \<Rightarrow> bool" where
  "open_inv i s \<longleftrightarrow>
     length (filter (opens_id i) (c_out s)) + (\<Sum>t\<leftarrow>c_tasks s. task_opens i (snd t))
       \<le> count_list (c_ids s) i"

lemma distinct_count_list: "distinct xs \<Longrightarrow> count_list xs x = of_bool (x \<in> set xs)"
  by (induction xs) auto

lemma relay_opens [simp]: "task_opens i (relay_reader j ok rs) = 0"
  by (induction j ok rs rule: relay_reader.induct) (auto simp: relay_finish_def)

lemma mux_task_opens: "mux_task env j es \<Longrightarrow> task_opens i es = of_bool (i = j)"
  by (cases rule: mux_task.cases; cases "ack_res env")
     (auto simp: mux_handler_defs split: option.split)

lemma task_opens_Cons: "task_opens i (e # es) = task_opens i [e] + task_opens i es"
  by (cases e) auto

lemma apply_opens:
  "length (filter (opens_id i) (c_out (cl_apply e s))) \<le>
     length (filter (opens_id i) (c_out s)) + task_opens i [e]"
  by (cases e) (auto split: option.split)

lemma reader_no_open: "reader_ack_ok A e \<Longrightarrow> task_opens i [e] = 0"
  by (cases e) (auto simp: reader_ack_ok_def)

lemma cl_step_open:
  "cl_step s t \<Longrightarrow> cl_inv consumed s \<Longrightarrow> open_inv i s \<Longrightarrow> open_inv i t"
proof (induction rule: cl_step.induct)
  case (accept env j es s)
  then show ?case
    using mux_task_opens [OF accept(1), of i] by (simp add: open_inv_def cl_accept_def)
next
  case (task_eff s xs j e es ys)
  then show ?case
    using apply_opens [of i e s] task_opens_Cons [of i e es] by (simp add: open_inv_def)
next
  case (reader_eff s e es)
  then have "task_opens i [e] = 0" by (auto simp: cl_inv_def intro: reader_no_open)
  with reader_eff apply_opens [of i e s] show ?case by (simp add: open_inv_def)
qed (simp_all add: open_inv_def)

lemma cl_reachable_open: "cl_reachable items s \<Longrightarrow> open_inv i s"
proof (induction rule: cl_reachable.induct)
  case start
  show ?case by (simp add: open_inv_def cl_init_def)
next
  case (step s t)
  then show ?case using cl_step_open cl_reachable_inv by blast
qed

subsection \<open>Runs given by a schedule\<close>

text \<open>A schedule says which task moves next; a move that is not possible is \<open>None\<close>.\<close>

datatype cl_choice = MSocks u32 mux_env string | MTask nat | MRead | MReader

fun cl_move :: "cl_choice \<Rightarrow> cl_session \<Rightarrow> cl_session option" where
  "cl_move (MSocks i env host) s =
     (if data_cid env = c_next s \<and> ack_cid env = Suc (c_next s)
      then Some (cl_accept i (handle_socks_via_mux_with_timeout env i host) s) else None)"
| "cl_move (MTask n) s =
     (if n < length (c_tasks s) then
        (case c_tasks s ! n of
           (i, []) \<Rightarrow> None
         | (i, e # es) \<Rightarrow>
             if cl_enabled s e then Some ((cl_apply e s)\<lparr>c_tasks := (c_tasks s)[n := (i, es)]\<rparr>) else None)
      else None)"
| "cl_move MRead s =
     (if c_reading s \<and> c_todo s = [] then
        (case c_in s of
           [] \<Rightarrow> None
         | item # rest \<Rightarrow>
             (case client_dispatch item of
                None \<Rightarrow> None
              | Some es \<Rightarrow> Some (s\<lparr>c_in := rest, c_todo := es\<rparr>)))
      else None)"
| "cl_move MReader s =
     (case c_todo s of
        [] \<Rightarrow> None
      | e # es \<Rightarrow>
          if cl_enabled s e then Some ((cl_apply e s)\<lparr>c_todo := cl_follow_up s e @ es\<rparr>) else None)"

fun cl_run :: "cl_choice list \<Rightarrow> cl_session \<Rightarrow> cl_session option" where
  "cl_run [] s = Some s"
| "cl_run (m # ms) s = (case cl_move m s of None \<Rightarrow> None | Some t \<Rightarrow> cl_run ms t)"

lemma cl_move_step:
  assumes "cl_move m s = Some t"
  shows "cl_step s t"
proof (cases m)
  case (MSocks i env host)
  with assms show ?thesis
    by (auto split: if_splits intro!: cl_step.accept [where env = env] mux_task.socks)
next
  case (MTask n)
  with assms obtain i e es where n: "n < length (c_tasks s)" "c_tasks s ! n = (i, e # es)" "cl_enabled s e"
    and t: "t = (cl_apply e s)\<lparr>c_tasks := (c_tasks s)[n := (i, es)]\<rparr>"
    by (auto split: if_splits prod.splits list.splits)
  then have "c_tasks s = take n (c_tasks s) @ (i, e # es) # drop (Suc n) (c_tasks s)"
    by (metis id_take_nth_drop)
  from cl_step.task_eff [OF this n(3)] show ?thesis by (simp add: t upd_conv_take_nth_drop n(1))
next
  case MRead
  with assms show ?thesis by (auto split: if_splits list.splits option.splits intro: cl_step.read_item)
next
  case MReader
  with assms show ?thesis by (auto split: list.splits if_splits intro: cl_step.reader_eff)
qed

lemma cl_run_reachable: "cl_reachable items s \<Longrightarrow> cl_run ms s = Some t \<Longrightarrow> cl_reachable items t"
proof (induction ms arbitrary: s)
  case (Cons m ms)
  then show ?case
    by (auto split: option.splits) (blast intro: cl_reachable.step cl_move_step)
qed simp

definition demo_answers :: "ws_item list" where
  "demo_answers = [Some (WsBinary (encode (OpenAck 1 True))), Some (WsBinary (encode (Data 1 [5, 6])))]"

lemma demo_answers_dispatch [simp]:
  "client_dispatch (Some (WsBinary (encode (OpenAck 1 True)))) = Some [EAckDeliver 1 True]"
  "client_dispatch (Some (WsBinary (encode (Data 1 [5, 6])))) = Some [ERegistry (RouteOp 1 [5, 6])]"
  by (simp_all add: client_dispatch_def decode_encode del: encode.simps)

text \<open>
  The handler opens stream 1, the reader delivers the acknowledgement and two bytes, the handler
  answers the client and relays one byte.
\<close>

definition demo_schedule :: "cl_choice list" where
  "demo_schedule = [MSocks 1 demo_mux ''web.org:80'', MTask 0, MTask 0, MTask 0, MRead, MReader,
     MTask 0, MTask 0, MTask 0, MTask 0, MRead, MReader, MReader]"

lemma demo_client_run:
  "\<exists>s. cl_run demo_schedule (cl_init demo_answers) = Some s \<and> c_out s = [Open 1 ''web.org:80'', Data 1 [7]] \<and>
     c_sent s 0 = [[5, 6]] \<and> c_owner s 0 = Some 1 \<and> c_ids s = [1] \<and> inner (c_reg s) 1 = Some 0 \<and> c_todo s = [] \<and> c_gone s = {} \<and>
     c_unread s 0 = demo_answers \<and> c_in s = []"
  by (simp add: demo_schedule_def demo_answers_def cl_init_def demo_mux_def cl_accept_def
      handle_socks_via_mux_with_timeout_def open_stream_def do_mux_relay_def registry_defs relay_finish_def
      del: encode.simps)

lemma demo_client_reachable:
  "\<exists>s. cl_reachable demo_answers s \<and> c_out s = [Open 1 ''web.org:80'', Data 1 [7]] \<and>
     c_sent s 0 = [[5, 6]] \<and> c_owner s 0 = Some 1 \<and> c_ids s = [1] \<and> inner (c_reg s) 1 = Some 0 \<and> c_todo s = [] \<and> c_gone s = {} \<and>
     c_unread s 0 = demo_answers \<and> c_in s = []"
  using demo_client_run cl_run_reachable [OF cl_reachable.start] by blast

text \<open>
  A CLOSE from the server takes the stream out of the registry; the handler, which waits for the
  local connection, is not told and ends only when that does.
\<close>

lemma close_leaves_handler:
  "client_dispatch (Some (WsBinary (encode (Close i)))) = Some [ERegistry (CloseOp i)]"
  "c_tasks (cl_apply (ERegistry (CloseOp i)) s) = c_tasks s"
  "inner (c_reg (cl_apply (ERegistry (CloseOp i)) s)) i = None"
  by (simp_all add: client_dispatch_def decode_encode registry_defs del: encode.simps)

subsection \<open>Properties\<close>

text \<open>C16: in the sequence of frames a client session hands to its writer, a DATA or CLOSE frame of a
  stream comes only after the OPEN of that stream, and only when the server has sent a positive
  OPEN\_ACK for that very stream, however handlers, reader and closing interleave.\<close>

theorem client_data_after_ack:
  assumes "cl_reachable items s" and "c_out s = pre @ f # post"
    and "(\<exists>bs. f = Data i bs) \<or> f = Close i"
  shows "(\<exists>d. Open i d \<in> set pre) \<and> i \<in> acks_true items"
proof -
  obtain consumed where c: "items = consumed @ c_in s" "cl_inv consumed s"
    using cl_reachable_inv [OF assms(1)] by blast
  then have "out_ok (acks_true consumed) [] (pre @ f # post)" using assms(2) by (simp add: cl_inv_def)
  from out_ok_split [OF this] assms(3) c(1) show ?thesis by (auto simp: frame_ok_def)
qed

theorem client_data_after_ack_witness:
  "\<exists>s. cl_reachable demo_answers s \<and> c_out s = [Open 1 ''web.org:80''] @ Data 1 [7] # [] \<and>
     (\<exists>d. Open 1 d \<in> set [Open 1 ''web.org:80'']) \<and> 1 \<in> acks_true demo_answers"
proof -
  obtain s where s: "cl_reachable demo_answers s" "c_out s = [Open 1 ''web.org:80''] @ Data 1 [7] # []"
    using demo_client_reachable by auto
  with client_data_after_ack [OF s, of 1] show ?thesis by blast
qed

text \<open>A connection opens a stream id at most as often as a handler with that id ran on it.\<close>

lemma client_one_open_per_id:
  assumes "cl_reachable items s" and "distinct (c_ids s)"
  shows "length (filter (opens_id i) (c_out s)) \<le> 1"
proof -
  have "count_list (c_ids s) i \<le> 1" using assms(2) by (simp add: distinct_count_list)
  with cl_reachable_open [OF assms(1), of i] show ?thesis by (simp add: open_inv_def)
qed

text \<open>What the writer task of a local connection has received from its channel is a subsequence of
  the DATA payloads the server sent for its stream id, in their order, and the channel holds at
  most its capacity.\<close>

theorem client_delivers_in_order:
  assumes "chan_contract chan_ok" and "cl_reachable items s" and "c_owner s c = Some i"
    and "chan_ok DATA_CHANNEL_CAP (c_sent s c) rcvd"
  shows "subseq rcvd (payloads i items) \<and> length (c_sent s c) \<le> length rcvd + DATA_CHANNEL_CAP"
proof -
  obtain consumed where c: "items = consumed @ c_in s" "cl_data_inv consumed s"
    using cl_reachable_data [OF assms(2)] by blast
  have "subseq rcvd (c_sent s c)" using chan_fifo [OF assms(1,4)] by (rule prefix_imp_subseq)
  also have "subseq (c_sent s c) (payloads i consumed)" using c(2) assms(3) by (rule cl_data_sent)
  also have "subseq (payloads i consumed) (payloads i items)" using c(1) by (simp add: prefix_imp_subseq)
  finally show ?thesis using chan_bound [OF assms(1,4)] by blast
qed

theorem client_delivers_in_order_witness:
  "\<exists>s. cl_reachable demo_answers s \<and> fifo_chan DATA_CHANNEL_CAP (c_sent s 0) [[5, 6]] \<and>
     subseq [[5, 6]] (payloads 1 demo_answers)"
proof -
  obtain s where s: "cl_reachable demo_answers s" "c_owner s 0 = Some 1" "c_sent s 0 = [[5, 6]]"
    using demo_client_reachable by auto
  have "fifo_chan DATA_CHANNEL_CAP (c_sent s 0) [[5, 6]]" using s(3) by (simp add: fifo_chan_def)
  with client_delivers_in_order [OF fifo_chan_contract s(1,2)] s(1) show ?thesis by blast
qed

end
