(* ===== verification/Tunnel.thy ===== *)
theory Tunnel
  imports Server_Mux Client_Mux
begin

text \<open>
  The two ends together: the control handshake from the client's HELLO to the server's session,
  and frames that one end hands to its writer loop and the other end's session reads.
\<close>

subsection \<open>Frames over the wire\<close>

text \<open>The payloads of the DATA frames of a stream.\<close>

fun data_payloads :: "u32 \<Rightarrow> frame list \<Rightarrow> bytes list" where
  "data_payloads i [] = []"
| "data_payloads i (Data j bs # fs) = (if j = i then bs # data_payloads i fs else data_payloads i fs)"
| "data_payloads i (_ # fs) = data_payloads i fs"

lemma data_payloads_append [simp]: "data_payloads i (xs @ ys) = data_payloads i xs @ data_payloads i ys"
  by (induction i xs rule: data_payloads.induct) auto

lemma decode_encode_cases: "decode (encode f) = Inr g \<Longrightarrow> g = f"
  by (cases f) (auto simp: u32_to_be_bytes_def wire_simps type_defs Let_def from_utf8_def
      split: if_splits)

lemma decode_encode_data: "decode (encode (Data i bs)) = Inr (Data i bs)"
  by (rule decode_encode) simp

lemma payload_of_encode: "payload_of i (Some (WsBinary (encode f))) = data_payloads i [f]"
proof (cases "\<exists>j bs. f = Data j bs")
  case True
  then show ?thesis by (auto simp: decode_encode_data simp del: encode.simps)
next
  case False
  then have "data_payloads i [f] = []" by (cases f) auto
  moreover have "decode (encode f) \<noteq> Inr (Data j bs)" for j bs
    using False decode_encode_cases by blast
  ultimately show ?thesis
    by (auto simp del: encode.simps split: sum.split frame.split)
qed

text \<open>The messages of the writer loop are the encodings of a prefix of the frames it takes.\<close>

lemma writer_loop_prefix:
  "\<exists>fs. prefix fs taken \<and> fst (writer_loop (zip (map Some taken) oks)) = map (\<lambda>f. WsBinary (encode f)) fs"
proof (induction taken arbitrary: oks)
  case (Cons f taken)
  show ?case
  proof (cases oks)
    case Nil
    then show ?thesis by (intro exI [of _ "[]"]) simp
  next
    case (Cons ok oks')
    obtain fs where fs: "prefix fs taken"
      "fst (writer_loop (zip (map Some taken) oks')) = map (\<lambda>f. WsBinary (encode f)) fs"
      using Cons.IH by blast
    show ?thesis
    proof (cases ok)
      case True
      with fs \<open>oks = ok # oks'\<close> show ?thesis
        by (intro exI [of _ "f # fs"]) (auto split: prod.split simp del: encode.simps)
    next
      case False
      with \<open>oks = ok # oks'\<close> show ?thesis
        by (intro exI [of _ "[f]"]) (auto simp del: encode.simps)
    qed
  qed
qed simp

text \<open>
  What the other end reads, \<open>wire\<close>, is a prefix of the messages the writer loop sent; the loop
  took a prefix of the frames handed to the channel.
\<close>

lemma wire_frames:
  assumes "prefix taken out" "prefix wire (fst (writer_loop (zip (map Some taken) oks)))"
  shows "\<exists>fs. prefix fs out \<and> wire = map (\<lambda>f. WsBinary (encode f)) fs"
proof -
  obtain fs where fs: "prefix fs taken"
    "fst (writer_loop (zip (map Some taken) oks)) = map (\<lambda>f. WsBinary (encode f)) fs"
    using writer_loop_prefix by blast
  from assms(2) obtain n where "wire = take n (map (\<lambda>f. WsBinary (encode f)) fs)"
    unfolding fs(2) by (metis prefix_def append_eq_conv_conj)
  then have "wire = map (\<lambda>f. WsBinary (encode f)) (take n fs)" by (simp add: take_map)
  moreover have "prefix (take n fs) out"
    using fs(1) assms(1) take_is_prefix prefix_order.trans by blast
  ultimately show ?thesis by blast
qed

lemma payloads_encoded:
  "payloads i (map Some (map (\<lambda>f. WsBinary (encode f)) fs)) = data_payloads i fs"
proof (induction fs)
  case (Cons f fs)
  have "data_payloads i (f # fs) = data_payloads i [f] @ data_payloads i fs"
    using data_payloads_append [of i "[f]" fs] by simp
  with Cons show ?case by (simp add: payloads_def payload_of_encode del: encode.simps payload_of.simps)
qed (simp add: payloads_def)

lemma requested_encoded:
  "dest \<in> requested (map Some (map (\<lambda>f. WsBinary (encode f)) fs)) \<Longrightarrow> \<exists>j. Open j dest \<in> set fs"
  by (auto simp: requested_def simp del: encode.simps dest!: decode_encode_cases)

lemma subseq_data_payloads: "prefix fs gs \<Longrightarrow> subseq (data_payloads i fs) (data_payloads i gs)"
  by (auto simp: prefix_def prefix_imp_subseq)

subsection \<open>What an end receives of the frames that reached it\<close>

abbreviation wire_items :: "frame list \<Rightarrow> ws_item list" where
  "wire_items fs \<equiv> map Some (map (\<lambda>f. WsBinary (encode f)) fs)"

lemma consumed_payloads:
  assumes "wire_items fs = consumed @ rest" "subseq sent (payloads i consumed)"
  shows "subseq sent (data_payloads i fs)"
proof -
  have "data_payloads i fs = payloads i consumed @ payloads i rest"
    using assms(1) payloads_encoded [of i fs] by simp
  then show ?thesis using assms(2) by (metis prefixI prefix_imp_subseq subseq_order.trans)
qed

lemma server_receives:
  assumes "srv_reachable (wire_items fs) s" "s_owner s c = Some i"
  shows "subseq (s_sent s c) (data_payloads i fs)"
proof -
  obtain consumed where "wire_items fs = consumed @ s_in s" "data_inv consumed s"
    using srv_reachable_data [OF assms(1)] by blast
  then show ?thesis using assms(2) by (blast intro: consumed_payloads data_inv_sent)
qed

lemma client_receives:
  assumes "cl_reachable (wire_items fs) s" "c_owner s c = Some i"
  shows "subseq (c_sent s c) (data_payloads i fs)"
proof -
  obtain consumed where "wire_items fs = consumed @ c_in s" "cl_data_inv consumed s"
    using cl_reachable_data [OF assms(1)] by blast
  then show ?thesis using assms(2) by (blast intro: consumed_payloads cl_data_sent)
qed

lemma server_connects:
  assumes "srv_reachable (wire_items fs) s" "dest \<in> set (s_connects s)"
  shows "is_dest_allowed dest \<and> (\<exists>j. Open j dest \<in> set fs)"
  using srv_reachable_requested [OF assms(1)] srv_reachable_inv [OF assms(1)] assms(2)
    requested_encoded [of dest fs]
  by (auto simp: srv_inv_def list_all_iff simp del: map_map)

lemma chan_delivers:
  assumes "chan_contract ch" "ch cap sent rcvd" "subseq sent (data_payloads i fs)" "prefix fs gs"
  shows "subseq rcvd (data_payloads i gs)"
proof -
  have "subseq rcvd sent" using chan_fifo [OF assms(1,2)] by (rule prefix_imp_subseq)
  also note assms(3)
  also have "subseq (data_payloads i fs) (data_payloads i gs)" using assms(4) by (rule subseq_data_payloads)
  finally show ?thesis .
qed

end
