(* ===== verification/Client_Delivery.thy ===== *)
theory Client_Delivery
  imports Client_Mux
begin

text \<open>
  No data is lost on its way through a mux connection of the client: as long as a stream is
  registered and the receiver of its channel is there, the channel has accepted every DATA
  payload of the stream that was read since the handler registered it.
\<close>

subsection \<open>Invariant\<close>

text \<open>
  What a channel accepted ends with the payloads read since its registration. A payload that was
  read before and is routed after it may come first.
\<close>

definition since_registered :: "ws_item list \<Rightarrow> cl_session \<Rightarrow> u32 \<Rightarrow> cid \<Rightarrow> bytes list \<Rightarrow> bool" where
  "since_registered consumed s i c sent \<longleftrightarrow>
     (\<exists>pre post. consumed = pre @ post \<and> c_unread s c = post @ c_in s \<and> suffix (payloads i post) sent)"

definition cl_lossless_inv :: "ws_item list \<Rightarrow> cl_session \<Rightarrow> bool" where
  "cl_lossless_inv consumed s \<longleftrightarrow>
     (\<forall>i c. inner (c_reg s) i = Some c \<longrightarrow> c \<notin> c_gone s \<longrightarrow>
        since_registered consumed s i c (c_sent s c @ in_flight (c_owner s) c (c_todo s)))"

lemma cl_losslessD:
  "cl_lossless_inv consumed s \<Longrightarrow> inner (c_reg s) i = Some c \<Longrightarrow> c \<notin> c_gone s \<Longrightarrow>
     since_registered consumed s i c (c_sent s c @ in_flight (c_owner s) c (c_todo s))"
  by (simp add: cl_lossless_inv_def)

lemma cl_lossless_shrink:
  assumes "cl_lossless_inv consumed s"
    and "\<And>i c. inner (c_reg t) i = Some c \<Longrightarrow> inner (c_reg s) i = Some c"
    and "c_gone s \<subseteq> c_gone t" "c_sent t = c_sent s" "c_in t = c_in s" "c_unread t = c_unread s"
    and "\<And>i c. inner (c_reg t) i = Some c \<Longrightarrow> c \<notin> c_gone t \<Longrightarrow>
       in_flight (c_owner t) c (c_todo t) = in_flight (c_owner s) c (c_todo s)"
  shows "cl_lossless_inv consumed t"
  unfolding cl_lossless_inv_def
proof (intro allI impI)
  fix i c assume reg: "inner (c_reg t) i = Some c" and there: "c \<notin> c_gone t"
  then have "since_registered consumed s i c (c_sent s c @ in_flight (c_owner s) c (c_todo s))"
    using assms(1-3) by (blast intro: cl_losslessD)
  then show "since_registered consumed t i c (c_sent t c @ in_flight (c_owner t) c (c_todo t))"
    using assms(4-6) assms(7) [OF reg there] by (simp add: since_registered_def)
qed

lemma client_dispatch_flight:
  assumes "client_dispatch item = Some es" "ow c = Some i"
  shows "in_flight ow c es = payload_of i item"
  using assms
  by (auto simp: client_dispatch_def split: option.splits ws_message.splits sum.splits frame.splits)

lemma cl_lossless_read:
  assumes "cl_lossless_inv consumed s" "cl_data_inv consumed s" "c_todo s = []" "c_in s = item # rest"
    and es: "client_dispatch item = Some es"
  shows "cl_lossless_inv (consumed @ [item]) (s\<lparr>c_in := rest, c_todo := es\<rparr>)"
  unfolding cl_lossless_inv_def
proof (intro allI impI)
  let ?t = "s\<lparr>c_in := rest, c_todo := es\<rparr>"
  fix i c assume "inner (c_reg ?t) i = Some c" "c \<notin> c_gone ?t"
  then have ow: "c_owner s c = Some i" and "since_registered consumed s i c (c_sent s c)"
    using assms(1-3) cl_losslessD [OF assms(1), of i c] by (auto simp: cl_data_inv_def)
  then obtain pre post where p: "consumed = pre @ post" "c_unread s c = post @ item # rest"
    "suffix (payloads i post) (c_sent s c)"
    using assms(4) by (auto simp: since_registered_def)
  have flight: "in_flight (c_owner s) c es = payload_of i item"
    using client_dispatch_flight [OF es, of "c_owner s" c i] ow by simp
  from p(3) have "suffix (payloads i (post @ [item])) (c_sent s c @ payload_of i item)"
    by (auto simp: suffix_def)
  with p(1,2) show "since_registered (consumed @ [item]) ?t i c
      (c_sent ?t c @ in_flight (c_owner ?t) c (c_todo ?t))"
    unfolding since_registered_def
    by (intro exI [of _ pre] exI [of _ "post @ [item]"]) (simp add: flight)
qed

lemma cl_lossless_register:
  assumes inv: "cl_lossless_inv consumed s" and data: "cl_data_inv consumed s"
    and ow: "c_owner s c = Some i"
  shows "cl_lossless_inv consumed ((cl_apply (ERegistry (RegOp i c)) s)\<lparr>c_tasks := ts\<rparr>)"
  unfolding cl_lossless_inv_def
proof (intro allI impI)
  let ?t = "(cl_apply (ERegistry (RegOp i c)) s)\<lparr>c_tasks := ts\<rparr>"
  fix j b assume reg: "inner (c_reg ?t) j = Some b" and there: "b \<notin> c_gone ?t"
  show "since_registered consumed ?t j b (c_sent ?t b @ in_flight (c_owner ?t) b (c_todo ?t))"
  proof (cases "j = i")
    case True
    with reg have "b = c" by (simp add: registry_defs)
    then show ?thesis
      unfolding since_registered_def
      by (intro exI [of _ consumed] exI [of _ "[]"]) (simp add: payloads_def)
  next
    case False
    with reg have old: "inner (c_reg s) j = Some b" by (simp add: registry_defs)
    then have "b \<noteq> c" using False ow cl_data_own [OF data old] by auto
    with cl_losslessD [OF inv old] there show ?thesis by (simp add: since_registered_def)
  qed
qed

lemma cl_lossless_task_eff:
  assumes inv: "cl_lossless_inv consumed s" and data: "cl_data_inv consumed s"
    and task: "task_inv A s (i, e # es)"
  shows "cl_lossless_inv consumed ((cl_apply e s)\<lparr>c_tasks := ts\<rparr>)"
proof -
  obtain sent acked where t: "task_ok (c_owner s) (c_ackowner s) i sent acked (e # es)"
    using task by (auto simp: task_inv_def)
  show ?thesis
  proof (cases "\<exists>j c. e = ERegistry (RegOp j c)")
    case True
    with t cl_lossless_register [OF inv data] show ?thesis
      by (auto simp del: cl_apply.simps)
  next
    case False
    have "c_sent (cl_apply e s) = c_sent s" "c_unread (cl_apply e s) = c_unread s"
      using t False by (cases e; auto split: reg_op.splits option.splits)+
    moreover have "inner (c_reg s) j = Some c" if "inner (c_reg (cl_apply e s)) j = Some c" for j c
      using t False that by (cases e) (auto simp: registry_defs split: reg_op.splits option.splits if_splits)
    ultimately show ?thesis by (intro cl_lossless_shrink [OF inv]) auto
  qed
qed

lemma cl_lossless_route:
  assumes inv: "cl_lossless_inv consumed s" and data: "cl_data_inv consumed s"
    and todo: "c_todo s = [ERegistry (RouteOp i d)]"
  shows "cl_lossless_inv consumed (s\<lparr>c_todo := cl_follow_up s (ERegistry (RouteOp i d))\<rparr>)"
proof (rule cl_lossless_shrink [OF inv])
  let ?t = "s\<lparr>c_todo := cl_follow_up s (ERegistry (RouteOp i d))\<rparr>"
  fix j c assume "inner (c_reg ?t) j = Some c"
  then have reg: "inner (c_reg s) j = Some c" and ow: "c_owner s c = Some j"
    using data by (auto simp: cl_data_inv_def)
  show "in_flight (c_owner ?t) c (c_todo ?t) = in_flight (c_owner s) c (c_todo s)"
  proof (cases "inner (c_reg s) i")
    case None
    with reg ow show ?thesis by (auto simp: todo route_def)
  next
    case (Some c')
    then have "c_owner s c' = Some i" using data by (auto simp: cl_data_inv_def)
    with Some reg ow show ?thesis by (auto simp: todo route_def)
  qed
qed auto

lemma cl_lossless_chan_send:
  assumes inv: "cl_lossless_inv consumed s" and todo: "c_todo s = [EChanSend c d]"
  shows "cl_lossless_inv consumed (s\<lparr>c_sent := (c_sent s)(c := c_sent s c @ [d]), c_todo := []\<rparr>)"
proof -
  have "since_registered consumed s i b (((c_sent s)(c := c_sent s c @ [d])) b)"
    if "inner (c_reg s) i = Some b" "b \<notin> c_gone s" for i b
    using cl_losslessD [OF inv that] todo by (cases "b = c") auto
  then show ?thesis by (auto simp: cl_lossless_inv_def since_registered_def)
qed

lemma cl_lossless_reader_eff:
  assumes inv: "cl_lossless_inv consumed s" and data: "cl_data_inv consumed s" and todo: "c_todo s = e # es"
    and ack: "reader_ack_ok A e"
  shows "cl_lossless_inv consumed ((cl_apply e s)\<lparr>c_todo := cl_follow_up s e @ es\<rparr>)"
proof -
  from data todo consider (route) i d where "e = ERegistry (RouteOp i d)" "es = []"
    | (chan) c d where "e = EChanSend c d" "es = []"
    | (plain) "list_all (\<lambda>e. (\<forall>c d. e \<noteq> EChanSend c d) \<and> (\<forall>i d. e \<noteq> ERegistry (RouteOp i d))) (e # es)"
    by (auto simp: cl_data_inv_def cl_todo_shape_def)
  then show ?thesis
  proof cases
    case route
    with cl_lossless_route [OF inv data] todo show ?thesis by simp
  next
    case chan
    with cl_lossless_chan_send [OF inv] todo show ?thesis by simp
  next
    case plain
    then have fu: "cl_follow_up s e = []"
      by (cases "(s, e)" rule: cl_follow_up.cases) auto
    have same: "c_sent (cl_apply e s) = c_sent s" "c_unread (cl_apply e s) = c_unread s"
      using plain ack by (cases e; auto simp: reader_ack_ok_def split: reg_op.splits option.splits)+
    have shrink: "inner (c_reg s) j = Some c" if "inner (c_reg (cl_apply e s)) j = Some c" for j c
      using plain ack that
      by (cases e) (auto simp: reader_ack_ok_def registry_defs split: reg_op.splits option.splits if_splits)
    have "in_flight ow c (e # es) = []" "in_flight ow c es = []" for ow c
      using plain by (auto intro!: in_flight_none)
    with same shrink todo show ?thesis by (intro cl_lossless_shrink [OF inv]) (auto simp: fu)
  qed
qed

lemma cl_lossless_accept:
  assumes inv: "cl_lossless_inv consumed s" and data: "cl_data_inv consumed s"
    and fresh: "c_owner s (c_next s) = None"
  shows "cl_lossless_inv consumed (cl_accept i es s)"
proof (rule cl_lossless_shrink [OF inv])
  fix j c assume "inner (c_reg (cl_accept i es s)) j = Some c"
  then have "c_owner s c = Some j" using data by (auto simp: cl_accept_def cl_data_inv_def)
  with fresh have "c \<noteq> c_next s" by auto
  then show "in_flight (c_owner (cl_accept i es s)) c (c_todo (cl_accept i es s)) =
      in_flight (c_owner s) c (c_todo s)"
    by (cases "(c_owner s, c, c_todo s)" rule: in_flight.cases) (auto simp: cl_accept_def)
qed (simp_all add: cl_accept_def)

lemma cl_step_lossless:
  "cl_step s t \<Longrightarrow> cl_inv consumed s \<Longrightarrow> cl_data_inv consumed s \<Longrightarrow> cl_lossless_inv consumed s \<Longrightarrow>
     consumed @ c_in s = consumed' @ c_in t \<Longrightarrow> cl_lossless_inv consumed' t"
proof (induction rule: cl_step.induct)
  case (accept env i es s)
  then have "c_owner s (c_next s) = None" by (simp add: cl_inv_def)
  with accept show ?case by (simp add: cl_lossless_accept)
next
  case (task_eff s xs i e es ys)
  then have "task_inv (acks_true consumed) s (i, e # es)" by (simp add: cl_inv_def)
  with task_eff cl_lossless_task_eff show ?case by auto
next
  case (read_item s item rest es)
  then have "consumed' = consumed @ [item]" by simp
  with read_item cl_lossless_read show ?case by blast
next
  case (read_break s)
  then have "cl_lossless_inv consumed' s" by simp
  then show ?case by (rule cl_lossless_shrink) (simp_all add: read_break(2) reader_end_def)
next
  case (reader_eff s e es)
  then have "reader_ack_ok (acks_true consumed) e" by (simp add: cl_inv_def)
  with reader_eff cl_lossless_reader_eff [of consumed s e es] show ?case by simp
next
  case (reader_send_dropped s c d es)
  then have "es = []" by (auto simp: cl_data_inv_def cl_todo_shape_def)
  have "cl_lossless_inv consumed' s" using reader_send_dropped by simp
  then show ?case by (rule cl_lossless_shrink) (use reader_send_dropped(1,2) \<open>es = []\<close> in auto)
next
  case (receiver_drop s c)
  then have "cl_lossless_inv consumed' s" by simp
  then show ?case by (rule cl_lossless_shrink) auto
next
  case (writer_break s)
  then have "cl_lossless_inv consumed' s" by simp
  then show ?case by (rule cl_lossless_shrink) (simp_all add: close_all_def)
next
  case (writer_drop s)
  then have "cl_lossless_inv consumed' s" by simp
  then show ?case by (rule cl_lossless_shrink) auto
next
  case (conn_close s)
  then have "cl_lossless_inv consumed' s" by simp
  then show ?case by (rule cl_lossless_shrink) (simp_all add: close_all_def)
qed

lemma cl_reachable_lossless:
  "cl_reachable items s \<Longrightarrow>
     \<exists>consumed. items = consumed @ c_in s \<and> cl_inv consumed s \<and> cl_data_inv consumed s \<and>
       cl_lossless_inv consumed s"
proof (induction rule: cl_reachable.induct)
  case start
  have "cl_lossless_inv [] (cl_init items)"
    by (simp add: cl_lossless_inv_def cl_init_def registry_new_def)
  then show ?case
    by (intro exI [of _ "[]"]) (simp add: cl_inv_def cl_init_def cl_data_inv_def cl_todo_shape_def registry_new_def)
next
  case (step s t)
  then obtain consumed where c: "items = consumed @ c_in s" "cl_inv consumed s" "cl_data_inv consumed s"
    "cl_lossless_inv consumed s" by blast
  from cl_step_data [OF step(2) c(1-3)] obtain consumed' where
    c': "items = consumed' @ c_in t" "cl_inv consumed' t" "cl_data_inv consumed' t" by blast
  moreover from c' c(1) have "cl_lossless_inv consumed' t"
    using cl_step_lossless [OF step(2) c(2-4)] by simp
  ultimately show ?case by blast
qed

subsection \<open>After the reader has ended\<close>

definition reader_done :: "cl_session \<Rightarrow> bool" where
  "reader_done s \<longleftrightarrow> \<not> c_reading s \<and> c_todo s = []"

lemma task_eff_keeps_acks:
  assumes "task_ok ow aow i sent acked (e # es)" "c_ackq s a = None"
  shows "c_ackq (cl_apply e s) a = None"
  using assms by (cases e) simp_all

lemma cl_apply_reading [simp]: "c_reading (cl_apply e s) = c_reading s"
  by (cases e) (simp_all split: option.split)

lemma reader_done_step:
  assumes "cl_step s t" "cl_inv consumed s" "reader_done s" "c_ackq s a = None"
  shows "reader_done t \<and> c_ackq t a = None"
  using assms
proof (induction rule: cl_step.induct)
  case (task_eff s xs i e es ys)
  then obtain sent acked where "task_ok (c_owner s) (c_ackowner s) i sent acked (e # es)"
    by (auto simp: cl_inv_def task_inv_def)
  with task_eff_keeps_acks [OF this] task_eff show ?case by (simp add: reader_done_def)
qed (auto simp: reader_done_def cl_accept_def)

text \<open>
  Once the reader loop of a connection has ended no acknowledgement arrives any more: a handler
  that starts to wait for one afterwards (it took the connection before, and inserted its sender
  after the tables were cleared) gets no value, and since its sender is in the table nothing but
  a deadline or the keeper's \<open>close\<close> ends the wait.
\<close>

lemma no_ack_after_reader_end:
  assumes "cl_step\<^sup>*\<^sup>* s t" "cl_reachable items s" "reader_done s" "c_ackq s a = None"
  shows "reader_done t \<and> c_ackq t a = None \<and> \<not> cl_enabled t (EAckRecv a (Some v))"
proof -
  have "cl_reachable items t \<and> reader_done t \<and> c_ackq t a = None"
    using assms(1)
  proof (induction rule: rtranclp_induct)
    case base
    then show ?case using assms by blast
  next
    case (step u w)
    then obtain consumed where "cl_inv consumed u" using cl_reachable_inv by blast
    with reader_done_step [OF step(2)] step show ?case by (blast intro: cl_reachable.step)
  qed
  then show ?thesis by simp
qed

subsection \<open>Properties\<close>

text \<open>A mux connection of the client loses no data: while a stream is registered and the receiver of
  its channel is there, whenever the reader has finished its current frame the values the channel
  accepted end with all DATA payloads that arrived for the stream since the handler registered
  it, which is before the OPEN is sent; the writer task holds the first of them, up to the
  capacity.\<close>

theorem client_lossless:
  assumes "chan_contract chan_ok" and "cl_reachable items s" and "c_todo s = []"
    and "inner (c_reg s) i = Some c" and "c \<notin> c_gone s"
    and "chan_ok DATA_CHANNEL_CAP (c_sent s c) rcvd"
  shows "\<exists>pre post. items = pre @ c_unread s c \<and> c_unread s c = post @ c_in s \<and>
     suffix (payloads i post) (c_sent s c) \<and> prefix rcvd (c_sent s c) \<and>
     length (c_sent s c) \<le> length rcvd + DATA_CHANNEL_CAP"
proof -
  obtain consumed where c: "items = consumed @ c_in s" "cl_lossless_inv consumed s"
    using cl_reachable_lossless [OF assms(2)] by blast
  then have "since_registered consumed s i c (c_sent s c)"
    using cl_losslessD [OF c(2) assms(4,5)] assms(3) by simp
  then obtain pre post where "consumed = pre @ post" "c_unread s c = post @ c_in s"
    "suffix (payloads i post) (c_sent s c)"
    by (auto simp: since_registered_def)
  with c(1) chan_contractD [OF assms(1,6)] show ?thesis
    by (intro exI [of _ pre] exI [of _ post]) simp
qed

theorem client_lossless_witness:
  "\<exists>s post. cl_reachable demo_answers s \<and> c_unread s 0 = post @ c_in s \<and>
     suffix (payloads 1 post) [[5, 6]]"
proof -
  obtain s where s: "cl_reachable demo_answers s" "c_todo s = []" "inner (c_reg s) 1 = Some 0"
    "0 \<notin> c_gone s" "c_sent s 0 = [[5, 6]]"
    using demo_client_reachable by auto
  have "fifo_chan DATA_CHANNEL_CAP (c_sent s 0) [[5, 6]]" using s(5) by (simp add: fifo_chan_def)
  from client_lossless [OF fifo_chan_contract s(1-4) this] s(1,5) show ?thesis by auto
qed

end
