(* ===== verification/Server_Delivery.thy ===== *)
theory Server_Delivery
  imports Server_Mux
begin

text \<open>
  No data is lost on its way through a mux session of the server: as long as a stream is
  registered and the receiver of its channel is there, the channel has accepted every DATA
  payload that came for the stream after its OPEN. \<open>Server_Mux\<close> shows that nothing is added or
  reordered; here it is shown that nothing is left out.
\<close>

subsection \<open>Invariant\<close>

text \<open>The items after the OPEN that registered a channel carry exactly what the channel accepted.\<close>

definition since_open :: "ws_item list \<Rightarrow> u32 \<Rightarrow> bytes list \<Rightarrow> bool" where
  "since_open consumed i sent \<longleftrightarrow>
     (\<exists>pre it post. consumed = pre @ it # post \<and> i \<in> set (opens_of it) \<and> sent = payloads i post)"

definition lossless_inv :: "ws_item list \<Rightarrow> srv_session \<Rightarrow> bool" where
  "lossless_inv consumed s \<longleftrightarrow>
     (\<forall>i c. ERegistry (RegOp i c) \<in> set (s_todo s) \<longrightarrow>
        consumed \<noteq> [] \<and> i \<in> set (opens_of (last consumed))) \<and>
     (\<forall>i c. inner (s_reg s) i = Some c \<longrightarrow> c \<notin> s_gone s \<longrightarrow>
        since_open consumed i (s_sent s c @ in_flight (s_owner s) c (s_todo s)))"

lemma since_open_snoc:
  "since_open consumed i sent \<Longrightarrow> since_open (consumed @ [item]) i (sent @ payload_of i item)"
  by (auto simp: since_open_def) (metis append_Cons append.assoc payloads_append payloads_single)

lemma since_open_start:
  assumes "consumed \<noteq> []" "i \<in> set (opens_of (last consumed))"
  shows "since_open consumed i []"
  using assms append_butlast_last_id [OF assms(1)] unfolding since_open_def payloads_def
  by (intro exI [of _ "butlast consumed"] exI [of _ "last consumed"] exI [of _ "[]"]) simp

lemma dispatch_registers:
  assumes "server_dispatch connects ack_ok n item = Some es" "ERegistry (RegOp i c) \<in> set es"
  shows "i \<in> set (opens_of item)"
  using assms
  by (auto simp: server_dispatch_def handle_open_def split: option.splits ws_message.splits
      sum.splits frame.splits if_splits)

lemma dispatch_flight:
  assumes "server_dispatch connects ack_ok n item = Some es" "ow c = Some i"
  shows "in_flight ow c es = payload_of i item"
  using assms
  by (auto simp: server_dispatch_def handle_open_def split: option.splits ws_message.splits
      sum.splits frame.splits if_splits)

text \<open>Steps after which fewer streams are registered and no value is on its way.\<close>

lemma lossless_shrink:
  assumes "lossless_inv consumed s"
    and "\<And>i c. inner (s_reg t) i = Some c \<Longrightarrow> inner (s_reg s) i = Some c"
    and "s_gone s \<subseteq> s_gone t" "s_sent t = s_sent s"
    and "\<And>i c. inner (s_reg t) i = Some c \<Longrightarrow> c \<notin> s_gone t \<Longrightarrow>
       in_flight (s_owner t) c (s_todo t) = in_flight (s_owner s) c (s_todo s)"
    and "\<And>i c. ERegistry (RegOp i c) \<in> set (s_todo t) \<Longrightarrow> ERegistry (RegOp i c) \<in> set (s_todo s)"
  shows "lossless_inv consumed t"
  unfolding lossless_inv_def
proof (intro conjI allI impI)
  fix i c assume reg: "inner (s_reg t) i = Some c" and there: "c \<notin> s_gone t"
  then have "since_open consumed i (s_sent s c @ in_flight (s_owner s) c (s_todo s))"
    using assms(1-3) unfolding lossless_inv_def by blast
  then show "since_open consumed i (s_sent t c @ in_flight (s_owner t) c (s_todo t))"
    by (simp add: assms(4) assms(5) [OF reg there])
qed (use assms(1,6) in \<open>auto simp: lossless_inv_def\<close>)

lemma lossless_read:
  assumes "lossless_inv consumed s" "data_inv consumed s" "s_todo s = []"
    and es: "server_dispatch connects ack_ok (s_next s) item = Some es"
    and t: "s_todo t = es" "s_reg t = s_reg s" "s_gone t = s_gone s" "s_sent t = s_sent s"
      "s_owner t = s_owner s"
  shows "lossless_inv (consumed @ [item]) t"
  unfolding lossless_inv_def
proof (intro conjI allI impI)
  fix i c assume "inner (s_reg t) i = Some c" "c \<notin> s_gone t"
  then have ow: "s_owner s c = Some i" and "since_open consumed i (s_sent s c)"
    using assms(1-3) t by (auto simp: lossless_inv_def data_inv_def)
  from since_open_snoc [OF this(2), of item]
  show "since_open (consumed @ [item]) i (s_sent t c @ in_flight (s_owner t) c (s_todo t))"
    using dispatch_flight [OF es, of "s_owner s" c i, OF ow] t by simp
qed (use dispatch_registers [OF es] t in auto)

lemma plain_flight:
  assumes "list_all (plain_eff s) (e # es)"
  shows "in_flight ow c (e # es) = []" "in_flight ow' c es = []"
  using in_flight_plain [OF assms] in_flight_plain [of s es] assms by auto

lemma lossless_register:
  assumes inv: "lossless_inv consumed s" and data: "data_inv consumed s"
    and todo: "s_todo s = ERegistry (RegOp i c) # es" and plain: "list_all (plain_eff s) (s_todo s)"
  shows "lossless_inv consumed ((apply_eff (ERegistry (RegOp i c)) s)\<lparr>s_todo := es\<rparr>)"
  unfolding lossless_inv_def
proof (intro conjI allI impI)
  let ?t = "(apply_eff (ERegistry (RegOp i c)) s)\<lparr>s_todo := es\<rparr>"
  have fresh: "s_owner s c = None" using plain todo by simp
  note flight = plain_flight [OF plain [unfolded todo]]
  fix j d assume reg: "inner (s_reg ?t) j = Some d" and there: "d \<notin> s_gone ?t"
  show "since_open consumed j (s_sent ?t d @ in_flight (s_owner ?t) d (s_todo ?t))"
  proof (cases "j = i")
    case True
    with reg fresh have "d = c" "s_sent s c = []" using data by (auto simp: registry_defs data_inv_def)
    moreover have "consumed \<noteq> []" "i \<in> set (opens_of (last consumed))"
      using inv todo by (auto simp: lossless_inv_def)
    ultimately show ?thesis using since_open_start flight(2) True by simp
  next
    case False
    with reg there inv flight(1) todo have "since_open consumed j (s_sent s d)"
      by (auto simp: registry_defs lossless_inv_def)
    with flight(2) show ?thesis by simp
  qed
qed (use inv todo in \<open>auto simp: lossless_inv_def\<close>)

lemma lossless_route:
  assumes inv: "lossless_inv consumed s" and data: "data_inv consumed s"
    and todo: "s_todo s = [ERegistry (RouteOp i d)]"
    and t: "s_todo t = follow_up s (ERegistry (RouteOp i d))" "s_reg t = s_reg s" "s_gone t = s_gone s"
      "s_sent t = s_sent s" "s_owner t = s_owner s"
  shows "lossless_inv consumed t"
proof (rule lossless_shrink [OF inv])
  fix j c assume "inner (s_reg t) j = Some c"
  then have ow: "s_owner s c = Some j" and reg: "inner (s_reg s) j = Some c"
    using data by (auto simp: data_inv_def t)
  show "in_flight (s_owner t) c (s_todo t) = in_flight (s_owner s) c (s_todo s)"
  proof (cases "inner (s_reg s) i")
    case None
    with reg ow show ?thesis by (auto simp: t todo route_def)
  next
    case (Some c')
    then have "s_owner s c' = Some i" using data by (auto simp: data_inv_def)
    with Some reg ow show ?thesis by (auto simp: t todo route_def)
  qed
qed (auto simp: t route_def split: option.splits)

lemma lossless_reader_eff:
  assumes inv: "lossless_inv consumed s" and data: "data_inv consumed s" and todo: "s_todo s = e # es"
    and en: "eff_enabled s e"
  shows "lossless_inv consumed ((apply_eff e s)\<lparr>s_todo := follow_up s e @ es\<rparr>)"
proof -
  let ?t = "(apply_eff e s)\<lparr>s_todo := follow_up s e @ es\<rparr>"
  from data todo consider (route) i d where "e = ERegistry (RouteOp i d)" "es = []"
    | (chan) c d where "e = EChanSend c d" "es = []"
    | (plain) "list_all (plain_eff s) (e # es)"
    by (auto simp: todo_shape_def data_inv_def)
  then show ?thesis
  proof cases
    case route
    with lossless_route [OF inv data] todo show ?thesis by simp
  next
    case chan
    have "since_open consumed i (s_sent ?t b)" if "inner (s_reg s) i = Some b" "b \<notin> s_gone s" for i b
      using inv that chan todo by (cases "b = c") (auto simp: lossless_inv_def dest!: spec [of _ i])
    with chan show ?thesis by (auto simp: lossless_inv_def)
  next
    case plain
    then have fu: "follow_up s e = []"
      by (cases "(s, e)" rule: follow_up.cases) auto
    show ?thesis
    proof (cases "\<exists>i c. e = ERegistry (RegOp i c)")
      case True
      with lossless_register [OF inv data] todo plain show ?thesis
        by (auto simp: fu simp del: apply_eff.simps)
    next
      case False
      with plain show ?thesis
        using plain_flight [OF plain] todo
        by (cases "(s, e)" rule: plain_eff.cases)
           (auto simp: fu intro!: lossless_shrink [OF inv] dest: close_shrinks split: reg_op.splits)
    qed
  qed
qed

lemma relay_effect_state:
  assumes "relay_effect i e"
  shows "s_sent (apply_eff e s) = s_sent s" "s_owner (apply_eff e s) = s_owner s"
    "inner (s_reg (apply_eff e s)) j = Some c \<Longrightarrow> inner (s_reg s) j = Some c"
  using assms by (cases e, auto simp: registry_defs split: if_splits)+

lemma srv_step_lossless:
  "srv_step s t \<Longrightarrow> srv_inv s \<Longrightarrow> data_inv consumed s \<Longrightarrow> lossless_inv consumed s \<Longrightarrow>
     consumed @ s_in s = consumed' @ s_in t \<Longrightarrow> lossless_inv consumed' t"
proof (induction rule: srv_step.induct)
  case (read_item s item rest connects ack_ok es)
  then have "consumed' = consumed @ [item]" by simp
  moreover have "lossless_inv (consumed @ [item]) (s\<lparr>s_in := rest, s_todo := es,
      s_next := Suc (s_next s), s_opened := s_opened s @ opens_of item\<rparr>)"
    by (rule lossless_read [OF read_item(7,6,2,4)]) simp_all
  ultimately show ?case by simp
next
  case (read_break s connects ack_ok c)
  from read_break(7) have "consumed' = consumed" by simp
  with read_break(6) have "lossless_inv consumed' s" by simp
  then show ?case by (rule lossless_shrink) (simp_all add: read_break(2))
next
  case (reader_eff s e es)
  then show ?case using lossless_reader_eff [of consumed' s e es] by simp
next
  case (reader_send_dropped s c d es)
  then have "es = []" by (auto simp: data_inv_def todo_shape_def)
  have "lossless_inv consumed' s" using reader_send_dropped by simp
  then show ?case by (rule lossless_shrink) (use reader_send_dropped(1,2) \<open>es = []\<close> in auto)
next
  case (receiver_drop s c)
  then have "lossless_inv consumed' s" by simp
  then show ?case by (rule lossless_shrink) auto
next
  case (reader_spawn s i c es close_ok rs)
  then have "list_all (plain_eff s) (ESpawn i c # es)" by (auto simp: data_inv_def todo_shape_def)
  note flight = plain_flight [OF this]
  have "lossless_inv consumed' s" using reader_spawn by simp
  then show ?case by (rule lossless_shrink) (use flight reader_spawn(1) in auto)
next
  case (relay_eff s xs i e es ys)
  then have "relay_effect i e" by (auto simp: srv_inv_def)
  note same = relay_effect_state [OF this]
  have "lossless_inv consumed' s" using relay_eff by simp
  then show ?case by (rule lossless_shrink) (auto simp: same(1,2) intro: same(3))
next
  case (writer_break s)
  then have "lossless_inv consumed' s" by simp
  then show ?case by (rule lossless_shrink) (auto dest: close_shrinks)
next
  case (writer_drop s)
  then have "lossless_inv consumed' s" by simp
  then show ?case by (rule lossless_shrink) auto
qed

lemma srv_reachable_lossless:
  "srv_reachable items s \<Longrightarrow>
     \<exists>consumed. items = consumed @ s_in s \<and> data_inv consumed s \<and> lossless_inv consumed s"
proof (induction rule: srv_reachable.induct)
  case start
  show ?case
    by (auto simp: srv_init_def data_inv_def todo_shape_def registry_new_def lossless_inv_def)
next
  case (step s t)
  then obtain consumed where c: "items = consumed @ s_in s" "data_inv consumed s" "lossless_inv consumed s"
    by blast
  note inv = srv_reachable_inv [OF step(1)]
  from srv_step_data [OF step(2) inv c(1,2)] obtain consumed' where
    c': "items = consumed' @ s_in t" "data_inv consumed' t" by blast
  moreover from c' c(1) have "lossless_inv consumed' t"
    using srv_step_lossless [OF step(2) inv c(2,3)] by simp
  ultimately show ?case by blast
qed

text \<open>The items a session has read, split at the OPEN that registered a channel.\<close>

lemma server_lossless_split:
  assumes "srv_reachable items s" "s_todo s = []" "inner (s_reg s) i = Some c" "c \<notin> s_gone s"
  shows "\<exists>pre it post. items = pre @ it # post @ s_in s \<and> i \<in> set (opens_of it) \<and>
     s_sent s c = payloads i post"
proof -
  obtain consumed where c: "items = consumed @ s_in s" "lossless_inv consumed s"
    using srv_reachable_lossless [OF assms(1)] by blast
  then have "since_open consumed i (s_sent s c)"
    using assms(2-4) by (auto simp: lossless_inv_def)
  with c(1) show ?thesis by (auto simp: since_open_def)
qed

subsection \<open>Properties\<close>

text \<open>A session of the server loses no data: while a stream is registered and the receiver of its
  channel is there, whenever the reader has finished its current frame the channel has accepted
  exactly the DATA payloads that arrived for the stream since the OPEN frame that opened it,
  all of them, in order; and the writer task holds the first of them, up to the capacity.\<close>

theorem server_lossless:
  assumes "chan_contract chan_ok" and "srv_reachable items s" and "s_todo s = []"
    and "inner (s_reg s) i = Some c" and "c \<notin> s_gone s"
    and "chan_ok DATA_CHANNEL_CAP (s_sent s c) rcvd"
  shows "\<exists>pre it post. items = pre @ it # post @ s_in s \<and> i \<in> set (opens_of it) \<and>
     s_sent s c = payloads i post \<and> prefix rcvd (payloads i post) \<and>
     length (payloads i post) \<le> length rcvd + DATA_CHANNEL_CAP"
  using server_lossless_split [OF assms(2-5)] chan_contractD [OF assms(1,6)] by metis

theorem server_lossless_witness:
  "\<exists>s pre it post. srv_reachable demo_items s \<and> demo_items = pre @ it # post @ s_in s \<and>
     1 \<in> set (opens_of it) \<and> payloads 1 post = [[7]]"
proof -
  obtain s where s: "srv_reachable demo_items s" "s_todo s = []" "inner (s_reg s) 1 = Some 0"
    "0 \<notin> s_gone s" "s_sent s 0 = [[7]]"
    using demo_run by blast
  moreover have "fifo_chan DATA_CHANNEL_CAP (s_sent s 0) [[7]]" using s(5) by (simp add: fifo_chan_def)
  ultimately show ?thesis
    using server_lossless [OF fifo_chan_contract s(1-4), of "[[7]]"] by fastforce
qed

end
