(* ===== verification/Tunnel_System.thy ===== *)
theory Tunnel_System
  imports Tunnel Client_Delivery Server_Delivery
begin

text \<open>
  One mux connection with both of its ends: the client session \<open>cl_step\<close> and the server session
  \<open>srv_step\<close> run side by side, and each reads only what the other has handed to its writer before.
  This order of cause and effect makes the delivery of data exact: a stream is registered at the
  server before the first DATA frame for it is sent, and at the client before the server can
  send one.
\<close>

subsection \<open>The two ends side by side\<close>

text \<open>
  \<open>up\<close> and \<open>down\<close> are the frames that get through in either direction before the connection ends;
  an end has read a part of them, which the other end must have handed to its writer loop.
\<close>

definition causal :: "frame list \<Rightarrow> ws_item list \<Rightarrow> frame list \<Rightarrow> bool" where
  "causal through unread handed \<longleftrightarrow>
     (\<exists>read rest. through = read @ rest \<and> unread = wire_items rest \<and> prefix read handed)"

inductive tun_reachable :: "frame list \<Rightarrow> frame list \<Rightarrow> cl_session \<times> srv_session \<Rightarrow> bool" for up down where
  start: "tun_reachable up down (cl_init (wire_items down), srv_init (wire_items up))"
| client:
    "tun_reachable up down (cs, ss) \<Longrightarrow> cl_step cs cs' \<Longrightarrow> causal down (c_in cs') (s_out ss) \<Longrightarrow>
     tun_reachable up down (cs', ss)"
| server:
    "tun_reachable up down (cs, ss) \<Longrightarrow> srv_step ss ss' \<Longrightarrow> causal up (s_in ss') (c_out cs) \<Longrightarrow>
     tun_reachable up down (cs, ss')"

lemma tun_ends:
  "tun_reachable up down x \<Longrightarrow>
     cl_reachable (wire_items down) (fst x) \<and> srv_reachable (wire_items up) (snd x)"
  by (induction rule: tun_reachable.induct) (auto intro: cl_reachable.intros srv_reachable.intros)

lemma cl_apply_out_prefix: "prefix (c_out s) (c_out (cl_apply e s))"
  by (cases e) (auto split: option.split)

lemma cl_step_out_prefix: "cl_step s t \<Longrightarrow> prefix (c_out s) (c_out t)"
  by (induction rule: cl_step.induct) (auto simp: cl_accept_def cl_apply_out_prefix)

lemma apply_eff_out_prefix: "prefix (s_out s) (s_out (apply_eff e s))"
  by (cases e) auto

lemma srv_step_out_prefix: "srv_step s t \<Longrightarrow> prefix (s_out s) (s_out t)"
  by (induction rule: srv_step.induct) (auto simp: apply_eff_out_prefix)

lemma causal_mono: "causal fs unread out \<Longrightarrow> prefix out out' \<Longrightarrow> causal fs unread out'"
  unfolding causal_def using prefix_order.trans by blast

lemma tun_causal:
  "tun_reachable up down x \<Longrightarrow>
     causal down (c_in (fst x)) (s_out (snd x)) \<and> causal up (s_in (snd x)) (c_out (fst x))"
proof (induction rule: tun_reachable.induct)
  case start
  show ?case by (auto simp: causal_def cl_init_def srv_init_def)
next
  case (client cs ss cs')
  then show ?case using causal_mono [OF _ cl_step_out_prefix] by auto
next
  case (server cs ss ss')
  then show ?case using causal_mono [OF _ srv_step_out_prefix] by auto
qed

subsection \<open>Frames that opened a stream\<close>

lemma opens_of_encode: "i \<in> set (opens_of (Some (WsBinary (encode f)))) \<Longrightarrow> opens_id i f"
  by (auto simp del: encode.simps dest!: sym [of "Inr _"] decode_encode_cases
      split: sum.split_asm frame.split_asm)

text \<open>The ids the server dispatched are those of the OPEN frames it has read.\<close>

lemma srv_opened:
  "srv_reachable items s \<Longrightarrow>
     \<exists>consumed. items = consumed @ s_in s \<and> s_opened s = concat (map opens_of consumed)"
proof (induction rule: srv_reachable.induct)
  case start
  show ?case by (simp add: srv_init_def)
next
  case (step s t)
  then obtain consumed where c: "items = consumed @ s_in s" "s_opened s = concat (map opens_of consumed)"
    by blast
  from step(2) c show ?case
  proof (induction rule: srv_step.induct)
    case (read_item s item rest connects ack_ok es)
    then show ?case by (intro exI [of _ "consumed @ [item]"]) simp
  qed auto
qed

text \<open>What was consumed of the frames that get through.\<close>

lemma causal_consumed:
  assumes "causal fs unread handed" "wire_items fs = consumed @ unread"
  obtains read rest where "fs = read @ rest" "unread = wire_items rest" "prefix read handed"
    "consumed = wire_items read"
  using assms by (auto simp: causal_def)

lemma opens_of_wire: "i \<in> set (concat (map opens_of (wire_items fs))) \<Longrightarrow> \<exists>d. Open i d \<in> set fs"
proof -
  assume "i \<in> set (concat (map opens_of (wire_items fs)))"
  then obtain f where f: "f \<in> set fs" "opens_id i f" using opens_of_encode by auto
  obtain d where "f = Open i d" by (cases f) (use f(2) in auto)
  with f show ?thesis by blast
qed

lemma no_data_payloads: "data_payloads i fs = [] \<longleftrightarrow> (\<forall>bs. Data i bs \<notin> set fs)"
  by (induction i fs rule: data_payloads.induct) auto

subsection \<open>A stream is opened once, before its data\<close>

lemma opens_once:
  assumes "cl_reachable items s" "distinct (c_ids s)" "c_out s = pre @ f # post"
    and "opens_id i f" "out_ok A [] (c_out s)"
  shows "data_payloads i pre = []"
proof (rule ccontr)
  assume "data_payloads i pre \<noteq> []"
  then obtain bs where "Data i bs \<in> set pre" by (auto simp: no_data_payloads)
  then obtain xs ys where pre: "pre = xs @ Data i bs # ys" by (auto simp: in_set_conv_decomp)
  with assms(3,5) have "frame_ok A xs (Data i bs)" by simp
  then obtain d where "Open i d \<in> set xs" by (auto simp: frame_ok_def)
  then obtain us vs where "xs = us @ Open i d # vs" by (auto simp: in_set_conv_decomp)
  with pre assms(3,4) have "2 \<le> length (filter (opens_id i) (c_out s))" by simp
  with client_one_open_per_id [OF assms(1,2), of i] show False by simp
qed

text \<open>A handler registers its stream while its OPEN is still to be sent.\<close>

fun registers_first :: "u32 \<Rightarrow> effect list \<Rightarrow> bool" where
  "registers_first i [] = True"
| "registers_first i (e # es) =
     (((\<exists>c. e = ERegistry (RegOp i c)) \<longrightarrow> 0 < task_opens i es) \<and> registers_first i es)"

lemma relay_registers_first: "registers_first i (relay_reader j ok rs)"
  by (induction j ok rs rule: relay_reader.induct) (auto simp: relay_finish_def)

lemma mux_task_registers_first: "mux_task env i es \<Longrightarrow> registers_first j es"
  by (cases rule: mux_task.cases; cases "ack_res env")
     (auto simp: mux_handler_defs relay_registers_first split: option.split)

definition registering_inv :: "cl_session \<Rightarrow> bool" where
  "registering_inv s \<longleftrightarrow> list_all (\<lambda>(i, es). registers_first i es) (c_tasks s)"

lemma cl_step_registering: "cl_step s t \<Longrightarrow> registering_inv s \<Longrightarrow> registering_inv t"
  by (induction rule: cl_step.induct)
     (auto simp: registering_inv_def cl_accept_def mux_task_registers_first)

lemma cl_reachable_registering: "cl_reachable items s \<Longrightarrow> registering_inv s"
proof (induction rule: cl_reachable.induct)
  case start
  show ?case by (simp add: registering_inv_def cl_init_def)
next
  case (step s t)
  then show ?case by (blast intro: cl_step_registering)
qed

text \<open>A step registers at most the stream of a handler that is about to register it.\<close>

lemma cl_step_reg:
  "cl_step s t \<Longrightarrow> cl_inv consumed s \<Longrightarrow> cl_data_inv consumed s \<Longrightarrow> inner (c_reg t) i = Some c \<Longrightarrow>
     (inner (c_reg s) i = Some c \<and> c_unread t c = c_unread s c) \<or>
     (c_unread t c = c_in s \<and> (\<exists>xs es ys. c_tasks s = xs @ (i, ERegistry (RegOp i c) # es) # ys))"
proof (induction rule: cl_step.induct)
  case (task_eff s xs j e es ys)
  then obtain sent acked where "task_ok (c_owner s) (c_ackowner s) j sent acked (e # es)"
    by (auto simp: cl_inv_def task_inv_def)
  with task_eff(1,5) cl_data_own [OF task_eff(4), of i c] show ?case
    by (cases e)
       (auto simp: registry_defs split: reg_op.splits option.splits if_splits)
next
  case (reader_eff s e es)
  then have "reader_ack_ok (acks_true consumed) e" by (simp add: cl_inv_def)
  with reader_eff(5) show ?case
    by (cases e)
       (auto simp: reader_ack_ok_def registry_defs split: reg_op.splits option.splits if_splits)
qed (auto simp: cl_accept_def close_all_def)

lemma acks_in_mem: "OpenAck i b \<in> set fs \<Longrightarrow> 0 < acks_in i fs"
  by (induction fs) (auto simp: acks_in_def)

lemma srv_acked_opened:
  assumes "srv_reachable items s" "OpenAck i b \<in> set (s_out s)"
  shows "i \<in> set (s_opened s)"
proof -
  have "0 < count_list (s_opened s) i"
    using acks_in_mem [OF assms(2)] srv_reachable_ack [OF assms(1), of i] by (simp add: ack_inv_def)
  then show ?thesis by (metis count_list_0_iff less_irrefl)
qed

lemma data_in_out_acked:
  assumes "data_after_ack out" "Data i bs \<in> set out"
  shows "OpenAck i True \<in> set out"
proof -
  obtain n where n: "n < length out" "out ! n = Data i bs" using assms(2) by (auto simp: in_set_conv_nth)
  then have "stream_of_relay_frame (out ! n) = Some i" by (simp add: stream_of_relay_frame_def)
  with assms(1) n(1) have "OpenAck i True \<in> set (take n out)" by (simp add: data_after_ack_def)
  then show ?thesis by (rule in_set_takeD)
qed

text \<open>The server sends data of a stream only after it has read the stream's OPEN.\<close>

lemma srv_data_needs_open:
  assumes "srv_reachable (wire_items up) s" "causal up (s_in s) handed" "Data i bs \<in> set (s_out s)"
  shows "\<exists>d. Open i d \<in> set handed"
proof -
  have "i \<in> set (s_opened s)"
    using srv_acked_opened [OF assms(1)] data_in_out_acked [OF _ assms(3)] srv_reachable_inv [OF assms(1)]
    by (auto simp: srv_inv_def)
  moreover obtain consumed where c: "wire_items up = consumed @ s_in s"
    "s_opened s = concat (map opens_of consumed)"
    using srv_opened [OF assms(1)] by blast
  moreover obtain read where r: "prefix read handed" "consumed = wire_items read"
    by (rule causal_consumed [OF assms(2) c(1)])
  ultimately obtain d where "Open i d \<in> set read" using opens_of_wire [of i read] by fastforce
  with set_mono_prefix [OF r(1)] show ?thesis by blast
qed

subsection \<open>A stream is registered at the client before the server sends data for it\<close>

definition early_registered :: "frame list \<Rightarrow> cl_session \<Rightarrow> bool" where
  "early_registered down s \<longleftrightarrow>
     (\<forall>i c. inner (c_reg s) i = Some c \<longrightarrow>
        (\<exists>pre. wire_items down = pre @ c_unread s c \<and> payloads i pre = []))"

lemma cl_step_ids: "cl_step s t \<Longrightarrow> prefix (c_ids s) (c_ids t)"
  by (induction rule: cl_step.induct) (auto simp: cl_accept_def)

lemma registering_unopened:
  assumes "cl_reachable items s" "distinct (c_ids s)" "c_tasks s = xs @ (i, ERegistry (RegOp i c) # es) # ys"
  shows "Open i d \<notin> set (c_out s)"
proof
  assume "Open i d \<in> set (c_out s)"
  then have "0 < length (filter (opens_id i) (c_out s))"
    by (simp add: filter_empty_conv) (auto intro!: bexI [of _ "Open i d"])
  moreover have "0 < task_opens i es"
    using cl_reachable_registering [OF assms(1)] assms(3) by (auto simp: registering_inv_def)
  moreover have "count_list (c_ids s) i \<le> 1" using assms(2) by (simp add: distinct_count_list)
  ultimately show False
    using cl_reachable_open [OF assms(1), of i] assms(3)
    by (simp add: open_inv_def del: length_greater_0_conv)
qed

lemma tun_early_registered:
  "tun_reachable up down x \<Longrightarrow> distinct (c_ids (fst x)) \<Longrightarrow> early_registered down (fst x)"
proof (induction rule: tun_reachable.induct)
  case start
  show ?case by (simp add: early_registered_def cl_init_def registry_new_def)
next
  case (server cs ss ss')
  then show ?case by simp
next
  case (client cs ss cs')
  have dist: "distinct (c_ids cs)"
    using client(5) cl_step_ids [OF client(2)] by (auto simp: prefix_def)
  with client have IH: "early_registered down cs" by simp
  from tun_ends [OF client(1)] have
    reach: "cl_reachable (wire_items down) cs" "srv_reachable (wire_items up) ss" by simp_all
  from tun_causal [OF client(1)] have
    causes: "causal down (c_in cs) (s_out ss)" "causal up (s_in ss) (c_out cs)" by simp_all
  obtain consumed where c: "wire_items down = consumed @ c_in cs" "cl_inv consumed cs"
    "cl_data_inv consumed cs"
    using cl_reachable_data [OF reach(1)] by blast
  obtain read where r: "prefix read (s_out ss)" "consumed = wire_items read"
    by (rule causal_consumed [OF causes(1) c(1)])
  show ?case
    unfolding early_registered_def fst_conv
  proof (intro allI impI)
    fix i d assume "inner (c_reg cs') i = Some d"
    from cl_step_reg [OF client(2) c(2,3) this] consider
      (old) "inner (c_reg cs) i = Some d" "c_unread cs' d = c_unread cs d"
      | (new) xs es ys where "c_unread cs' d = c_in cs"
          "c_tasks cs = xs @ (i, ERegistry (RegOp i d) # es) # ys"
      by blast
    then show "\<exists>pre. wire_items down = pre @ c_unread cs' d \<and> payloads i pre = []"
    proof cases
      case old
      with IH show ?thesis by (simp add: early_registered_def)
    next
      case new
      have "Data i bs \<notin> set read" for bs
        using srv_data_needs_open [OF reach(2) causes(2)] registering_unopened [OF reach(1) dist new(2)]
          set_mono_prefix [OF r(1)] by blast
      then have "payloads i consumed = []" by (simp add: r(2) payloads_encoded no_data_payloads del: map_map)
      with c(1) new(1) show ?thesis by auto
    qed
  qed
qed

subsection \<open>Connections behind the acknowledgements\<close>

text \<open>
  A positive acknowledgement, sent or about to be, is preceded by a connection that was established
  for its stream, to a destination that an OPEN of the stream asked for. \<open>j\<close> is the stream whose
  OPEN was dispatched last.
\<close>

fun acks_backed :: "(u32 \<times> string) set \<Rightarrow> u32 \<Rightarrow> (u32 \<times> string) set \<Rightarrow> effect list \<Rightarrow> bool" where
  "acks_backed R j C [] = True"
| "acks_backed R j C (ETcpConnect d ok # es) = acks_backed R j (if ok then insert (j, d) C else C) es"
| "acks_backed R j C (ESendFrame (OpenAck i True) ok # es) =
     ((\<exists>d. (i, d) \<in> C \<and> (i, d) \<in> R) \<and> acks_backed R j C es)"
| "acks_backed R j C (_ # es) = acks_backed R j C es"

definition asked :: "ws_item list \<Rightarrow> (u32 \<times> string) set" where
  "asked items = {(j, dest). \<exists>data. Some (WsBinary data) \<in> set items \<and> decode data = Inr (Open j dest)}"

definition backed_inv :: "ws_item list \<Rightarrow> srv_session \<Rightarrow> bool" where
  "backed_inv consumed s \<longleftrightarrow>
     acks_backed (asked consumed) (last (s_opened s)) (set (s_reached s)) (s_todo s) \<and>
     snd ` set (s_reached s) \<subseteq> set (s_connects s) \<and>
     (\<forall>i. OpenAck i True \<in> set (s_out s) \<longrightarrow> (\<exists>d. (i, d) \<in> set (s_reached s) \<and> (i, d) \<in> asked consumed))"

lemma dispatch_backed:
  "server_dispatch connects ack_ok c item = Some es \<Longrightarrow> asked [item] \<subseteq> R \<Longrightarrow>
     acks_backed R (last (ids @ opens_of item)) C es"
  by (auto simp: server_dispatch_def handle_open_def asked_def split: option.splits
      ws_message.splits sum.splits frame.splits if_splits)

lemma follow_up_backed [simp]: "acks_backed R j C (follow_up s e @ es) = acks_backed R j C es"
  by (cases "(s, e)" rule: follow_up.cases) (auto split: option.split)

lemma acks_backed_apply:
  "acks_backed R (last (s_opened s)) (set (s_reached s)) (e # es) \<Longrightarrow>
     acks_backed R (last (s_opened s)) (set (s_reached (apply_eff e s))) es"
  by (cases "(R, last (s_opened s), set (s_reached s), e # es)" rule: acks_backed.cases) (auto split: if_splits)

lemma apply_reached:
  "set (s_reached s) \<subseteq> set (s_reached (apply_eff e s))"
  "snd ` set (s_reached s) \<subseteq> set (s_connects s) \<Longrightarrow>
     snd ` set (s_reached (apply_eff e s)) \<subseteq> set (s_connects (apply_eff e s))"
  by (cases e; auto)+

lemma srv_step_backed:
  "srv_step s t \<Longrightarrow> srv_inv s \<Longrightarrow> backed_inv consumed s \<Longrightarrow> consumed @ s_in s = consumed' @ s_in t \<Longrightarrow>
     backed_inv consumed' t"
proof (induction rule: srv_step.induct)
  case (read_item s item rest connects ack_ok es)
  then have c: "consumed' = consumed @ [item]" by simp
  then have "asked [item] \<subseteq> asked consumed'" "asked consumed \<subseteq> asked consumed'"
    by (auto simp: asked_def)
  note asked = this
  have "acks_backed (asked consumed') (last (s_opened s @ opens_of item)) (set (s_reached s)) es"
    using dispatch_backed [OF read_item(4) asked(1)] .
  moreover have "\<exists>d. (i, d) \<in> set (s_reached s) \<and> (i, d) \<in> asked consumed'"
    if "OpenAck i True \<in> set (s_out s)" for i
    using that read_item(6) asked(2) unfolding backed_inv_def by (meson subsetD)
  ultimately show ?case using read_item(6) by (simp add: backed_inv_def)
next
  case (reader_eff s e es)
  then have bk: "acks_backed (asked consumed) (last (s_opened s)) (set (s_reached s)) (e # es)"
    by (simp add: backed_inv_def)
  have "\<exists>d. (i, d) \<in> set (s_reached (apply_eff e s)) \<and> (i, d) \<in> asked consumed"
    if "OpenAck i True \<in> set (s_out (apply_eff e s))" for i
    using that bk reader_eff(5) apply_reached(1) [of s e]
    by (cases e) (auto simp: backed_inv_def split: if_splits)
  with acks_backed_apply [OF bk] apply_reached(2) [of s e] reader_eff(5,6) show ?case
    by (simp add: backed_inv_def)
next
  case (relay_eff s xs i e es ys)
  then have rel: "relay_effect i e" by (auto simp: srv_inv_def)
  have "s_connects (apply_eff e s) = s_connects s" "s_reached (apply_eff e s) = s_reached s"
    using rel by (cases e; auto)+
  moreover have "OpenAck j True \<in> set (s_out s)" if "OpenAck j True \<in> set (s_out (apply_eff e s))" for j
    using rel that by (cases e) (auto split: if_splits)
  ultimately show ?case using relay_eff(4,5) by (simp add: backed_inv_def)
next
  case (reader_send_dropped s c d es)
  then show ?case by (simp add: backed_inv_def)
next
  case (reader_spawn s i c es close_ok rs)
  then show ?case by (simp add: backed_inv_def)
qed (simp_all add: backed_inv_def)

lemma srv_reachable_backed:
  "srv_reachable items s \<Longrightarrow> \<exists>consumed. items = consumed @ s_in s \<and> backed_inv consumed s"
proof (induction rule: srv_reachable.induct)
  case start
  show ?case by (simp add: backed_inv_def srv_init_def)
next
  case (step s t)
  then obtain consumed where c: "items = consumed @ s_in s" "backed_inv consumed s" by blast
  obtain consumed' where c': "items = consumed' @ s_in t"
    using srv_reachable_data [OF srv_reachable.step [OF step(1,2)]] by blast
  with c srv_step_backed [OF step(2) srv_reachable_inv [OF step(1)] c(2)] show ?case by metis
qed

lemma suffix_subseq_eq: "suffix xs ys \<Longrightarrow> subseq ys xs \<Longrightarrow> ys = xs"
  by (meson subseq_order.antisym suffix_imp_subseq)

lemma acks_true_wire: "i \<in> acks_true (wire_items fs) \<Longrightarrow> OpenAck i True \<in> set fs"
  by (auto simp: acks_true_def simp del: encode.simps dest!: sym [of "Inr _"] decode_encode_cases
      split: sum.splits)

lemma asked_wire: "(i, d) \<in> asked (wire_items fs) \<Longrightarrow> Open i d \<in> set fs"
  by (auto simp: asked_def simp del: encode.simps dest!: decode_encode_cases)

lemma srv_acks_connected:
  assumes "srv_reachable (wire_items up) s" "causal up (s_in s) handed" "OpenAck i True \<in> set (s_out s)"
  shows "\<exists>d. (i, d) \<in> set (s_reached s) \<and> is_dest_allowed d \<and> Open i d \<in> set handed"
proof -
  obtain consumed where c: "wire_items up = consumed @ s_in s" "backed_inv consumed s"
    using srv_reachable_backed [OF assms(1)] by blast
  obtain read where r: "prefix read handed" "consumed = wire_items read"
    by (rule causal_consumed [OF assms(2) c(1)])
  from c(2) assms(3) obtain d where d: "(i, d) \<in> set (s_reached s)" "(i, d) \<in> asked consumed"
    "d \<in> set (s_connects s)"
    by (force simp: backed_inv_def)
  have "Open i d \<in> set handed"
    using asked_wire [of i d read] d(2) r(2) set_mono_prefix [OF r(1)] by (auto simp del: map_map)
  moreover have "is_dest_allowed d"
    using d(3) srv_reachable_inv [OF assms(1)] by (auto simp: srv_inv_def list_all_iff)
  ultimately show ?thesis using d(1) by blast
qed

lemma at_most_one_filtered:
  assumes "length (filter P xs) \<le> 1" "x \<in> set xs" "y \<in> set xs" "P x" "P y"
  shows "x = y"
proof -
  have "x \<in> set (filter P xs)" "y \<in> set (filter P xs)" using assms by simp_all
  with assms(1) show ?thesis by (cases "filter P xs") auto
qed

lemma cl_data_acked:
  assumes "cl_reachable (wire_items down) s" "causal down (c_in s) handed"
    and "Data i bs \<in> set (c_out s)"
  shows "OpenAck i True \<in> set handed"
proof -
  obtain consumed where c: "wire_items down = consumed @ c_in s" "cl_inv consumed s"
    using cl_reachable_inv [OF assms(1)] by blast
  obtain read where r: "prefix read handed" "consumed = wire_items read"
    by (rule causal_consumed [OF assms(2) c(1)])
  obtain xs ys where "c_out s = xs @ Data i bs # ys" using assms(3) by (auto simp: in_set_conv_decomp)
  with c(2) have "frame_ok (acks_true consumed) xs (Data i bs)" by (simp add: cl_inv_def)
  then have "i \<in> acks_true (wire_items read)" by (simp add: frame_ok_def r(2))
  then show ?thesis using acks_true_wire set_mono_prefix [OF r(1)] by blast
qed

subsection \<open>Delivery is exact\<close>

lemma tun_exact_up:
  assumes "tun_reachable up down (cs, ss)" and "distinct (c_ids cs)"
    and "s_todo ss = []" and "inner (s_reg ss) i = Some c" and "c \<notin> s_gone ss"
  shows "\<exists>read unread. up = read @ unread \<and> s_in ss = wire_items unread \<and> prefix read (c_out cs) \<and>
     s_sent ss c = data_payloads i read"
proof -
  have reach: "cl_reachable (wire_items down) cs" "srv_reachable (wire_items up) ss"
    using tun_ends [OF assms(1)] by simp_all
  have cause: "causal up (s_in ss) (c_out cs)" using tun_causal [OF assms(1)] by simp
  from server_lossless_split [OF reach(2) assms(3-5)] obtain pre it post where
    c: "wire_items up = (pre @ it # post) @ s_in ss" "i \<in> set (opens_of it)" "s_sent ss c = payloads i post"
    by auto
  obtain read rest where r: "up = read @ rest" "s_in ss = wire_items rest" "prefix read (c_out cs)"
    "pre @ it # post = wire_items read"
    by (rule causal_consumed [OF cause c(1)])
  from r(4) obtain r1 f r2 where f: "read = r1 @ f # r2" "it = Some (WsBinary (encode f))" "post = wire_items r2"
    by (auto simp: append_eq_map_conv Cons_eq_map_conv)
  from r(3) f(1) obtain more where out: "c_out cs = r1 @ f # (r2 @ more)" by (auto simp: prefix_def)
  have opens: "opens_id i f" using c(2) f(2) opens_of_encode by blast
  obtain consumed where "cl_inv consumed cs" using cl_reachable_inv [OF reach(1)] by blast
  then have "out_ok (acks_true consumed) [] (c_out cs)" by (simp add: cl_inv_def)
  then have "data_payloads i r1 = []" by (rule opens_once [OF reach(1) assms(2) out opens])
  moreover have "data_payloads i [f] = []" using opens by (cases f) auto
  ultimately have "data_payloads i read = data_payloads i r2"
    using f(1) data_payloads_append [of i "[f]" r2] by simp
  then have "s_sent ss c = data_payloads i read" using c(3) f(3) payloads_encoded by simp
  with r show ?thesis by auto
qed

lemma tun_exact_down:
  assumes "tun_reachable up down (cs, ss)" and "distinct (c_ids cs)"
    and "c_todo cs = []" and "inner (c_reg cs) i = Some c" and "c \<notin> c_gone cs"
  shows "\<exists>read unread. down = read @ unread \<and> c_in cs = wire_items unread \<and> prefix read (s_out ss) \<and>
     c_sent cs c = data_payloads i read"
proof -
  have reach: "cl_reachable (wire_items down) cs" using tun_ends [OF assms(1)] by simp
  have cause: "causal down (c_in cs) (s_out ss)" using tun_causal [OF assms(1)] by simp
  obtain consumed where c: "wire_items down = consumed @ c_in cs" "cl_data_inv consumed cs"
    "cl_lossless_inv consumed cs"
    using cl_reachable_lossless [OF reach] by blast
  obtain read rest where r: "down = read @ rest" "c_in cs = wire_items rest" "prefix read (s_out ss)"
    "consumed = wire_items read"
    by (rule causal_consumed [OF cause c(1)])
  have "since_registered consumed cs i c (c_sent cs c)"
    using cl_losslessD [OF c(3) assms(4,5)] assms(3) by simp
  then obtain pre post where p: "consumed = pre @ post" "c_unread cs c = post @ c_in cs"
    "suffix (payloads i post) (c_sent cs c)"
    by (auto simp: since_registered_def)
  obtain pre' where "wire_items down = pre' @ c_unread cs c" "payloads i pre' = []"
    using tun_early_registered [OF assms(1)] assms(2,4) by (auto simp: early_registered_def)
  then have "payloads i pre = []" using c(1) p(1,2) by (simp del: map_map)
  then have all: "payloads i post = data_payloads i read"
    using p(1) r(4) payloads_encoded [of i read] by simp
  have "subseq (c_sent cs c) (payloads i consumed)"
    using cl_data_sent [OF c(2) cl_data_own [OF c(2) assms(4)]] .
  then have "c_sent cs c = data_payloads i read"
    using p(3) all r(4) payloads_encoded [of i read] suffix_subseq_eq by metis
  with r show ?thesis by auto
qed

subsection \<open>A run of both ends\<close>

text \<open>A schedule of both ends; an end may only read what the other has handed over.\<close>

fun tun_run :: "frame list \<Rightarrow> frame list \<Rightarrow> (cl_choice + srv_choice) list \<Rightarrow> cl_session \<times> srv_session \<Rightarrow>
    (cl_session \<times> srv_session) option" where
  "tun_run up down [] x = Some x"
| "tun_run up down (Inl m # ms) (cs, ss) =
     (case cl_move m cs of
        None \<Rightarrow> None
      | Some cs' \<Rightarrow>
          if prefix (take (length down - length (c_in cs')) down) (s_out ss)
          then tun_run up down ms (cs', ss) else None)"
| "tun_run up down (Inr m # ms) (cs, ss) =
     (case srv_move m ss of
        None \<Rightarrow> None
      | Some ss' \<Rightarrow>
          if prefix (take (length up - length (s_in ss')) up) (c_out cs)
          then tun_run up down ms (cs, ss') else None)"

lemma tun_run_append:
  "tun_run up down (ms @ ns) x = (case tun_run up down ms x of None \<Rightarrow> None | Some y \<Rightarrow> tun_run up down ns y)"
  by (induction up down ms x rule: tun_run.induct) (auto split: option.split)

lemma causal_intro:
  assumes "wire_items fs = consumed @ unread" "prefix (take (length fs - length unread) fs) handed"
  shows "causal fs unread handed"
proof -
  have "length consumed = length fs - length unread"
    using arg_cong [OF assms(1), of length] by simp
  then have "unread = wire_items (drop (length fs - length unread) fs)"
    using arg_cong [OF assms(1), of "drop (length consumed)"] by (simp add: drop_map)
  with assms(2) show ?thesis unfolding causal_def
    by (intro exI [of _ "take (length fs - length unread) fs"]
        exI [of _ "drop (length fs - length unread) fs"]) simp
qed

lemma tun_run_reachable:
  "tun_reachable up down x \<Longrightarrow> tun_run up down ms x = Some y \<Longrightarrow> tun_reachable up down y"
proof (induction up down ms x rule: tun_run.induct)
  case (2 up down m ms cs ss)
  from "2.prems"(2) obtain cs' where m: "cl_move m cs = Some cs'"
    "prefix (take (length down - length (c_in cs')) down) (s_out ss)"
    "tun_run up down ms (cs', ss) = Some y"
    by (auto split: option.splits if_splits)
  from tun_ends [OF "2.prems"(1)] cl_move_step [OF m(1)]
  have "cl_reachable (wire_items down) cs'" by (auto intro: cl_reachable.step)
  then have "causal down (c_in cs') (s_out ss)"
    using cl_reachable_inv causal_intro [OF _ m(2)] by blast
  with "2.prems"(1) cl_move_step [OF m(1)] have "tun_reachable up down (cs', ss)"
    by (rule tun_reachable.client)
  with m show ?case by (intro "2.IH") auto
next
  case (3 up down m ms cs ss)
  from "3.prems"(2) obtain ss' where m: "srv_move m ss = Some ss'"
    "prefix (take (length up - length (s_in ss')) up) (c_out cs)"
    "tun_run up down ms (cs, ss') = Some y"
    by (auto split: option.splits if_splits)
  from tun_ends [OF "3.prems"(1)] srv_move_step [OF m(1)]
  have "srv_reachable (wire_items up) ss'" by (auto intro: srv_reachable.step)
  then have "causal up (s_in ss') (c_out cs)"
    using srv_reachable_data causal_intro [OF _ m(2)] by blast
  with "3.prems"(1) srv_move_step [OF m(1)] have "tun_reachable up down (cs, ss')"
    by (rule tun_reachable.server)
  with m show ?case by (intro "3.IH") auto
qed simp

text \<open>
  Stream 1 is opened, the server connects and acknowledges, two bytes come down and one goes up.
\<close>

definition tun_up :: "frame list" where
  "tun_up = [Open 1 ''web.org:80'', Data 1 [7]]"

definition tun_down :: "frame list" where
  "tun_down = [OpenAck 1 True, Data 1 [5, 6]]"

definition tun_schedule :: "(cl_choice + srv_choice) list" where
  "tun_schedule = [Inl (MSocks 1 demo_mux ''web.org:80''), Inl (MTask 0), Inl (MTask 0), Inl (MTask 0),
     Inr (SRead True True), Inr SReader, Inr SReader, Inr SReader,
     Inr (SSpawn True [(ReadOk [5, 6], True)]), Inr (SRelay 0),
     Inl MRead, Inl MReader, Inl (MTask 0), Inl (MTask 0), Inl (MTask 0), Inl (MTask 0),
     Inr (SRead True True), Inr SReader, Inr SReader, Inl MRead, Inl MReader, Inl MReader]"

lemma tun_demo_run:
  "\<exists>cs ss. tun_run tun_up tun_down tun_schedule
       (cl_init (wire_items tun_down), srv_init (wire_items tun_up)) = Some (cs, ss) \<and>
     c_ids cs = [1] \<and> c_out cs = tun_up \<and> s_out ss = tun_down \<and>
     s_todo ss = [] \<and> inner (s_reg ss) 1 = Some 0 \<and> 0 \<notin> s_gone ss \<and> s_sent ss 0 = [[7]] \<and>
     c_todo cs = [] \<and> inner (c_reg cs) 1 = Some 0 \<and> 0 \<notin> c_gone cs \<and> c_sent cs 0 = [[5, 6]] \<and>
     s_in ss = [] \<and> c_in cs = []"
  by (simp add: tun_schedule_def tun_up_def tun_down_def cl_init_def srv_init_def demo_mux_def
      cl_accept_def demo_dispatch handle_socks_via_mux_with_timeout_def open_stream_def do_mux_relay_def
      registry_defs relay_finish_def decode_encode ascii_valid_str del: encode.simps)

lemma tun_demo:
  "\<exists>cs ss. tun_reachable tun_up tun_down (cs, ss) \<and> distinct (c_ids cs) \<and> c_out cs = tun_up \<and>
     s_out ss = tun_down \<and>
     s_todo ss = [] \<and> inner (s_reg ss) 1 = Some 0 \<and> 0 \<notin> s_gone ss \<and> s_sent ss 0 = [[7]] \<and>
     c_todo cs = [] \<and> inner (c_reg cs) 1 = Some 0 \<and> 0 \<notin> c_gone cs \<and> c_sent cs 0 = [[5, 6]] \<and>
     s_in ss = [] \<and> c_in cs = []"
  using tun_demo_run tun_run_reachable [OF tun_reachable.start] by fastforce

subsection \<open>Properties\<close>

text \<open>C2: with both ends of a mux connection running side by side and stream ids that are not reused,
  whenever the reader of the server has finished its current frame, the channel of a stream that is
  registered there and has its receiver has accepted exactly the DATA payloads of the stream in
  the frames that the server has read, from the stream's first DATA frame on; the client handed
  those frames to its writer in this order, and what the writer task of the target has received is
  the first part of the payloads, all but at most the capacity of the channel.\<close>

theorem tunnel_lossless_up:
  assumes "tun_reachable up down (cs, ss)" and "distinct (c_ids cs)"
    and "s_todo ss = []" and "inner (s_reg ss) i = Some c" and "c \<notin> s_gone ss"
    and "chan_contract chan_ok" and "chan_ok DATA_CHANNEL_CAP (s_sent ss c) rcvd"
  shows "\<exists>read unread. up = read @ unread \<and> s_in ss = wire_items unread \<and> prefix read (c_out cs) \<and>
     s_sent ss c = data_payloads i read \<and>
     prefix rcvd (data_payloads i read) \<and> length (data_payloads i read) \<le> length rcvd + DATA_CHANNEL_CAP"
proof -
  obtain read unread where "up = read @ unread" "s_in ss = wire_items unread" "prefix read (c_out cs)"
    "s_sent ss c = data_payloads i read"
    using tun_exact_up [OF assms(1-5)] by blast
  with chan_contractD [OF assms(6,7)] show ?thesis
    by (intro exI [of _ read] exI [of _ unread]) simp
qed

theorem tunnel_lossless_up_witness:
  "\<exists>cs ss read. tun_reachable tun_up tun_down (cs, ss) \<and> prefix read (c_out cs) \<and>
     prefix [[7]] (data_payloads 1 read)"
proof -
  obtain cs ss where d: "tun_reachable tun_up tun_down (cs, ss)" "distinct (c_ids cs)"
    "s_todo ss = []" "inner (s_reg ss) 1 = Some 0" "0 \<notin> s_gone ss" "s_sent ss 0 = [[7]]"
    using tun_demo by blast
  have "fifo_chan DATA_CHANNEL_CAP (s_sent ss 0) [[7]]" using d(6) by (simp add: fifo_chan_def)
  from tunnel_lossless_up [OF d(1-5) fifo_chan_contract this] d(1) show ?thesis by blast
qed

text \<open>C3: in the other direction nothing is lost either, not even what the server sends right after
  its acknowledgement, since the client registers a stream before it asks for it: with stream ids
  that are not reused, whenever the reader of the client has finished its current frame, the channel
  of a stream that is registered there and has its receiver has accepted exactly the DATA payloads
  of the stream in the frames that the client has read, from the first one on, and the local
  connection has received the first part of them, all but at most the capacity of the channel.\<close>

theorem tunnel_lossless_down:
  assumes "tun_reachable up down (cs, ss)" and "distinct (c_ids cs)"
    and "c_todo cs = []" and "inner (c_reg cs) i = Some c" and "c \<notin> c_gone cs"
    and "chan_contract chan_ok" and "chan_ok DATA_CHANNEL_CAP (c_sent cs c) rcvd"
  shows "\<exists>read unread. down = read @ unread \<and> c_in cs = wire_items unread \<and> prefix read (s_out ss) \<and>
     c_sent cs c = data_payloads i read \<and>
     prefix rcvd (data_payloads i read) \<and> length (data_payloads i read) \<le> length rcvd + DATA_CHANNEL_CAP"
proof -
  obtain read unread where "down = read @ unread" "c_in cs = wire_items unread" "prefix read (s_out ss)"
    "c_sent cs c = data_payloads i read"
    using tun_exact_down [OF assms(1-5)] by blast
  with chan_contractD [OF assms(6,7)] show ?thesis
    by (intro exI [of _ read] exI [of _ unread]) simp
qed

theorem tunnel_lossless_down_witness:
  "\<exists>cs ss read. tun_reachable tun_up tun_down (cs, ss) \<and> prefix read (s_out ss) \<and>
     prefix [[5, 6]] (data_payloads 1 read)"
proof -
  obtain cs ss where d: "tun_reachable tun_up tun_down (cs, ss)" "distinct (c_ids cs)"
    "c_todo cs = []" "inner (c_reg cs) 1 = Some 0" "0 \<notin> c_gone cs" "c_sent cs 0 = [[5, 6]]"
    using tun_demo by blast
  have "fifo_chan DATA_CHANNEL_CAP (c_sent cs 0) [[5, 6]]" using d(6) by (simp add: fifo_chan_def)
  from tunnel_lossless_down [OF d(1-5) fifo_chan_contract this] d(1) show ?thesis by blast
qed

text \<open>C9: no byte of a stream travels before its target is connected, and none to a forbidden one: as
  long as stream ids are not reused, when DATA of a stream has been handed to a writer, by the client
  or by the server, the server has established a TCP connection for this stream, to the
  destination that the client's OPEN of the stream names, and this destination passes the
  server's SSRF filter.\<close>

theorem tunnel_bytes_need_connection:
  assumes "tun_reachable up down (cs, ss)" and "distinct (c_ids cs)"
    and "Open i d \<in> set (c_out cs)" and "Data i bs \<in> set (c_out cs) \<union> set (s_out ss)"
  shows "is_dest_allowed d \<and> (i, d) \<in> set (s_reached ss)"
proof -
  from tun_ends [OF assms(1)] tun_causal [OF assms(1)] have
    t: "cl_reachable (wire_items down) cs" "srv_reachable (wire_items up) ss"
      "causal down (c_in cs) (s_out ss)" "causal up (s_in ss) (c_out cs)" by simp_all
  have "OpenAck i True \<in> set (s_out ss)"
    using assms(4) cl_data_acked [OF t(1,3)] data_in_out_acked srv_reachable_inv [OF t(2)]
    by (auto simp: srv_inv_def)
  from srv_acks_connected [OF t(2,4) this] obtain d' where
    d': "(i, d') \<in> set (s_reached ss)" "is_dest_allowed d'" "Open i d' \<in> set (c_out cs)" by blast
  have "Open i d = Open i d'"
    using at_most_one_filtered [OF client_one_open_per_id [OF t(1) assms(2), of i] assms(3) d'(3)] by simp
  with d' show ?thesis by simp
qed

theorem tunnel_bytes_need_connection_witness:
  "\<exists>cs ss. tun_reachable tun_up tun_down (cs, ss) \<and> Data 1 [5, 6] \<in> set (s_out ss) \<and>
     is_dest_allowed ''web.org:80'' \<and> (1, ''web.org:80'') \<in> set (s_reached ss)"
proof -
  obtain cs ss where d: "tun_reachable tun_up tun_down (cs, ss)" "distinct (c_ids cs)" "c_out cs = tun_up"
    "s_out ss = tun_down"
    using tun_demo by blast
  then have "Open 1 ''web.org:80'' \<in> set (c_out cs)" "Data 1 [5, 6] \<in> set (c_out cs) \<union> set (s_out ss)"
    by (simp_all add: tun_up_def tun_down_def)
  note goes = tunnel_bytes_need_connection [OF d(1,2) this]
  have "Data 1 [5, 6] \<in> set (s_out ss)" using d(4) by (simp add: tun_down_def)
  with goes d(1) show ?thesis by blast
qed

end
