(* ===== verification/Mux_Keeper.thy ===== *)
theory Mux_Keeper
  imports Session
begin

text \<open>
  The task that keeps the tunnel up (\<open>run_mux_keeper\<close> of \<open>client/src/lib.rs\<close>) and the closing of
  a connection (\<open>MuxConn::close\<close>). The task is a state machine over the results of its awaits;
  durations are in milliseconds. A connection is named by its number, the registry and table
  of pending acknowledgements it owns are in \<open>mux_conn\<close>.
\<close>

definition RECONNECT_INITIAL_MS :: nat where "RECONNECT_INITIAL_MS = 500"

definition RECONNECT_MAX_SECS :: nat where "RECONNECT_MAX_SECS = 30"

definition max_backoff :: nat where "max_backoff = RECONNECT_MAX_SECS * 1000"

lemmas backoff_consts = RECONNECT_INITIAL_MS_def RECONNECT_MAX_SECS_def max_backoff_def

subsection \<open>A connection\<close>

record mux_conn =
  mc_registry :: registry
  mc_acks :: "u32 \<rightharpoonup> cid"

definition mux_conn_new :: mux_conn where
  "mux_conn_new = \<lparr>mc_registry = registry_new, mc_acks = Map.empty\<rparr>"

definition mux_conn_close :: "mux_conn \<Rightarrow> mux_conn" where
  "mux_conn_close c = c\<lparr>mc_acks := Map.empty, mc_registry := close_all (mc_registry c)\<rparr>"

subsection \<open>The state machine\<close>

datatype keeper_event =
    TokenRes "string option"   \<comment> \<open>\<open>obtain_token\<close> returned\<close>
  | SleepDone
  | StopRecv                   \<comment> \<open>the shutdown channel was signalled\<close>
  | ConnectRes bool            \<comment> \<open>\<open>connect_async\<close> of the mux endpoint returned\<close>
  | HelloRes bool              \<comment> \<open>sending HELLO returned\<close>
  | DiscRecv                   \<comment> \<open>one of the two loops of the connection has ended\<close>

datatype keeper_phase =
    GetToken | SleepToken | Connecting string | SleepConnect | SendingHello string | Connected | Stopped

record keeper =
  k_phase :: keeper_phase
  k_backoff :: nat
  k_shared :: "nat option"     \<comment> \<open>the connection request handlers see\<close>
  k_conns :: "mux_conn list"   \<comment> \<open>all connections published so far\<close>
  k_closed :: "nat list"       \<comment> \<open>the connections closed so far, in order\<close>
  k_sleeps :: "nat list"       \<comment> \<open>the delays slept, latest first\<close>
  k_tokens :: "string list"    \<comment> \<open>tokens obtained\<close>
  k_hellos :: "string list"    \<comment> \<open>tokens presented to the server\<close>

definition keeper_init :: keeper where
  "keeper_init = \<lparr>k_phase = GetToken, k_backoff = RECONNECT_INITIAL_MS, k_shared = None, k_conns = [], k_closed = [],
     k_sleeps = [], k_tokens = [], k_hellos = []\<rparr>"

definition next_backoff :: "nat \<Rightarrow> nat" where
  "next_backoff b = min (b * 2) max_backoff"

text \<open>Taking the published connection and closing it.\<close>

definition drop_shared :: "keeper \<Rightarrow> keeper" where
  "drop_shared k =
     (case k_shared k of
        None \<Rightarrow> k
      | Some c \<Rightarrow> k\<lparr>k_shared := None, k_conns := (k_conns k)[c := mux_conn_close (k_conns k ! c)],
          k_closed := k_closed k @ [c]\<rparr>)"

text \<open>\<open>None\<close>: the task does not wait for this event.\<close>

fun keeper_step :: "keeper_phase \<Rightarrow> keeper_event \<Rightarrow> keeper \<Rightarrow> keeper option" where
  "keeper_step GetToken (TokenRes (Some t)) k =
     Some (k\<lparr>k_backoff := RECONNECT_INITIAL_MS, k_phase := Connecting t, k_tokens := k_tokens k @ [t]\<rparr>)"
| "keeper_step GetToken (TokenRes None) k =
     Some (k\<lparr>k_phase := SleepToken, k_sleeps := k_backoff k # k_sleeps k\<rparr>)"
| "keeper_step SleepToken SleepDone k =
     Some (k\<lparr>k_phase := GetToken, k_backoff := next_backoff (k_backoff k)\<rparr>)"
| "keeper_step SleepToken StopRecv k = Some (k\<lparr>k_phase := Stopped\<rparr>)"
| "keeper_step (Connecting t) (ConnectRes True) k = Some (k\<lparr>k_phase := SendingHello t\<rparr>)"
| "keeper_step (Connecting t) (ConnectRes False) k =
     Some (k\<lparr>k_phase := SleepConnect, k_sleeps := k_backoff k # k_sleeps k\<rparr>)"
| "keeper_step SleepConnect SleepDone k =
     Some (k\<lparr>k_phase := GetToken, k_backoff := next_backoff (k_backoff k)\<rparr>)"
| "keeper_step SleepConnect StopRecv k = Some (k\<lparr>k_phase := Stopped\<rparr>)"
| "keeper_step (SendingHello t) (HelloRes False) k = Some (k\<lparr>k_phase := GetToken\<rparr>)"
| "keeper_step (SendingHello t) (HelloRes True) k =
     Some (k\<lparr>k_phase := Connected, k_backoff := RECONNECT_INITIAL_MS, k_shared := Some (length (k_conns k)),
       k_conns := k_conns k @ [mux_conn_new], k_hellos := k_hellos k @ [t]\<rparr>)"
| "keeper_step Connected DiscRecv k = Some ((drop_shared k)\<lparr>k_phase := GetToken\<rparr>)"
| "keeper_step Connected StopRecv k = Some ((drop_shared k)\<lparr>k_phase := Stopped\<rparr>)"
| "keeper_step _ _ k = None"

fun_cases keeper_stepE: "keeper_step p e k = Some k'"

text \<open>
  Handlers and the two loops of a connection work on the connection they hold, even after it
  was closed: between events of the keeper the contents of all connections change arbitrarily.
\<close>

inductive keeper_reachable :: "keeper \<Rightarrow> bool" where
  start: "keeper_reachable keeper_init"
| step: "keeper_reachable k \<Longrightarrow> keeper_step (k_phase k) e k = Some k' \<Longrightarrow> keeper_reachable k'"
| work: "keeper_reachable k \<Longrightarrow> keeper_reachable (k\<lparr>k_conns := (k_conns k)[c := conn]\<rparr>)"

fun keeper_run :: "keeper_event list \<Rightarrow> keeper \<Rightarrow> keeper option" where
  "keeper_run [] k = Some k"
| "keeper_run (e # es) k =
     (case keeper_step (k_phase k) e k of None \<Rightarrow> None | Some k' \<Rightarrow> keeper_run es k')"

lemma keeper_run_append:
  "keeper_run (xs @ ys) k = Option.bind (keeper_run xs k) (keeper_run ys)"
  by (induction xs arbitrary: k) (auto split: option.split)

lemma keeper_run_reachable: "keeper_reachable k \<Longrightarrow> keeper_run es k = Some k' \<Longrightarrow> keeper_reachable k'"
  by (induction es arbitrary: k) (auto split: option.splits intro: keeper_reachable.step)

subsection \<open>Invariant\<close>

text \<open>The token a phase still has to present.\<close>

fun phase_token :: "keeper_phase \<Rightarrow> string list" where
  "phase_token (Connecting t) = [t]"
| "phase_token (SendingHello t) = [t]"
| "phase_token _ = []"

definition conn_closed :: "mux_conn \<Rightarrow> bool" where
  "conn_closed c \<longleftrightarrow> mc_acks c = Map.empty \<and> inner (mc_registry c) = Map.empty"

definition keeper_inv :: "keeper \<Rightarrow> bool" where
  "keeper_inv k \<longleftrightarrow>
     RECONNECT_INITIAL_MS \<le> k_backoff k \<and> k_backoff k \<le> max_backoff \<and>
     list_all (\<lambda>d. RECONNECT_INITIAL_MS \<le> d \<and> d \<le> max_backoff) (k_sleeps k) \<and>
     (phase_token (k_phase k) \<noteq> [] \<longrightarrow> k_backoff k = RECONNECT_INITIAL_MS) \<and>
     k_shared k = (if k_phase k = Connected then Some (length (k_conns k) - 1) else None) \<and>
     (k_phase k = Connected \<longrightarrow> k_conns k \<noteq> []) \<and>
     k_closed k = [0..<length (k_conns k) - of_bool (k_phase k = Connected)] \<and>
     subseq (k_hellos k @ phase_token (k_phase k)) (k_tokens k)"

lemma conn_closed_close: "conn_closed (mux_conn_close c)"
  by (simp add: conn_closed_def mux_conn_close_def close_all_def)

lemma next_backoff_bounds:
  "RECONNECT_INITIAL_MS \<le> b \<Longrightarrow> RECONNECT_INITIAL_MS \<le> next_backoff b \<and> next_backoff b \<le> max_backoff"
  by (auto simp: next_backoff_def backoff_consts)

lemma drop_shared_inv:
  assumes "k_shared k = Some (length (k_conns k) - 1)" "k_conns k \<noteq> []"
    and "k_closed k = [0..<length (k_conns k) - 1]"
  shows "k_closed (drop_shared k) = [0..<length (k_conns (drop_shared k))]"
    "k_shared (drop_shared k) = None"
proof -
  from assms(2) obtain n where "length (k_conns k) = Suc n" by (metis length_0_conv not0_implies_Suc)
  with assms show "k_closed (drop_shared k) = [0..<length (k_conns (drop_shared k))]"
    "k_shared (drop_shared k) = None"
    by (auto simp: drop_shared_def)
qed

lemma drop_shared_fields [simp]:
  "k_backoff (drop_shared k) = k_backoff k" "k_sleeps (drop_shared k) = k_sleeps k"
  "k_tokens (drop_shared k) = k_tokens k" "k_hellos (drop_shared k) = k_hellos k"
  by (auto simp: drop_shared_def split: option.split)

lemma subseq_drop_last: "subseq (xs @ ys) zs \<Longrightarrow> subseq xs zs"
  by (metis prefixI prefix_imp_subseq subseq_order.trans)

lemma keeper_step_inv:
  assumes "keeper_inv k" "keeper_step (k_phase k) e k = Some k'"
  shows "keeper_inv k'"
  using assms(2) assms(1) next_backoff_bounds [of "k_backoff k"] drop_shared_inv [of k]
  by (elim keeper_stepE; simp add: keeper_inv_def backoff_consts)
     (auto intro: subseq_drop_last list_emb_append2)

lemma keeper_work_inv: "keeper_inv k \<Longrightarrow> keeper_inv (k\<lparr>k_conns := (k_conns k)[c := conn]\<rparr>)"
  by (simp add: keeper_inv_def)

lemma keeper_reachable_inv: "keeper_reachable k \<Longrightarrow> keeper_inv k"
proof (induction rule: keeper_reachable.induct)
  case start
  show ?case by (simp add: keeper_inv_def keeper_init_def backoff_consts)
qed (auto intro: keeper_step_inv keeper_work_inv)

text \<open>A token failure followed by the end of the sleep.\<close>

definition token_failures :: "nat \<Rightarrow> keeper_event list" where
  "token_failures n = concat (replicate n [TokenRes None, SleepDone])"

lemma token_failures_Suc: "token_failures (Suc n) = [TokenRes None, SleepDone] @ token_failures n"
  by (simp add: token_failures_def)

lemma next_backoff_pow: "min (min (b * 2) max_backoff * 2 ^ n) max_backoff = min (b * 2 ^ Suc n) max_backoff"
proof (cases "b * 2 \<le> max_backoff")
  case False
  then have "max_backoff \<le> b * 2" by simp
  also have "\<dots> \<le> b * 2 * 2 ^ n" by simp
  also have "\<dots> = b * 2 ^ Suc n" by simp
  finally show ?thesis using False by simp
qed (simp add: mult.assoc)

lemma token_failures_run:
  assumes "k_phase k = GetToken" "k_backoff k \<le> max_backoff"
  shows "\<exists>k'. keeper_run (token_failures n) k = Some k' \<and> k_phase k' = GetToken \<and>
     k_backoff k' = min (k_backoff k * 2 ^ n) max_backoff \<and>
     k_sleeps k' = rev (map (\<lambda>j. min (k_backoff k * 2 ^ j) max_backoff) [0..<n]) @ k_sleeps k"
  using assms
proof (induction n arbitrary: k)
  case 0
  then show ?case by (simp add: token_failures_def)
next
  case (Suc n)
  let ?k1 = "k\<lparr>k_sleeps := k_backoff k # k_sleeps k, k_phase := GetToken, k_backoff := next_backoff (k_backoff k)\<rparr>"
  have "k_phase ?k1 = GetToken" "k_backoff ?k1 \<le> max_backoff"
    using Suc.prems by (simp_all add: next_backoff_def)
  from Suc.IH [OF this] obtain k' where k': "keeper_run (token_failures n) ?k1 = Some k'"
    "k_phase k' = GetToken" "k_backoff k' = min (next_backoff (k_backoff k) * 2 ^ n) max_backoff"
    "k_sleeps k' = rev (map (\<lambda>j. min (next_backoff (k_backoff k) * 2 ^ j) max_backoff) [0..<n]) @
       k_backoff k # k_sleeps k"
    by auto
  have "keeper_run (token_failures (Suc n)) k = Some k'"
    using k'(1) Suc.prems(1) by (simp add: token_failures_Suc)
  moreover have "map (\<lambda>j. min (k_backoff k * 2 ^ j) max_backoff) [0..<Suc n] =
      k_backoff k # map (\<lambda>j. min (next_backoff (k_backoff k) * 2 ^ j) max_backoff) [0..<n]"
    using Suc.prems(2)
    by (simp add: upt_conv_Cons map_Suc_upt [symmetric] next_backoff_def next_backoff_pow
        del: upt_Suc power_Suc)
  ultimately show ?case using k' by (simp add: next_backoff_def next_backoff_pow del: upt_Suc power_Suc)
qed

subsection \<open>Properties\<close>

text \<open>C25: at every moment of the keeper's life every delay it has slept lies between 500 ms and 30 s,
  request handlers see a connection exactly while the keeper serves it, namely the newest one,
  and each earlier connection (after a stop, each one) has been closed once, in order, which
  clears its registry and its pending acknowledgements; tokens are presented at most once, in
  the order in which they were obtained.\<close>

theorem keeper_safe:
  assumes "keeper_reachable k"
  shows "list_all (\<lambda>d. 500 \<le> d \<and> d \<le> 30000) (k_sleeps k) \<and>
     k_shared k = (if k_phase k = Connected then Some (length (k_conns k) - 1) else None) \<and>
     k_closed k = [0..<length (k_conns k) - of_bool (k_phase k = Connected)] \<and>
     conn_closed (mux_conn_close conn) \<and>
     subseq (k_hellos k) (k_tokens k)"
  using keeper_reachable_inv [OF assms]
  by (auto simp: keeper_inv_def backoff_consts conn_closed_close intro: subseq_drop_last)

definition demo_keeper_events :: "keeper_event list" where
  "demo_keeper_events =
     [TokenRes None, SleepDone, TokenRes (Some ''t1''), ConnectRes True, HelloRes True, DiscRecv]"

theorem keeper_safe_witness:
  "\<exists>k. keeper_run demo_keeper_events keeper_init = Some k \<and> k_sleeps k = [500] \<and> k_shared k = None \<and>
     k_closed k = [0]"
proof -
  obtain k where k: "keeper_run demo_keeper_events keeper_init = Some k" "k_sleeps k = [500]"
    "length (k_conns k) = 1" "k_phase k = GetToken"
    by (simp add: demo_keeper_events_def keeper_init_def drop_shared_def RECONNECT_INITIAL_MS_def)
  with keeper_safe [OF keeper_run_reachable [OF keeper_reachable.start k(1)]] show ?thesis by auto
qed

text \<open>While the control handshake keeps failing, the delays double from the current one up to the
  cap: the n-th is \<open>min(backoff * 2^n, 30 s)\<close>, so 500 ms, 1 s, 2 s, 4 s, 8 s, 16 s, 30 s, 30 s, ...
  after a start.\<close>

theorem keeper_backoff_doubles:
  assumes "k_phase k = GetToken" and "k_backoff k \<le> max_backoff"
  shows "\<exists>k'. keeper_run (token_failures n) k = Some k' \<and> k_phase k' = GetToken \<and>
     rev (k_sleeps k') = rev (k_sleeps k) @ map (\<lambda>j. min (k_backoff k * 2 ^ j) 30000) [0..<n]"
  using token_failures_run [OF assms, of n] by (auto simp: backoff_consts)

theorem keeper_backoff_doubles_witness:
  "\<exists>k'. keeper_run (token_failures 8) keeper_init = Some k' \<and>
     rev (k_sleeps k') = [500, 1000, 2000, 4000, 8000, 16000, 30000, 30000]"
  using keeper_backoff_doubles [of keeper_init 8]
  by (auto simp: keeper_init_def backoff_consts upt_rec)

text \<open>An available server is reached: from the state in which it asks for a token, a successful
  handshake, connect and HELLO publish a fresh connection with empty tables.\<close>

lemma keeper_connects:
  assumes "k_phase k = GetToken"
  shows "\<exists>k'. keeper_run [TokenRes (Some t), ConnectRes True, HelloRes True] k = Some k' \<and>
     k_phase k' = Connected \<and> k_hellos k' = k_hellos k @ [t] \<and>
     k_shared k' = Some (length (k_conns k)) \<and> k_conns k' = k_conns k @ [mux_conn_new]"
  using assms by simp

lemma keeper_connects_example:
  "\<exists>k'. keeper_run [TokenRes (Some ''t''), ConnectRes True, HelloRes True] keeper_init = Some k' \<and>
     k_phase k' = Connected"
  using keeper_connects [of keeper_init "''t''"] by (auto simp: keeper_init_def)

text \<open>The doubling of the delay has no effect when the mux endpoint cannot be reached: the token
  handshake before each attempt resets the delay, so every sleep after a failed connect lasts
  500 ms.\<close>

lemma keeper_connect_failure_delay:
  assumes "keeper_reachable k" and "k_phase k = Connecting t"
  shows "\<exists>k'. keeper_step (k_phase k) (ConnectRes False) k = Some k' \<and> k_sleeps k' = 500 # k_sleeps k"
  using keeper_reachable_inv [OF assms(1)] assms(2) by (auto simp: keeper_inv_def backoff_consts)

definition connect_failures :: "nat \<Rightarrow> keeper_event list" where
  "connect_failures n = concat (replicate n [TokenRes (Some ''t''), ConnectRes False, SleepDone])"

lemma keeper_connect_failure_delay_example:
  "\<exists>k k'. keeper_run (connect_failures 3 @ [TokenRes (Some ''t'')]) keeper_init = Some k \<and>
     keeper_step (k_phase k) (ConnectRes False) k = Some k' \<and> k_sleeps k' = [500, 500, 500, 500]"
proof -
  obtain k where k: "keeper_run (connect_failures 3 @ [TokenRes (Some ''t'')]) keeper_init = Some k"
    "k_phase k = Connecting ''t''" "k_sleeps k = [500, 500, 500]"
    by (simp add: connect_failures_def keeper_init_def numeral_3_eq_3 RECONNECT_INITIAL_MS_def)
  with keeper_connect_failure_delay [OF keeper_run_reachable [OF keeper_reachable.start k(1)] k(2)]
  show ?thesis by auto
qed

end
