(* ===== verification/Client_System.thy ===== *)
theory Client_System
  imports Client_Mux Mux_Keeper
begin

text \<open>
  The whole resilient client (\<open>run_proxy_resilient\<close> of \<open>client/src/lib.rs\<close>): the two accept loops with
  their shared counter, the keeper, and every mux connection it has published with the request
  handlers that run on it. The state machines \<open>keeper_step\<close> and \<open>cl_step\<close> are composed: the keeper
  publishes a connection by creating a session and drops it by closing that session, and a
  handler runs on the connection that was published when it took its snapshot, also after the
  keeper has dropped it.
\<close>

subsection \<open>State and steps\<close>

text \<open>
  \<open>y_count\<close> is the number of connections accepted so far, of both listeners; the counter
  \<open>next_id\<close> is \<open>accept_id y_count\<close>. \<open>y_pending\<close> are the ids of accepted connections whose handler
  has not yet taken a mux connection, \<open>y_stop\<close> tells whether the stop signal to the keeper is
  waiting in its channel.
\<close>

definition accept_id :: "nat \<Rightarrow> u32" where
  "accept_id n = 1 + of_nat n"

record client_sys =
  y_keeper :: keeper
  y_conns :: "cl_session list"
  y_count :: nat
  y_pending :: "u32 list"
  y_http :: bool
  y_socks :: bool
  y_stop :: bool

definition sys_init :: "bool \<Rightarrow> client_sys" where
  "sys_init socks = \<lparr>y_keeper = keeper_init, y_conns = [], y_count = 0, y_pending = [], y_http = True,
     y_socks = socks, y_stop = False\<rparr>"

text \<open>What the keeper sees of a session, and \<open>MuxConn::close\<close> on a session.\<close>

definition conn_view :: "cl_session \<Rightarrow> mux_conn" where
  "conn_view s = \<lparr>mc_registry = c_reg s, mc_acks = c_acks s\<rparr>"

definition cl_close :: "cl_session \<Rightarrow> cl_session" where
  "cl_close s = s\<lparr>c_acks := Map.empty, c_reg := close_all (c_reg s)\<rparr>"

text \<open>One of the two loops of a connection has ended and signalled it.\<close>

definition conn_ended :: "cl_session \<Rightarrow> bool" where
  "conn_ended s \<longleftrightarrow> \<not> c_reading s \<and> c_todo s = [] \<or> \<not> c_writing s"

definition set_conn :: "nat \<Rightarrow> cl_session \<Rightarrow> client_sys \<Rightarrow> client_sys" where
  "set_conn c t y =
     y\<lparr>y_conns := (y_conns y)[c := t],
       y_keeper := (y_keeper y)\<lparr>k_conns := (k_conns (y_keeper y))[c := conn_view t]\<rparr>\<rparr>"

definition sys_accept :: "client_sys \<Rightarrow> client_sys" where
  "sys_accept y = y\<lparr>y_pending := y_pending y @ [accept_id (y_count y)], y_count := Suc (y_count y)\<rparr>"

definition close_shared :: "nat option \<Rightarrow> cl_session list \<Rightarrow> cl_session list" where
  "close_shared shared conns =
     (case shared of None \<Rightarrow> conns | Some c \<Rightarrow> conns[c := cl_close (conns ! c)])"

text \<open>
  \<open>leave\<close> is a handler that never uses the tunnel: its request is rejected or forwarded directly,
  or there is no connection and it answers so. \<open>work\<close> is any step of a connection other than a
  handler taking it.
\<close>

inductive sys_step :: "client_sys \<Rightarrow> client_sys \<Rightarrow> bool" where
  http_accept: "y_http y \<Longrightarrow> sys_step y (sys_accept y)"
| socks_accept: "y_socks y \<Longrightarrow> sys_step y (sys_accept y)"
| socks_end: "y_socks y \<Longrightarrow> sys_step y (y\<lparr>y_socks := False\<rparr>)"
| http_end: "y_http y \<Longrightarrow> sys_step y (y\<lparr>y_http := False, y_stop := True\<rparr>)"
| leave: "y_pending y = xs @ i # ys \<Longrightarrow> sys_step y (y\<lparr>y_pending := xs @ ys\<rparr>)"
| take_conn:
    "y_pending y = xs @ i # ys \<Longrightarrow> k_shared (y_keeper y) = Some c \<Longrightarrow> mux_task env i es \<Longrightarrow>
     data_cid env = c_next (y_conns y ! c) \<Longrightarrow> ack_cid env = Suc (c_next (y_conns y ! c)) \<Longrightarrow>
     sys_step y ((set_conn c (cl_accept i es (y_conns y ! c)) y)\<lparr>y_pending := xs @ ys\<rparr>)"
| work:
    "c < length (y_conns y) \<Longrightarrow> cl_step (y_conns y ! c) t \<Longrightarrow> c_ids t = c_ids (y_conns y ! c) \<Longrightarrow>
     sys_step y (set_conn c t y)"
| keep:
    "keeper_step (k_phase (y_keeper y)) e (y_keeper y) = Some k \<Longrightarrow>
     e \<notin> {HelloRes True, DiscRecv, StopRecv} \<Longrightarrow> sys_step y (y\<lparr>y_keeper := k\<rparr>)"
| publish:
    "keeper_step (k_phase (y_keeper y)) (HelloRes True) (y_keeper y) = Some k \<Longrightarrow>
     sys_step y (y\<lparr>y_keeper := k, y_conns := y_conns y @ [cl_init items]\<rparr>)"
| disconnect:
    "keeper_step (k_phase (y_keeper y)) DiscRecv (y_keeper y) = Some k \<Longrightarrow>
     k_shared (y_keeper y) = Some c \<Longrightarrow> conn_ended (y_conns y ! c) \<Longrightarrow>
     sys_step y (y\<lparr>y_keeper := k, y_conns := close_shared (Some c) (y_conns y)\<rparr>)"
| stop:
    "keeper_step (k_phase (y_keeper y)) StopRecv (y_keeper y) = Some k \<Longrightarrow> y_stop y \<Longrightarrow>
     sys_step y (y\<lparr>y_keeper := k, y_conns := close_shared (k_shared (y_keeper y)) (y_conns y), y_stop := False\<rparr>)"

inductive sys_reachable :: "bool \<Rightarrow> client_sys \<Rightarrow> bool" for socks where
  start: "sys_reachable socks (sys_init socks)"
| step: "sys_reachable socks y \<Longrightarrow> sys_step y z \<Longrightarrow> sys_reachable socks z"

subsection \<open>The entry points take a connection as the steps say\<close>

text \<open>
  An HTTP request that is accepted and routed to the tunnel runs, on the connection of its
  snapshot, the handler of \<open>take_conn\<close>; without a connection it is answered 502 and no frame is sent.
\<close>

lemma http_entry_takes_conn:
  assumes "parse_request_header bs fin = Ready (Some ((host, headers, body), rest))"
    and "route_of cx (http_host_port host) = Some False"
  shows "mux_task env i (handle_local_connection_resilient cx denv (Some env) write_ok i bs fin)"
    and "handle_local_connection_resilient cx denv None write_ok i bs fin = [ETcpWrite bad_gateway write_ok]"
  using assms by (auto simp: handle_local_connection_resilient_def to_request_def intro: mux_task.http)

lemma socks_entry_takes_conn:
  assumes "parse_socks5_request auth_ok bs fin = (written, Ready (Some (host, rest)))"
    and "route_of cx (split_host_port host) = Some False"
  shows "\<exists>es. mux_task env i es \<and>
      handle_socks_connection_resilient cx denv (Some env) auth_ok write_ok i bs fin = ETcpWrite written True # es"
    and "handle_socks_connection_resilient cx denv None auth_ok write_ok i bs fin =
      [ETcpWrite written True, ETcpWrite (socks5_reply SOCKS5_REP_GENERAL_FAILURE) write_ok]"
  using assms
  by (cases written; auto simp: handle_socks_connection_resilient_def intro: mux_task.socks)+

subsection \<open>Invariant\<close>

lemma conn_view_close: "conn_view (cl_close s) = mux_conn_close (conn_view s)"
  by (simp add: conn_view_def cl_close_def mux_conn_close_def)

lemma conn_view_init: "conn_view (cl_init items) = mux_conn_new"
  by (simp add: conn_view_def cl_init_def mux_conn_new_def)

lemma cl_close_step: "cl_step s (cl_close s)"
  unfolding cl_close_def by (rule cl_step.conn_close)

lemma cl_close_ids [simp]: "c_ids (cl_close s) = c_ids s"
  by (simp add: cl_close_def)

definition sys_inv :: "client_sys \<Rightarrow> bool" where
  "sys_inv y \<longleftrightarrow>
     keeper_reachable (y_keeper y) \<and>
     k_conns (y_keeper y) = map conn_view (y_conns y) \<and>
     (\<forall>s\<in>set (y_conns y). \<exists>items. cl_reachable items s)"

lemma sys_shared:
  assumes "sys_inv y" "k_shared (y_keeper y) = Some c"
  shows "c < length (y_conns y)" "k_phase (y_keeper y) = Connected" "c = length (y_conns y) - 1"
proof -
  have "keeper_inv (y_keeper y)" using assms(1) by (simp add: sys_inv_def keeper_reachable_inv)
  then have "k_phase (y_keeper y) = Connected \<and> k_conns (y_keeper y) \<noteq> [] \<and>
      c = length (k_conns (y_keeper y)) - 1"
    using assms(2) by (auto simp: keeper_inv_def split: if_splits)
  then show "c < length (y_conns y)" "k_phase (y_keeper y) = Connected" "c = length (y_conns y) - 1"
    using assms(1) by (auto simp: sys_inv_def)
qed

lemma set_conn_inv:
  assumes "sys_inv y" "c < length (y_conns y)" "cl_step (y_conns y ! c) t"
  shows "sys_inv (set_conn c t y)"
proof -
  have "y_conns y ! c \<in> set (y_conns y)" using assms(2) by simp
  then obtain items where "cl_reachable items (y_conns y ! c)" using assms(1) by (auto simp: sys_inv_def)
  then have "cl_reachable items t" using assms(3) by (rule cl_reachable.step)
  then have "\<forall>s\<in>set ((y_conns y)[c := t]). \<exists>items. cl_reachable items s"
    using assms(1) set_update_subset_insert [of "y_conns y" c t] by (auto simp: sys_inv_def)
  moreover have "keeper_reachable (y_keeper y)" using assms(1) by (simp add: sys_inv_def)
  then have "keeper_reachable (y_keeper (set_conn c t y))"
    by (simp add: set_conn_def keeper_reachable.work)
  ultimately show ?thesis using assms(1) by (auto simp: sys_inv_def set_conn_def map_update)
qed

lemma keeper_step_conns:
  assumes "keeper_step p e k = Some k'"
  shows "k_conns k' =
    (if e = HelloRes True then k_conns k @ [mux_conn_new]
     else if e = DiscRecv \<or> e = StopRecv \<and> p = Connected then k_conns (drop_shared k) else k_conns k)"
  using assms by (elim keeper_stepE) auto

lemma drop_shared_conns:
  assumes "k_conns k = map conn_view conns" "\<And>c. k_shared k = Some c \<Longrightarrow> c < length conns"
  shows "k_conns (drop_shared k) = map conn_view (close_shared (k_shared k) conns)"
  using assms
  by (auto simp: drop_shared_def close_shared_def map_update conn_view_close split: option.split)

lemma close_shared_reachable:
  assumes "\<forall>s\<in>set conns. \<exists>items. cl_reachable items s" "\<And>c. shared = Some c \<Longrightarrow> c < length conns"
  shows "\<forall>s\<in>set (close_shared shared conns). \<exists>items. cl_reachable items s"
proof (cases shared)
  case (Some c)
  then have "conns ! c \<in> set conns" using assms(2) Some by auto
  then obtain items where "cl_reachable items (conns ! c)" using assms(1) by blast
  then have "cl_reachable items (cl_close (conns ! c))" using cl_close_step by (rule cl_reachable.step)
  then show ?thesis
    using Some assms(1) set_update_subset_insert [of conns c "cl_close (conns ! c)"]
    by (auto simp: close_shared_def)
qed (use assms in \<open>simp add: close_shared_def\<close>)

lemma sys_step_inv:
  assumes "sys_step y z" "sys_inv y"
  shows "sys_inv z"
  using assms
proof (induction rule: sys_step.induct)
  case (take_conn y xs i ys c env es)
  then have "cl_step (y_conns y ! c) (cl_accept i es (y_conns y ! c))" by (auto intro: cl_step.accept)
  with take_conn sys_shared(1) have "sys_inv (set_conn c (cl_accept i es (y_conns y ! c)) y)"
    by (intro set_conn_inv) auto
  then show ?case by (simp add: sys_inv_def)
next
  case (work c y t)
  then show ?case by (intro set_conn_inv)
next
  case (keep y e k)
  then have "k_conns k = k_conns (y_keeper y)" by (auto dest: keeper_step_conns)
  with keep show ?case by (auto simp: sys_inv_def intro: keeper_reachable.step)
next
  case (publish y k items)
  then have "k_conns k = k_conns (y_keeper y) @ [mux_conn_new]" by (auto dest: keeper_step_conns)
  with publish show ?case
    by (auto simp: sys_inv_def conn_view_init intro: keeper_reachable.step cl_reachable.start)
next
  case (disconnect y k c)
  then have "k_conns k = map conn_view (close_shared (Some c) (y_conns y))"
    using drop_shared_conns [of "y_keeper y" "y_conns y"] sys_shared(1) [OF disconnect(4)]
    by (auto simp: sys_inv_def dest: keeper_step_conns)
  moreover have "\<forall>s\<in>set (close_shared (Some c) (y_conns y)). \<exists>items. cl_reachable items s"
    using disconnect sys_shared(1) by (intro close_shared_reachable) (auto simp: sys_inv_def)
  ultimately show ?case using disconnect by (auto simp: sys_inv_def intro: keeper_reachable.step)
next
  case (stop y k)
  have "k_conns k = map conn_view (close_shared (k_shared (y_keeper y)) (y_conns y))"
  proof (cases "k_phase (y_keeper y) = Connected")
    case True
    with stop drop_shared_conns [of "y_keeper y" "y_conns y"] sys_shared(1) [OF stop(3)] show ?thesis
      by (auto simp: sys_inv_def dest: keeper_step_conns)
  next
    case False
    with sys_shared(2) [OF stop(3)] have "k_shared (y_keeper y) = None" by (cases "k_shared (y_keeper y)") auto
    with stop False show ?thesis by (auto simp: sys_inv_def close_shared_def dest: keeper_step_conns)
  qed
  moreover have "\<forall>s\<in>set (close_shared (k_shared (y_keeper y)) (y_conns y)). \<exists>items. cl_reachable items s"
    using stop sys_shared(1) by (intro close_shared_reachable) (auto simp: sys_inv_def)
  ultimately show ?case using stop by (auto simp: sys_inv_def intro: keeper_reachable.step)
qed (simp_all add: sys_inv_def sys_accept_def)

lemma sys_reachable_inv: "sys_reachable socks y \<Longrightarrow> sys_inv y"
proof (induction rule: sys_reachable.induct)
  case start
  have "k_conns keeper_init = []" by (simp add: keeper_init_def)
  then show ?case by (simp add: sys_inv_def sys_init_def keeper_reachable.start)
qed (blast intro: sys_step_inv)

subsection \<open>Stream ids\<close>

lemma sum_list_map_update:
  fixes f :: "'a \<Rightarrow> nat"
  shows "c < length xs \<Longrightarrow> (\<Sum>x\<leftarrow>xs[c := t]. f x) + f (xs ! c) = (\<Sum>x\<leftarrow>xs. f x) + f t"
proof (induction xs arbitrary: c)
  case (Cons x xs)
  then show ?case by (cases c) auto
qed simp

lemma count_list_split: "count_list (xs @ i # ys) j = count_list (xs @ ys) j + of_bool (i = j)"
  by (induction xs) auto

text \<open>How often an id is waiting or was used on some connection.\<close>

definition id_uses :: "client_sys \<Rightarrow> u32 \<Rightarrow> nat" where
  "id_uses y i = count_list (y_pending y) i + (\<Sum>s\<leftarrow>y_conns y. count_list (c_ids s) i)"

definition ids_inv :: "client_sys \<Rightarrow> bool" where
  "ids_inv y \<longleftrightarrow> (\<forall>i. id_uses y i \<le> count_list (map accept_id [0..<y_count y]) i)"

lemma ids_inv_mono:
  "ids_inv y \<Longrightarrow> y_count z = y_count y \<Longrightarrow> (\<And>i. id_uses z i \<le> id_uses y i) \<Longrightarrow> ids_inv z"
  unfolding ids_inv_def by (metis order.trans)

lemma id_uses_update:
  assumes "c < length (y_conns y)" "y_conns z = (y_conns y)[c := t]"
  shows "id_uses z i + count_list (c_ids (y_conns y ! c)) i + count_list (y_pending y) i =
     id_uses y i + count_list (c_ids t) i + count_list (y_pending z) i"
  using sum_list_map_update [OF assms(1), of "\<lambda>s. count_list (c_ids s) i" t] assms(2)
  by (simp add: id_uses_def)

lemma id_uses_same_ids:
  assumes "c < length (y_conns y)" "c_ids t = c_ids (y_conns y ! c)"
    and "y_conns z = (y_conns y)[c := t]" "y_pending z = y_pending y"
  shows "id_uses z i = id_uses y i"
  using id_uses_update [OF assms(1,3), of i] assms(2,4) by simp

lemma id_uses_take:
  assumes "c < length (y_conns y)" "y_pending y = xs @ i # ys"
  shows "id_uses ((set_conn c (cl_accept i es (y_conns y ! c)) y)\<lparr>y_pending := xs @ ys\<rparr>) j = id_uses y j"
  using id_uses_update [OF assms(1), of "(set_conn c (cl_accept i es (y_conns y ! c)) y)\<lparr>y_pending := xs @ ys\<rparr>"
      "cl_accept i es (y_conns y ! c)" j] count_list_split [of xs i ys j] assms(2)
  by (cases "i = j") (simp_all add: set_conn_def cl_accept_def)

lemma id_uses_close_shared:
  assumes "sys_inv y" "y_conns z = close_shared (k_shared (y_keeper y)) (y_conns y)" "y_pending z = y_pending y"
  shows "id_uses z i = id_uses y i"
proof (cases "k_shared (y_keeper y)")
  case None
  with assms show ?thesis by (simp add: id_uses_def close_shared_def)
next
  case (Some c)
  with assms sys_shared(1) [OF assms(1) Some] show ?thesis
    by (intro id_uses_same_ids [of c y "cl_close (y_conns y ! c)"]) (simp_all add: close_shared_def)
qed

lemma sys_step_ids:
  assumes "sys_step y z" "sys_inv y" "ids_inv y"
  shows "ids_inv z"
  using assms
proof (induction rule: sys_step.induct)
  case (leave y xs i ys)
  then show ?case by (elim ids_inv_mono) (simp_all add: id_uses_def count_list_split)
next
  case (take_conn y xs i ys c env es)
  then have "c < length (y_conns y)" by (auto dest: sys_shared)
  from id_uses_take [OF this take_conn(1)] take_conn(7) show ?case
    by (elim ids_inv_mono) (simp_all add: set_conn_def)
next
  case (work c y t)
  then have "id_uses (set_conn c t y) i = id_uses y i" for i
    by (intro id_uses_same_ids) (simp_all add: set_conn_def)
  with work show ?case by (elim ids_inv_mono) (simp_all add: set_conn_def)
next
  case (disconnect y k c)
  then show ?case by (elim ids_inv_mono) (simp_all add: id_uses_close_shared)
next
  case (stop y k)
  then show ?case by (elim ids_inv_mono) (simp_all add: id_uses_close_shared)
next
  case (publish y k items)
  then show ?case by (elim ids_inv_mono) (simp_all add: id_uses_def cl_init_def)
next
  case (keep y e k)
  then show ?case by (elim ids_inv_mono) (simp_all add: id_uses_def)
qed (auto simp: ids_inv_def id_uses_def sys_accept_def)

lemma sys_reachable_ids: "sys_reachable socks y \<Longrightarrow> ids_inv y"
proof (induction rule: sys_reachable.induct)
  case start
  show ?case by (simp add: ids_inv_def id_uses_def sys_init_def)
qed (blast intro: sys_step_ids sys_reachable_inv)

subsection \<open>Connections that were dropped\<close>

lemma sys_step_takes:
  assumes "sys_step y z" "sys_inv y" "c < length (y_conns y)"
  shows "length (y_conns y) \<le> length (y_conns z) \<and>
     (c_ids (y_conns z ! c) \<noteq> c_ids (y_conns y ! c) \<longrightarrow> k_shared (y_keeper y) = Some c)"
  using assms
proof (induction rule: sys_step.induct)
  case (take_conn y xs i ys b env es)
  then show ?case by (cases "b = c") (simp_all add: set_conn_def)
next
  case (work b y t)
  then show ?case by (cases "b = c") (simp_all add: set_conn_def)
next
  case (disconnect y k b)
  then show ?case by (cases "b = c") (simp_all add: close_shared_def)
next
  case (stop y k)
  then show ?case
    by (cases "k_shared (y_keeper y) = Some c") (auto simp: close_shared_def split: option.split)
qed (simp_all add: close_shared_def sys_accept_def nth_append nth_list_update)

subsection \<open>Runs\<close>

fun takes_conn :: "cl_choice \<Rightarrow> bool" where
  "takes_conn (MSocks i env host) = True"
| "takes_conn _ = False"

lemma cl_move_ids: "cl_move m s = Some t \<Longrightarrow> \<not> takes_conn m \<Longrightarrow> c_ids t = c_ids s"
  by (cases m) (auto split: if_splits list.splits option.splits prod.splits)

lemma set_conn_pending: "(set_conn c t y)\<lparr>y_pending := xs\<rparr> = set_conn c t (y\<lparr>y_pending := xs\<rparr>)"
  by (rule client_sys.equality) (simp_all add: set_conn_def)

lemma set_conn_twice [simp]:
  "c < length (y_conns y) \<Longrightarrow> set_conn c t (set_conn c s y) = set_conn c t y"
  "c < length (y_conns y) \<Longrightarrow> y_conns (set_conn c s y) ! c = s"
  "length (y_conns (set_conn c s y)) = length (y_conns y)"
  by (simp_all add: set_conn_def)

text \<open>A schedule of a connection is a run of the system.\<close>

lemma sys_work_run:
  "sys_reachable socks (set_conn c s y) \<Longrightarrow> c < length (y_conns y) \<Longrightarrow> cl_run ms s = Some t \<Longrightarrow>
     list_all (\<lambda>m. \<not> takes_conn m) ms \<Longrightarrow> sys_reachable socks (set_conn c t y)"
proof (induction ms arbitrary: s)
  case (Cons m ms)
  then obtain u where u: "cl_move m s = Some u" "cl_run ms u = Some t" by (auto split: option.splits)
  have "sys_step (set_conn c s y) (set_conn c u (set_conn c s y))"
    using Cons.prems(2,4) cl_move_step [OF u(1)] cl_move_ids [OF u(1)] by (intro sys_step.work) simp_all
  with Cons.prems(1,2) have "sys_reachable socks (set_conn c u y)" by (metis sys_reachable.step set_conn_twice(1))
  with Cons.IH u(2) Cons.prems show ?case by simp
qed simp

text \<open>
  One HTTP or SOCKS5 connection is accepted, the keeper connects, and the handler of
  the connection opens its stream.
\<close>

definition demo_connected :: client_sys where
  "demo_connected = (sys_accept (sys_init True))\<lparr>y_keeper := the (keeper_run
     [TokenRes (Some ''t''), ConnectRes True, HelloRes True] keeper_init), y_conns := [cl_init demo_answers]\<rparr>"

lemma demo_connected_reachable: "sys_reachable True demo_connected"
proof -
  let ?y0 = "sys_accept (sys_init True)"
  let ?k1 = "keeper_init\<lparr>k_phase := Connecting ''t'', k_tokens := [''t'']\<rparr>"
  let ?k2 = "?k1\<lparr>k_phase := SendingHello ''t''\<rparr>"
  have "sys_reachable True ?y0"
    by (rule sys_reachable.step [OF sys_reachable.start]) (rule sys_step.http_accept, simp add: sys_init_def)
  then have "sys_reachable True (?y0\<lparr>y_keeper := ?k1\<rparr>)"
    by (rule sys_reachable.step)
       (rule sys_step.keep [where e = "TokenRes (Some ''t'')"], simp_all add: sys_init_def sys_accept_def keeper_init_def)
  then have "sys_reachable True (?y0\<lparr>y_keeper := ?k1\<rparr>\<lparr>y_keeper := ?k2\<rparr>)"
    by (rule sys_reachable.step) (rule sys_step.keep [where e = "ConnectRes True"], simp_all)
  then have "sys_reachable True (?y0\<lparr>y_keeper := ?k1\<rparr>\<lparr>y_keeper := ?k2\<rparr>\<lparr>y_keeper := the (keeper_step (SendingHello ''t'') (HelloRes True) ?k2),
      y_conns := y_conns (?y0\<lparr>y_keeper := ?k1\<rparr>\<lparr>y_keeper := ?k2\<rparr>) @ [cl_init demo_answers]\<rparr>)"
    by (rule sys_reachable.step) (rule sys_step.publish, simp)
  then show ?thesis
    by (simp add: demo_connected_def sys_init_def sys_accept_def keeper_init_def)
qed

lemma demo_takes:
  "sys_step demo_connected ((set_conn 0 (cl_accept 1
     (handle_socks_via_mux_with_timeout demo_mux 1 ''web.org:80'') (cl_init demo_answers)) demo_connected)
       \<lparr>y_pending := []\<rparr>)"
proof -
  have "y_conns demo_connected ! 0 = cl_init demo_answers" by (simp add: demo_connected_def)
  moreover have "k_shared (y_keeper demo_connected) = Some 0" "y_pending demo_connected = [] @ 1 # []"
    by (simp_all add: demo_connected_def sys_accept_def sys_init_def accept_id_def keeper_init_def)
  moreover have "data_cid demo_mux = c_next (cl_init demo_answers)" "ack_cid demo_mux = Suc (c_next (cl_init demo_answers))"
    by (simp_all add: demo_mux_def cl_init_def)
  ultimately show ?thesis
    using sys_step.take_conn [of demo_connected "[]" 1 "[]" 0 demo_mux, OF _ _ mux_task.socks] by simp
qed

lemma demo_sys:
  "\<exists>y s. sys_reachable True y \<and> y_conns y = [s] \<and> y_count y = 1 \<and> cl_reachable demo_answers s \<and>
     c_out s = [Open 1 ''web.org:80'', Data 1 [7]] \<and> k_phase (y_keeper y) = Connected"
proof -
  let ?s = "cl_accept 1 (handle_socks_via_mux_with_timeout demo_mux 1 ''web.org:80'') (cl_init demo_answers)"
  let ?z = "set_conn 0 ?s (demo_connected\<lparr>y_pending := []\<rparr>)"
  have shape: "y_conns demo_connected = [cl_init demo_answers]" "k_shared (y_keeper demo_connected) = Some 0"
    "y_pending demo_connected = [1]" "y_count demo_connected = 1" "k_phase (y_keeper demo_connected) = Connected"
    by (simp_all add: demo_connected_def sys_accept_def sys_init_def accept_id_def keeper_init_def)
  have z: "sys_reachable True ?z"
    using sys_reachable.step [OF demo_connected_reachable demo_takes] by (simp add: set_conn_pending)
  obtain s where s: "cl_run demo_schedule (cl_init demo_answers) = Some s"
    "c_out s = [Open 1 ''web.org:80'', Data 1 [7]]"
    using demo_client_run by blast
  then have "cl_run (tl demo_schedule) ?s = Some s"
    by (simp add: demo_schedule_def cl_init_def demo_mux_def split: if_splits option.splits)
  moreover have "list_all (\<lambda>m. \<not> takes_conn m) (tl demo_schedule)" by (simp add: demo_schedule_def)
  ultimately have "sys_reachable True (set_conn 0 s (demo_connected\<lparr>y_pending := []\<rparr>))"
    using sys_work_run [OF z] shape by simp
  moreover have "cl_reachable demo_answers s" using cl_run_reachable [OF cl_reachable.start s(1)] .
  ultimately show ?thesis using s(2) shape
    by (intro exI [of _ "set_conn 0 s (demo_connected\<lparr>y_pending := []\<rparr>)"] exI [of _ s]) (simp add: set_conn_def)
qed

subsection \<open>Properties\<close>

text \<open>The composed client implements its parts: however the accept loops, the keeper, the handlers and
  the loops of all connections interleave, the keeper goes through states of its own state
  machine, with the registries and tables of the real sessions as its connections, and each
  session goes through states of the session's step relation. So everything shown of the keeper
  alone and of a session alone holds in the running client.\<close>

lemma sys_refines_parts:
  assumes "sys_reachable socks y"
  shows "keeper_reachable (y_keeper y) \<and> k_conns (y_keeper y) = map conn_view (y_conns y) \<and>
     (\<forall>s\<in>set (y_conns y). \<exists>items. cl_reachable items s)"
  using sys_reachable_inv [OF assms] by (simp add: sys_inv_def)

text \<open>C18: over the whole life of a client that has accepted at most \<open>2^32\<close> connections, across all
  reconnections and both listeners, every stream id is opened at most once: the numbers of OPEN
  frames with that id on all connections together are at most one.\<close>

theorem sys_one_open_per_id:
  assumes "sys_reachable socks y" and "y_count y \<le> 2 ^ 32"
  shows "(\<Sum>s\<leftarrow>y_conns y. length (filter (opens_id i) (c_out s))) \<le> 1"
proof -
  have "length (filter (opens_id i) (c_out s)) \<le> count_list (c_ids s) i" if mem: "s \<in> set (y_conns y)" for s
  proof -
    obtain items where "cl_reachable items s"
      using sys_reachable_inv [OF assms(1)] mem by (auto simp: sys_inv_def)
    from cl_reachable_open [OF this, of i] show ?thesis by (simp add: open_inv_def)
  qed
  then have "(\<Sum>s\<leftarrow>y_conns y. length (filter (opens_id i) (c_out s))) \<le> (\<Sum>s\<leftarrow>y_conns y. count_list (c_ids s) i)"
    by (rule sum_list_mono)
  also have "\<dots> \<le> id_uses y i" by (simp add: id_uses_def)
  also have "\<dots> \<le> count_list (map accept_id [0..<y_count y]) i"
    using sys_reachable_ids [OF assms(1)] by (simp add: ids_inv_def)
  also have "\<dots> \<le> 1"
    using ids_distinct [OF assms(2), of 1] by (simp add: distinct_count_list accept_id_def [abs_def])
  finally show ?thesis .
qed

theorem sys_one_open_per_id_witness:
  "\<exists>y s. sys_reachable True y \<and> y_conns y = [s] \<and> c_out s = [Open 1 ''web.org:80'', Data 1 [7]] \<and>
     (\<Sum>s\<leftarrow>y_conns y. length (filter (opens_id 1) (c_out s))) \<le> 1"
proof -
  obtain y s where y: "sys_reachable True y" "y_conns y = [s]" "y_count y = 1"
    "c_out s = [Open 1 ''web.org:80'', Data 1 [7]]"
    using demo_sys by blast
  then have "y_count y \<le> 2 ^ 32" by simp
  from sys_one_open_per_id [OF y(1) this, of 1] y show ?thesis by blast
qed

text \<open>A request is only ever put on the newest connection, and only while the keeper serves it: when a
  step of the client gives a connection another handler, the keeper is connected and the
  connection is the last one it published. In particular no request starts on a connection
  after the keeper has dropped it.\<close>

theorem sys_requests_use_newest:
  assumes "sys_reachable socks y" and "sys_step y z" and "c < length (y_conns y)"
    and "c_ids (y_conns z ! c) \<noteq> c_ids (y_conns y ! c)"
  shows "k_phase (y_keeper y) = Connected \<and> c = length (y_conns y) - 1 \<and> c \<notin> set (k_closed (y_keeper y))"
proof -
  note inv = sys_reachable_inv [OF assms(1)]
  have shared: "k_shared (y_keeper y) = Some c"
    using sys_step_takes [OF assms(2) inv assms(3)] assms(4) by blast
  have "keeper_inv (y_keeper y)" using inv by (simp add: sys_inv_def keeper_reachable_inv)
  then have "k_closed (y_keeper y) = [0..<length (y_conns y) - 1]"
    using inv sys_shared(2) [OF inv shared] by (simp add: keeper_inv_def sys_inv_def)
  with sys_shared [OF inv shared] show ?thesis by auto
qed

theorem sys_requests_use_newest_witness:
  "\<exists>z. sys_step demo_connected z \<and> c_ids (y_conns z ! 0) \<noteq> c_ids (y_conns demo_connected ! 0) \<and>
     k_phase (y_keeper demo_connected) = Connected"
proof -
  let ?s = "cl_accept 1 (handle_socks_via_mux_with_timeout demo_mux 1 ''web.org:80'') (cl_init demo_answers)"
  let ?z = "(set_conn 0 ?s demo_connected)\<lparr>y_pending := []\<rparr>"
  have conns: "y_conns demo_connected = [cl_init demo_answers]" by (simp add: demo_connected_def)
  have ids: "c_ids (y_conns ?z ! 0) \<noteq> c_ids (y_conns demo_connected ! 0)"
    by (simp add: set_conn_def conns cl_accept_def)
  then show ?thesis
    using sys_requests_use_newest [OF demo_connected_reachable demo_takes _ ids] conns demo_takes by auto
qed

end
