(* ===== verification/Server_System.thy ===== *)
theory Server_System
  imports Server_Mux
begin

text \<open>
  The life of the server (\<open>server/src/lib.rs\<close>): the loop of \<open>serve\<close>, one task of
  \<open>accept_connection\<close> per accepted connection, the token store they share, the mux sessions
  and the shutdown channel, one receiver of which every task holds. The connection functions of
  \<open>Server_Control\<close> and the sessions of \<open>Server_Mux\<close> are composed to one step relation.

  A \<open>select\<close> that sees the shutdown drops the future of the connection, which can happen at an
  await of that future only. The tasks that a mux session has spawned, its writer loop and its
  relays, are not part of that future and go on.
\<close>

subsection \<open>The shutdown channel\<close>

text \<open>
  \<open>make_shutdown_channel\<close>: a channel for one message. \<open>recv\<close> takes a message that waits; with
  none it returns, with an error, once the sender was dropped, and waits before that (\<open>None\<close>).
  A send waits while the channel is full.
\<close>

record shutdown_chan =
  sd_waiting :: nat
  sd_closed :: bool

definition make_shutdown_channel :: shutdown_chan where
  "make_shutdown_channel = \<lparr>sd_waiting = 0, sd_closed = False\<rparr>"

definition shut_send :: "shutdown_chan \<Rightarrow> shutdown_chan option" where
  "shut_send ch =
     (if sd_closed ch \<or> 1 \<le> sd_waiting ch then None else Some (ch\<lparr>sd_waiting := Suc (sd_waiting ch)\<rparr>))"

definition shut_recv :: "shutdown_chan \<Rightarrow> shutdown_chan option" where
  "shut_recv ch =
     (if 0 < sd_waiting ch then Some (ch\<lparr>sd_waiting := sd_waiting ch - 1\<rparr>)
      else if sd_closed ch then Some ch else None)"

definition shut_drop :: "shutdown_chan \<Rightarrow> shutdown_chan" where
  "shut_drop ch = ch\<lparr>sd_closed := True\<rparr>"

text \<open>What a signal channel promises: messages are conserved while its sender is there.\<close>

locale signal_channel =
  fixes waiting :: "'s \<Rightarrow> nat"
    and closed :: "'s \<Rightarrow> bool"
    and send :: "'s \<Rightarrow> 's option"
    and recv :: "'s \<Rightarrow> 's option"
    and hangup :: "'s \<Rightarrow> 's"
  assumes send_law: "send s = Some t \<Longrightarrow> \<not> closed s \<and> waiting t = Suc (waiting s) \<and> \<not> closed t"
    and recv_law: "recv s = Some t \<Longrightarrow> \<not> closed s \<Longrightarrow> Suc (waiting t) = waiting s \<and> \<not> closed t"
    and recv_closed: "closed s \<Longrightarrow> \<exists>t. recv s = Some t \<and> closed t"
    and recv_waits: "\<not> closed s \<Longrightarrow> waiting s = 0 \<Longrightarrow> recv s = None"
    and hangup_law: "closed (hangup s)"
begin

text \<open>Of the messages sent, those taken and those that wait.\<close>

definition balanced :: "nat \<Rightarrow> nat \<Rightarrow> 's \<Rightarrow> bool" where
  "balanced sends taken s \<longleftrightarrow> (\<not> closed s \<longrightarrow> taken + waiting s = sends)"

lemma balanced_send: "send s = Some t \<Longrightarrow> balanced sends taken s \<Longrightarrow> balanced (Suc sends) taken t"
  by (auto simp: balanced_def dest: send_law)

lemma balanced_recv:
  assumes "recv s = Some t" "balanced sends taken s"
  shows "balanced sends (Suc taken) t"
proof (cases "closed s")
  case True
  with assms(1) recv_closed [OF True] show ?thesis by (auto simp: balanced_def)
next
  case False
  with assms recv_law [OF assms(1)] show ?thesis by (auto simp: balanced_def)
qed

lemma balanced_hangup: "balanced sends taken (hangup s)"
  by (simp add: balanced_def hangup_law)

lemma all_taken: "balanced sends taken s \<Longrightarrow> \<not> closed s \<Longrightarrow> taken \<le> sends"
  by (simp add: balanced_def)

end

interpretation shut: signal_channel sd_waiting sd_closed shut_send shut_recv shut_drop
  by unfold_locales (auto simp: shut_send_def shut_recv_def shut_drop_def split: if_splits)

subsection \<open>The task of a connection\<close>

text \<open>
  \<open>Accepted\<close>: peeking and upgrading, which no \<open>select\<close> guards. \<open>ControlWait\<close>, \<open>ControlReply\<close>:
  \<open>process_control\<close> before its first item and while it sends its answers. \<open>MuxWait\<close>: waiting for
  HELLO. \<open>MuxSession\<close>: a session with all its tasks. \<open>Returned\<close>: the function came to its end.
  \<open>Stopped\<close>: the shutdown ended it. \<open>CutSession\<close>: the shutdown ended the reader of a session;
  what is left of the session goes on.
\<close>

datatype 'u conn_task =
    Accepted
  | ControlWait
  | ControlReply "ws_action list"
  | MuxWait
  | MuxSession 'u srv_session
  | Returned
  | Stopped
  | CutSession 'u srv_session

definition start_task :: "conn_action \<Rightarrow> 'u conn_task" where
  "start_task a =
     (case a of Drop \<Rightarrow> Returned | Reply r \<Rightarrow> Returned | RunControl \<Rightarrow> ControlWait | RunMux \<Rightarrow> MuxWait)"

text \<open>The effects that await, and the awaits of a session's reader.\<close>

fun awaits :: "effect \<Rightarrow> bool" where
  "awaits (ESendFrame f ok) = True"
| "awaits (EChanSend c d) = True"
| "awaits (ETcpConnect dest ok) = True"
| "awaits _ = False"

definition at_await :: "srv_session \<Rightarrow> bool" where
  "at_await s = (case s_todo s of [] \<Rightarrow> s_reading s | e # es \<Rightarrow> awaits e)"

text \<open>
  A session whose reader is dropped: what the reader had still to do is not done, clearing the
  registry included; a connection attempt that was under way counts as made.
\<close>

definition cut_session :: "srv_session \<Rightarrow> srv_session" where
  "cut_session s = s\<lparr>s_reading := False, s_todo := [],
     s_connects := s_connects s @ (case s_todo s of ETcpConnect dest ok # es \<Rightarrow> [dest] | _ \<Rightarrow> [])\<rparr>"

text \<open>What becomes of a task whose \<open>select\<close> sees the shutdown; \<open>None\<close> when it is at no such place.\<close>

fun stop_task :: "'u conn_task \<Rightarrow> 'u conn_task option" where
  "stop_task ControlWait = Some Stopped"
| "stop_task (ControlReply (a # acts)) = Some Stopped"
| "stop_task MuxWait = Some Stopped"
| "stop_task (MuxSession u s) = (if at_await s then Some (CutSession u (cut_session s)) else None)"
| "stop_task _ = None"

text \<open>Whether a task still holds its receiver of the shutdown channel, and whether the shutdown ended it.\<close>

fun holds_receiver :: "'u conn_task \<Rightarrow> bool" where
  "holds_receiver Returned = False"
| "holds_receiver Stopped = False"
| "holds_receiver (CutSession u s) = False"
| "holds_receiver (MuxSession u s) = (s_reading s \<or> s_todo s \<noteq> [])"
| "holds_receiver _ = True"

fun shut_down :: "'u conn_task \<Rightarrow> bool" where
  "shut_down Stopped = True"
| "shut_down (CutSession u s) = True"
| "shut_down _ = False"

subsection \<open>State and steps\<close>

text \<open>The crates and the configuration: semver, uuid and \<open>ServerConfig\<close>.\<close>

record ('v, 'u) server_env =
  e_version_parse :: "string \<Rightarrow> 'v option"
  e_req_matches :: "string \<Rightarrow> 'v \<Rightarrow> bool"
  e_uuid_show :: "'u \<Rightarrow> string"
  e_uuid_parse :: "string \<Rightarrow> 'u option"
  e_users :: "string list"

text \<open>
  \<open>v_result\<close> is the result of \<open>serve\<close>, as in \<open>Server_Control.serve\<close>. History: what the loop's
  \<open>select\<close> saw, the handshakes in the order in which they reached the token store, and the
  number of messages sent into the shutdown channel.
\<close>

record 'u server_sys =
  v_store :: "'u set"
  v_result :: "bool option"
  v_conns :: "'u conn_task list"
  v_shut :: shutdown_chan
  v_events :: "nat accept_event list"
  v_auth :: "'u srv_conn list"
  v_sends :: nat

definition server_start :: "'u server_sys" where
  "server_start = \<lparr>v_store = {}, v_result = None, v_conns = [], v_shut = make_shutdown_channel,
     v_events = [], v_auth = [], v_sends = 0\<rparr>"

definition set_task :: "nat \<Rightarrow> 'u conn_task \<Rightarrow> 'u server_sys \<Rightarrow> 'u server_sys" where
  "set_task n t y = y\<lparr>v_conns := (v_conns y)[n := t]\<rparr>"

definition has_task :: "'u server_sys \<Rightarrow> nat \<Rightarrow> 'u conn_task \<Rightarrow> bool" where
  "has_task y n t \<longleftrightarrow> n < length (v_conns y) \<and> v_conns y ! n = t"

text \<open>The session that follows the authentication of a mux connection, if one does.\<close>

definition mux_task_of :: "('u \<times> ws_item list) option \<Rightarrow> 'u conn_task" where
  "mux_task_of r = (case r of None \<Rightarrow> Returned | Some (u, rest) \<Rightarrow> MuxSession u (srv_init rest))"

definition server_control ::
  "('v, 'u) server_env \<Rightarrow> 'u \<Rightarrow> ws_item option \<Rightarrow> 'u set \<Rightarrow> 'u set \<times> ws_action list" where
  "server_control env token first store =
     process_control (e_version_parse env) (e_req_matches env) (e_uuid_show env) token first (e_users env) store"

inductive server_step :: "('v, 'u) server_env \<Rightarrow> 'u server_sys \<Rightarrow> 'u server_sys \<Rightarrow> bool" for env where
  accept:
    "v_result y = None \<Longrightarrow>
     server_step env y (y\<lparr>v_conns := v_conns y @ [Accepted],
       v_events := v_events y @ [AcceptOk (length (v_conns y))]\<rparr>)"
| accept_err:
    "v_result y = None \<Longrightarrow>
     server_step env y (y\<lparr>v_result := Some False, v_events := v_events y @ [AcceptErr]\<rparr>)"
| serve_stop:
    "v_result y = None \<Longrightarrow> shut_recv (v_shut y) = Some ch \<Longrightarrow>
     server_step env y (y\<lparr>v_result := Some True, v_shut := ch, v_events := v_events y @ [ShutdownRecv]\<rparr>)"
| send_stop:
    "v_result y = None \<or> (\<exists>t \<in> set (v_conns y). holds_receiver t) \<Longrightarrow> shut_send (v_shut y) = Some ch \<Longrightarrow>
     server_step env y (y\<lparr>v_shut := ch, v_sends := Suc (v_sends y)\<rparr>)"
| drop_stop:
    "server_step env y (y\<lparr>v_shut := shut_drop (v_shut y)\<rparr>)"
| dispatch:
    "has_task y n Accepted \<Longrightarrow>
     server_step env y (set_task n (start_task (accept_connection peek handshake)) y)"
| control:
    "has_task y n ControlWait \<Longrightarrow> server_control env token first (v_store y) = (store, acts) \<Longrightarrow>
     server_step env y ((set_task n (ControlReply acts) y)\<lparr>v_store := store,
       v_auth := v_auth y @ [ControlConn token first]\<rparr>)"
| reply:
    "has_task y n (ControlReply (a # acts)) \<Longrightarrow> server_step env y (set_task n (ControlReply acts) y)"
| reply_end:
    "has_task y n (ControlReply []) \<Longrightarrow> server_step env y (set_task n Returned y)"
| hello:
    "has_task y n MuxWait \<Longrightarrow> mux_authenticate (e_uuid_parse env) items (v_store y) = (store, r) \<Longrightarrow>
     server_step env y ((set_task n (mux_task_of r) y)\<lparr>v_store := store, v_auth := v_auth y @ [MuxConn items]\<rparr>)"
| session:
    "has_task y n (MuxSession u s) \<Longrightarrow> srv_step s t \<Longrightarrow> server_step env y (set_task n (MuxSession u t) y)"
| conn_stop:
    "has_task y n t \<Longrightarrow> stop_task t = Some t' \<Longrightarrow> shut_recv (v_shut y) = Some ch \<Longrightarrow>
     server_step env y ((set_task n t' y)\<lparr>v_shut := ch\<rparr>)"
| cut_work:
    "has_task y n (CutSession u s) \<Longrightarrow> srv_step s t \<Longrightarrow> server_step env y (set_task n (CutSession u t) y)"

inductive server_reachable :: "('v, 'u) server_env \<Rightarrow> 'u server_sys \<Rightarrow> bool" for env where
  start: "server_reachable env server_start"
| step: "server_reachable env y \<Longrightarrow> server_step env y z \<Longrightarrow> server_reachable env z"

subsection \<open>Sessions\<close>

text \<open>
  A session that runs is one of \<open>Server_Mux\<close>; a cut one goes on from the cut of such a session.
\<close>

fun task_reachable :: "'u conn_task \<Rightarrow> bool" where
  "task_reachable (MuxSession u s) = (\<exists>items. srv_reachable items s)"
| "task_reachable (CutSession u s) =
     (\<exists>items s0. srv_reachable items s0 \<and> at_await s0 \<and> srv_step\<^sup>*\<^sup>* (cut_session s0) s)"
| "task_reachable _ = True"

definition sessions_inv :: "'u server_sys \<Rightarrow> bool" where
  "sessions_inv y \<longleftrightarrow> list_all task_reachable (v_conns y)"

lemma sessions_inv_set:
  assumes "sessions_inv y" "task_reachable t"
  shows "sessions_inv (set_task n t y)"
  using assms set_update_subset_insert [of "v_conns y" n t]
  by (auto simp: sessions_inv_def set_task_def list_all_iff)

lemma sessions_inv_other: "v_conns z = v_conns y \<Longrightarrow> sessions_inv y \<Longrightarrow> sessions_inv z"
  by (simp add: sessions_inv_def)

lemma sessions_inv_task: "sessions_inv y \<Longrightarrow> has_task y n t \<Longrightarrow> task_reachable t"
  by (auto simp: sessions_inv_def has_task_def list_all_iff)

lemma stop_task_reachable:
  assumes "stop_task t = Some t'" "task_reachable t"
  shows "task_reachable t'"
proof (cases t)
  case (MuxSession u s)
  with assms obtain items where "srv_reachable items s" "at_await s" "t' = CutSession u (cut_session s)"
    by (auto split: if_splits)
  then show ?thesis by auto
next
  case (ControlReply acts)
  with assms show ?thesis by (cases acts) auto
qed (use assms in auto)

lemma start_task_reachable: "task_reachable (start_task a)"
  by (simp add: start_task_def split: conn_action.split)

lemma mux_task_of_reachable: "task_reachable (mux_task_of r)"
  by (auto simp: mux_task_of_def intro: srv_reachable.start split: option.split)

lemma server_step_sessions: "server_step env y z \<Longrightarrow> sessions_inv y \<Longrightarrow> sessions_inv z"
proof (induction rule: server_step.induct)
  case (accept y)
  then show ?case by (simp add: sessions_inv_def)
next
  case (dispatch y n peek handshake)
  then show ?case by (intro sessions_inv_set start_task_reachable)
next
  case (control y n token first store acts)
  then have "sessions_inv (set_task n (ControlReply acts) y)" by (intro sessions_inv_set) simp_all
  then show ?case by (rule sessions_inv_other [rotated]) simp
next
  case (hello y n items store r)
  then have "sessions_inv (set_task n (mux_task_of r) y)"
    by (intro sessions_inv_set mux_task_of_reachable)
  then show ?case by (rule sessions_inv_other [rotated]) simp
next
  case (session y n u s t)
  then have "task_reachable (MuxSession u t)"
    using sessions_inv_task [OF session(3,1)] by (auto intro: srv_reachable.step)
  with session(3) show ?case by (rule sessions_inv_set)
next
  case (conn_stop y n t t' ch)
  then have "task_reachable t'"
    using sessions_inv_task [OF conn_stop(4,1)] by (auto intro: stop_task_reachable)
  with conn_stop(4) have "sessions_inv (set_task n t' y)" by (rule sessions_inv_set)
  then show ?case by (rule sessions_inv_other [rotated]) simp
next
  case (cut_work y n u s t)
  then have "task_reachable (CutSession u t)"
    using sessions_inv_task [OF cut_work(3,1)] by (auto intro: rtranclp.rtrancl_into_rtrancl)
  with cut_work(3) show ?case by (rule sessions_inv_set)
next
  case (reply y n a acts)
  then show ?case by (intro sessions_inv_set) simp_all
next
  case (reply_end y n)
  then show ?case by (intro sessions_inv_set) simp_all
qed (simp_all add: sessions_inv_def)

lemma server_reachable_sessions: "server_reachable env y \<Longrightarrow> sessions_inv y"
proof (induction rule: server_reachable.induct)
  case start
  show ?case by (simp add: sessions_inv_def server_start_def)
qed (blast intro: server_step_sessions)

text \<open>The invariant of a session survives the cut.\<close>

lemma cut_session_inv:
  assumes "srv_inv s"
  shows "srv_inv (cut_session s)"
proof -
  have "acked (cut_session s) = acked s" by (simp add: cut_session_def acked_def)
  moreover have "list_all is_dest_allowed (s_connects (cut_session s))"
    using assms by (auto simp: cut_session_def srv_inv_def split: list.split effect.split)
  ultimately show ?thesis using assms by (simp add: srv_inv_def) (simp add: cut_session_def)
qed

lemma srv_steps_inv: "srv_step\<^sup>*\<^sup>* s t \<Longrightarrow> srv_inv s \<Longrightarrow> srv_inv t"
  by (induction rule: rtranclp_induct) (auto intro: srv_step_inv)

text \<open>The sessions of a server, cut or not, with the token each was started with.\<close>

fun session_of :: "'u conn_task \<Rightarrow> ('u \<times> srv_session) option" where
  "session_of (MuxSession u s) = Some (u, s)"
| "session_of (CutSession u s) = Some (u, s)"
| "session_of _ = None"

lemma task_reachable_inv: "task_reachable t \<Longrightarrow> session_of t = Some (u, s) \<Longrightarrow> srv_inv s"
  by (cases t) (auto intro: srv_reachable_inv srv_steps_inv cut_session_inv)

subsection \<open>A single task\<close>

text \<open>What a step of the server does to one task.\<close>

inductive task_move :: "'u conn_task \<Rightarrow> 'u conn_task \<Rightarrow> bool" where
  stays: "task_move t t"
| dispatched: "task_move Accepted (start_task a)"
| answers: "task_move ControlWait (ControlReply acts)"
| sends: "task_move (ControlReply (a # acts)) (ControlReply acts)"
| answered: "task_move (ControlReply []) Returned"
| admitted: "task_move MuxWait (mux_task_of r)"
| works: "srv_step s t \<Longrightarrow> task_move (MuxSession u s) (MuxSession u t)"
| stopped: "stop_task t = Some t' \<Longrightarrow> task_move t t'"
| drains: "srv_step s t \<Longrightarrow> task_move (CutSession u s) (CutSession u t)"

inductive_cases task_moveE:
  "task_move (CutSession u s) t'"
  "task_move (MuxSession u s) t'"

lemma has_task_simps [simp]:
  "has_task (y\<lparr>v_store := a\<rparr>) n t = has_task y n t"
  "has_task (y\<lparr>v_auth := b\<rparr>) n t = has_task y n t"
  "has_task (y\<lparr>v_shut := c\<rparr>) n t = has_task y n t"
  "has_task (y\<lparr>v_result := d\<rparr>) n t = has_task y n t"
  "has_task (y\<lparr>v_events := e\<rparr>) n t = has_task y n t"
  "has_task (y\<lparr>v_sends := f\<rparr>) n t = has_task y n t"
  by (simp_all add: has_task_def)

lemma has_task_append: "has_task y n t \<Longrightarrow> has_task (y\<lparr>v_conns := v_conns y @ [x]\<rparr>) n t"
  by (simp add: has_task_def nth_append)

lemma has_task_new: "has_task y n old \<Longrightarrow> has_task (set_task n t y) n t"
  by (simp add: has_task_def set_task_def)

lemma set_task_move:
  assumes "has_task y m old" "task_move old new" "has_task y n t"
  shows "\<exists>t'. has_task (set_task m new y) n t' \<and> task_move t t'"
proof (cases "m = n")
  case True
  with assms(1,3) have "t = old" by (simp add: has_task_def)
  with True assms(2) has_task_new [OF assms(1)] show ?thesis by blast
next
  case False
  with assms(3) have "has_task (set_task m new y) n t" by (simp add: has_task_def set_task_def)
  then show ?thesis using stays by blast
qed

lemma server_step_task:
  "server_step env y z \<Longrightarrow> has_task y n t \<Longrightarrow> \<exists>t'. has_task z n t' \<and> task_move t t'"
proof (induction rule: server_step.induct)
  case (accept y)
  then show ?case using has_task_append stays by (auto intro!: exI [of _ t])
next
  case (dispatch y m peek handshake)
  then show ?case by (intro set_task_move [OF _ dispatched])
next
  case (control y m token first store acts)
  then show ?case using set_task_move [OF _ answers] by simp
next
  case (reply y m a acts)
  then show ?case by (intro set_task_move [OF _ sends])
next
  case (reply_end y m)
  then show ?case by (intro set_task_move [OF _ answered])
next
  case (hello y m items store r)
  then show ?case using set_task_move [OF _ admitted] by simp
next
  case (session y m u s s')
  then show ?case by (intro set_task_move [OF _ works])
next
  case (conn_stop y m x x' ch)
  then show ?case using set_task_move [OF _ stopped] by simp
next
  case (cut_work y m u s s')
  then show ?case by (intro set_task_move [OF _ drains])
qed (auto intro: stays)

subsection \<open>Counting tasks\<close>

definition tasks_with :: "('u conn_task \<Rightarrow> bool) \<Rightarrow> 'u server_sys \<Rightarrow> nat" where
  "tasks_with P y = length (filter P (v_conns y))"

lemma length_filter_update:
  "n < length xs \<Longrightarrow>
     length (filter P (xs[n := t])) + of_bool (P (xs ! n)) = length (filter P xs) + of_bool (P t)"
proof (induction xs arbitrary: n)
  case (Cons x xs)
  then show ?case by (cases n) auto
qed simp

lemma tasks_with_set:
  assumes "has_task y n old"
  shows "tasks_with P (set_task n t y) + of_bool (P old) = tasks_with P y + of_bool (P t)"
  using assms length_filter_update [of n "v_conns y" P t]
  by (auto simp: tasks_with_def set_task_def has_task_def)

lemma tasks_with_simps [simp]:
  "tasks_with P (y\<lparr>v_store := a\<rparr>) = tasks_with P y"
  "tasks_with P (y\<lparr>v_auth := b\<rparr>) = tasks_with P y"
  "tasks_with P (y\<lparr>v_shut := c\<rparr>) = tasks_with P y"
  "tasks_with P (y\<lparr>v_result := d\<rparr>) = tasks_with P y"
  "tasks_with P (y\<lparr>v_events := e\<rparr>) = tasks_with P y"
  "tasks_with P (y\<lparr>v_sends := f\<rparr>) = tasks_with P y"
  "tasks_with P (y\<lparr>v_conns := v_conns y @ [t]\<rparr>) = tasks_with P y + of_bool (P t)"
  by (simp_all add: tasks_with_def)

lemma set_task_simps [simp]:
  "v_store (set_task n t y) = v_store y" "v_auth (set_task n t y) = v_auth y"
  "v_shut (set_task n t y) = v_shut y" "v_result (set_task n t y) = v_result y"
  "v_events (set_task n t y) = v_events y" "v_sends (set_task n t y) = v_sends y"
  "length (v_conns (set_task n t y)) = length (v_conns y)"
  by (simp_all add: set_task_def)

lemma tasks_with_same:
  "has_task y n old \<Longrightarrow> P t = P old \<Longrightarrow> tasks_with P (set_task n t y) = tasks_with P y"
  using tasks_with_set [of y n old P t] by simp

subsection \<open>Sessions are authorised\<close>

text \<open>The run of the handshakes that \<open>Server_Control\<close> describes, on this server's history.\<close>

definition server_auth ::
  "('v, 'u) server_env \<Rightarrow> 'u srv_conn list \<Rightarrow> 'u set \<times> 'u list" where
  "server_auth env cs = auth_run (e_version_parse env) (e_req_matches env) (e_uuid_show env)
     (e_uuid_parse env) (e_users env) cs {}"

definition session_with :: "'u \<Rightarrow> 'u conn_task \<Rightarrow> bool" where
  "session_with u t \<longleftrightarrow> map_option fst (session_of t) = Some u"

lemma session_with_simps [simp]:
  "\<not> session_with u Accepted" "\<not> session_with u ControlWait" "\<not> session_with u (ControlReply acts)"
  "\<not> session_with u MuxWait" "\<not> session_with u Returned" "\<not> session_with u Stopped"
  "session_with u (MuxSession v s) \<longleftrightarrow> v = u" "session_with u (CutSession v s) \<longleftrightarrow> v = u"
  by (simp_all add: session_with_def)

definition auth_inv :: "('v, 'u) server_env \<Rightarrow> 'u server_sys \<Rightarrow> bool" where
  "auth_inv env y \<longleftrightarrow>
     (\<exists>started. server_auth env (v_auth y) = (v_store y, started) \<and>
        (\<forall>u. tasks_with (session_with u) y = count_list started u))"

lemma auth_run_snoc:
  "auth_run vp rm us up users (cs @ [c]) store =
     (let (store', started) = auth_run vp rm us up users cs store;
          (store'', more) = auth_step vp rm us up users c store'
      in (store'', started @ more))"
  by (induction cs arbitrary: store) (auto simp: Let_def split: prod.splits)

lemma server_auth_control:
  assumes "server_auth env cs = (store, started)" "server_control env token first store = (store', acts)"
  shows "server_auth env (cs @ [ControlConn token first]) = (store', started)"
  using assms by (simp add: server_auth_def server_control_def auth_run_snoc)

lemma server_auth_mux:
  assumes "server_auth env cs = (store, started)"
    and "mux_authenticate (e_uuid_parse env) items store = (store', r)"
  shows "server_auth env (cs @ [MuxConn items]) =
     (store', started @ (case r of None \<Rightarrow> [] | Some (u, rest) \<Rightarrow> [u]))"
  using assms by (auto simp: server_auth_def auth_run_snoc split: option.split)

lemma auth_inv_same:
  assumes "auth_inv env y" "v_auth z = v_auth y" "v_store z = v_store y"
    and "\<And>u. tasks_with (session_with u) z = tasks_with (session_with u) y"
  shows "auth_inv env z"
  using assms by (simp add: auth_inv_def)

lemma start_task_session [simp]: "\<not> session_with u (start_task a)"
  by (simp add: start_task_def split: conn_action.split)

lemma stop_task_session: "stop_task t = Some t' \<Longrightarrow> session_with u t' = session_with u t"
proof (cases t)
  case (ControlReply acts)
  assume "stop_task t = Some t'"
  with ControlReply show ?thesis by (cases acts) auto
qed (auto split: if_splits)

lemma server_step_auth: "server_step env y z \<Longrightarrow> auth_inv env y \<Longrightarrow> auth_inv env z"
proof (induction rule: server_step.induct)
  case (accept y)
  then show ?case by (elim auth_inv_same) simp_all
next
  case (dispatch y n peek handshake)
  from dispatch(2) show ?case by (rule auth_inv_same) (simp_all add: tasks_with_same [OF dispatch(1)])
next
  case (control y n token first store acts)
  then obtain started where a: "server_auth env (v_auth y) = (v_store y, started)"
    "\<And>u. tasks_with (session_with u) y = count_list started u"
    by (auto simp: auth_inv_def)
  have "tasks_with (session_with u) (set_task n (ControlReply acts) y) = count_list started u" for u
    using tasks_with_same [OF control(1)] a(2) by simp
  with server_auth_control [OF a(1) control(2)] show ?case by (simp add: auth_inv_def)
next
  case (hello y n items store r)
  then obtain started where a: "server_auth env (v_auth y) = (v_store y, started)"
    "\<And>u. tasks_with (session_with u) y = count_list started u"
    by (auto simp: auth_inv_def)
  have "tasks_with (session_with u) (set_task n (mux_task_of r) y) =
      count_list (started @ (case r of None \<Rightarrow> [] | Some (u, rest) \<Rightarrow> [u])) u" for u
    using tasks_with_set [OF hello(1), of "session_with u" "mux_task_of r"] a(2) [of u]
    by (auto simp: mux_task_of_def split: option.splits)
  with server_auth_mux [OF a(1) hello(2)] show ?case by (simp add: auth_inv_def)
next
  case (session y n u s t)
  from session(3) show ?case by (rule auth_inv_same) (simp_all add: tasks_with_same [OF session(1)])
next
  case (conn_stop y n t t' ch)
  have "tasks_with (session_with u) (set_task n t' y) = tasks_with (session_with u) y" for u
    using conn_stop(1) stop_task_session [OF conn_stop(2)] by (rule tasks_with_same)
  with conn_stop(4) show ?case by (elim auth_inv_same) simp_all
next
  case (cut_work y n u s t)
  from cut_work(3) show ?case by (rule auth_inv_same) (simp_all add: tasks_with_same [OF cut_work(1)])
next
  case (reply y n a acts)
  from reply(2) show ?case by (rule auth_inv_same) (simp_all add: tasks_with_same [OF reply(1)])
next
  case (reply_end y n)
  from reply_end(2) show ?case by (rule auth_inv_same) (simp_all add: tasks_with_same [OF reply_end(1)])
qed (elim auth_inv_same, simp_all)+

lemma server_reachable_auth: "server_reachable env y \<Longrightarrow> auth_inv env y"
proof (induction rule: server_reachable.induct)
  case start
  show ?case by (simp add: auth_inv_def server_auth_def server_start_def tasks_with_def)
qed (blast intro: server_step_auth)

subsection \<open>The accept loop\<close>

lemma serve_snoc:
  "serve es = (ss, None) \<Longrightarrow> serve (es @ [AcceptOk s]) = (ss @ [s], None)"
  "serve es = (ss, None) \<Longrightarrow> serve (es @ [AcceptErr]) = (ss, Some False)"
  "serve es = (ss, None) \<Longrightarrow> serve (es @ [ShutdownRecv]) = (ss, Some True)"
  by (induction es arbitrary: ss rule: serve.induct) (auto split: prod.splits)

definition serve_inv :: "'u server_sys \<Rightarrow> bool" where
  "serve_inv y \<longleftrightarrow> serve (v_events y) = ([0..<length (v_conns y)], v_result y)"

lemma server_step_serve: "server_step env y z \<Longrightarrow> serve_inv y \<Longrightarrow> serve_inv z"
  by (induction rule: server_step.induct) (simp_all add: serve_inv_def serve_snoc)

lemma server_reachable_serve: "server_reachable env y \<Longrightarrow> serve_inv y"
proof (induction rule: server_reachable.induct)
  case start
  show ?case by (simp add: serve_inv_def server_start_def)
qed (blast intro: server_step_serve)

text \<open>Once \<open>serve\<close> has returned no connection is accepted.\<close>

lemma server_step_result:
  "server_step env y z \<Longrightarrow> v_result y \<noteq> None \<Longrightarrow>
     v_result z = v_result y \<and> length (v_conns z) = length (v_conns y)"
  by (induction rule: server_step.induct) simp_all

lemma server_steps_result:
  "(server_step env)\<^sup>*\<^sup>* y z \<Longrightarrow> v_result y \<noteq> None \<Longrightarrow>
     v_result z = v_result y \<and> length (v_conns z) = length (v_conns y)"
proof (induction rule: rtranclp_induct)
  case (step x z)
  with server_step_result [OF step(2)] show ?case by simp
qed simp

text \<open>A session runs for a token that was issued, and not more often than it was.\<close>

lemma session_token_issued:
  assumes "server_reachable env y" and "t \<in> set (v_conns y)" and "session_of t = Some (u, s)"
  shows "tasks_with (session_with u) y \<le>
       count_list (tokens_issued (e_version_parse env) (e_req_matches env) (e_users env) (v_auth y)) u \<and>
     u \<in> set (tokens_issued (e_version_parse env) (e_req_matches env) (e_users env) (v_auth y))"
proof -
  let ?issued = "tokens_issued (e_version_parse env) (e_req_matches env) (e_users env) (v_auth y)"
  obtain started where a: "server_auth env (v_auth y) = (v_store y, started)"
    "tasks_with (session_with u) y = count_list started u"
    using server_reachable_auth [OF assms(1)] by (auto simp: auth_inv_def)
  then have le: "tasks_with (session_with u) y \<le> count_list ?issued u"
    using auth_run_le_issued [of "e_version_parse env" "e_req_matches env" "e_uuid_show env"
        "e_uuid_parse env" "e_users env" "v_auth y" u]
    by (simp add: server_auth_def)
  have "session_with u t" using assms(3) by (simp add: session_with_def)
  with assms(2) have "0 < tasks_with (session_with u) y"
    unfolding tasks_with_def by (metis filter_empty_conv length_greater_0_conv)
  with le have "0 < count_list ?issued u" by linarith
  then have "u \<in> set ?issued" by (metis count_list_0_iff less_irrefl)
  with le show ?thesis by blast
qed

lemma session_connects_allowed:
  assumes "server_reachable env y" and "t \<in> set (v_conns y)" and "session_of t = Some (u, s)"
  shows "list_all is_dest_allowed (s_connects s)"
proof -
  have "task_reachable t"
    using server_reachable_sessions [OF assms(1)] assms(2) by (simp add: sessions_inv_def list_all_iff)
  then show ?thesis using task_reachable_inv [OF _ assms(3)] by (simp add: srv_inv_def)
qed

text \<open>The steps of a session are steps of the server.\<close>

lemma session_steps:
  "srv_step\<^sup>*\<^sup>* s t \<Longrightarrow> has_task y n (MuxSession u s) \<Longrightarrow>
     (server_step env)\<^sup>*\<^sup>* y (set_task n (MuxSession u t) y)"
proof (induction rule: rtranclp_induct)
  case base
  then have "(v_conns y)[n := MuxSession u s] = v_conns y"
    using list_update_id [of "v_conns y" n] by (auto simp: has_task_def)
  then have "set_task n (MuxSession u s) y = y" by (simp add: set_task_def)
  then show ?case by simp
next
  case (step t' t)
  let ?y = "set_task n (MuxSession u t') y"
  have "has_task ?y n (MuxSession u t')" using step(4) by (simp add: has_task_def set_task_def)
  from server_step.session [OF this step(2), of env]
  have "server_step env ?y (set_task n (MuxSession u t) y)" by (simp add: set_task_def)
  with step(3) [OF step(4)] show ?case by (rule rtranclp.rtrancl_into_rtrancl)
qed

subsection \<open>A run of a server\<close>

text \<open>
  A client gets token \<open>t\<close> over \<open>/control\<close> and opens a mux connection with it; the session then
  runs as in \<open>demo_run\<close>.
\<close>

definition demo_env :: "(unit, string) server_env" where
  "demo_env = \<lparr>e_version_parse = (\<lambda>_. Some ()), e_req_matches = (\<lambda>_ _. True), e_uuid_show = (\<lambda>u. u),
     e_uuid_parse = Some, e_users = [''u'']\<rparr>"

definition demo_first :: "ws_item option" where
  "demo_first = Some (Some (WsText ''Hello:0.1.0:u''))"

definition demo_hello :: "ws_item list" where
  "demo_hello = Some (WsBinary (encode (Hello ''t''))) # demo_items"

definition demo_peek :: "bytes option" where
  "demo_peek = Some (as_bytes ''websocket'')"

lemma demo_dispatches:
  "start_task (accept_connection demo_peek (\<lambda>_. Some ''/control'')) = ControlWait"
  "start_task (accept_connection demo_peek (\<lambda>_. Some ''/mux'')) = MuxWait"
proof -
  have "is_websocket (as_bytes ''websocket'')"
    by (simp add: is_websocket_def starts_with_def ascii_lower_def)
  moreover have "as_bytes ''websocket'' \<noteq> []" by (simp add: as_bytes_def)
  ultimately show "start_task (accept_connection demo_peek (\<lambda>_. Some ''/control'')) = ControlWait"
    "start_task (accept_connection demo_peek (\<lambda>_. Some ''/mux'')) = MuxWait"
    by (simp_all add: start_task_def accept_connection_def demo_peek_def ends_with_def)
qed

lemma demo_control:
  "server_control demo_env ''t'' demo_first {} = ({''t''}, [SendMsg (WsText ''Hi:t'')])"
  using process_control_hello [of "''0.1.0''" "\<lambda>_. Some ()" "\<lambda>_ _. True" "\<lambda>u. u" "''t''" "''u''" "[''u'']" "{}"]
  by (simp add: server_control_def demo_env_def demo_first_def token_insert_def)

lemma demo_authenticate:
  "mux_authenticate Some demo_hello {''t''} = ({}, Some (''t'', demo_items))"
  by (simp add: mux_authenticate_def demo_hello_def decode_encode ascii_valid_str token_remove_def
      del: encode.simps)

lemma demo_server_control:
  "server_reachable demo_env \<lparr>v_store = {''t''}, v_result = None, v_conns = [Returned],
     v_shut = make_shutdown_channel, v_events = [AcceptOk 0], v_auth = [ControlConn ''t'' demo_first],
     v_sends = 0\<rparr>"
proof -
  let ?y = "\<lambda>store t auth. \<lparr>v_store = store, v_result = None, v_conns = [t], v_shut = make_shutdown_channel,
     v_events = [AcceptOk 0], v_auth = auth, v_sends = 0\<rparr>"
  have 1: "server_reachable demo_env (?y {} Accepted [])"
    using server_reachable.step [OF server_reachable.start server_step.accept, of demo_env]
    by (simp add: server_start_def)
  have 2: "server_reachable demo_env (?y {} ControlWait [])"
    using server_reachable.step [OF 1 server_step.dispatch [of _ 0 demo_env demo_peek "\<lambda>_. Some ''/control''"]]
    by (simp add: has_task_def set_task_def demo_dispatches)
  have 3: "server_reachable demo_env (?y {''t''} (ControlReply [SendMsg (WsText ''Hi:t'')]) [ControlConn ''t'' demo_first])"
    using server_reachable.step [OF 2 server_step.control [of _ 0 demo_env "''t''" demo_first]]
    by (simp add: has_task_def set_task_def demo_control)
  have 4: "server_reachable demo_env (?y {''t''} (ControlReply []) [ControlConn ''t'' demo_first])"
    using server_reachable.step [OF 3 server_step.reply [of _ 0]] by (simp add: has_task_def set_task_def)
  show ?thesis
    using server_reachable.step [OF 4 server_step.reply_end [of _ 0]] by (simp add: has_task_def set_task_def)
qed

lemma srv_reachable_steps: "srv_reachable items s \<Longrightarrow> srv_step\<^sup>*\<^sup>* (srv_init items) s"
  by (induction rule: srv_reachable.induct) (auto intro: rtranclp.rtrancl_into_rtrancl)

lemma server_reachable_steps:
  "(server_step env)\<^sup>*\<^sup>* y z \<Longrightarrow> server_reachable env y \<Longrightarrow> server_reachable env z"
  by (induction rule: rtranclp_induct) (auto intro: server_reachable.step)

definition demo_sys :: "srv_session \<Rightarrow> string server_sys" where
  "demo_sys s = \<lparr>v_store = {}, v_result = None, v_conns = [Returned, MuxSession ''t'' s],
     v_shut = make_shutdown_channel, v_events = [AcceptOk 0, AcceptOk 1],
     v_auth = [ControlConn ''t'' demo_first, MuxConn demo_hello], v_sends = 0\<rparr>"

lemma demo_server_session:
  assumes "srv_reachable demo_items s"
  shows "server_reachable demo_env (demo_sys s)"
proof -
  let ?y = "\<lambda>t store auth. \<lparr>v_store = store, v_result = None, v_conns = [Returned, t],
     v_shut = make_shutdown_channel, v_events = [AcceptOk 0, AcceptOk 1], v_auth = auth, v_sends = 0\<rparr>"
  let ?control = "[ControlConn ''t'' demo_first]"
  have 1: "server_reachable demo_env (?y Accepted {''t''} ?control)"
    using server_reachable.step [OF demo_server_control server_step.accept] by simp
  have 2: "server_reachable demo_env (?y MuxWait {''t''} ?control)"
    using server_reachable.step [OF 1 server_step.dispatch [of _ 1 demo_env demo_peek "\<lambda>_. Some ''/mux''"]]
    by (simp add: has_task_def set_task_def demo_dispatches)
  have "e_uuid_parse demo_env = Some" by (simp add: demo_env_def)
  then have 3: "server_reachable demo_env (demo_sys (srv_init demo_items))"
    using server_reachable.step [OF 2 server_step.hello [of _ 1 demo_env demo_hello]]
    by (simp add: has_task_def set_task_def demo_authenticate mux_task_of_def demo_sys_def)
  have "has_task (demo_sys (srv_init demo_items)) 1 (MuxSession ''t'' (srv_init demo_items))"
    by (simp add: has_task_def demo_sys_def)
  from server_reachable_steps [OF session_steps [OF srv_reachable_steps [OF assms] this] 3]
  show ?thesis by (simp add: demo_sys_def set_task_def)
qed

subsection \<open>Properties\<close>

text \<open>Over the whole life of the server, however its loop, its connections, their sessions and the
  shutdown interleave: the accept loop behaves as \<open>serve\<close> on what its \<open>select\<close> saw and hands
  over every connection once; the token store holds what \<open>auth_run\<close> leaves after the handshakes
  in the order in which they reached it, and exactly the sessions that \<open>auth_run\<close> starts exist;
  and every session is one of the step relation \<open>srv_step\<close>, or what goes on from the cut of one.\<close>

lemma server_life_refines:
  assumes "server_reachable env y"
  shows "serve (v_events y) = ([0..<length (v_conns y)], v_result y) \<and>
     (\<exists>started. server_auth env (v_auth y) = (v_store y, started) \<and>
        (\<forall>u. tasks_with (session_with u) y = count_list started u)) \<and>
     list_all task_reachable (v_conns y)"
  using server_reachable_serve [OF assms] server_reachable_auth [OF assms] server_reachable_sessions [OF assms]
  by (simp add: serve_inv_def auth_inv_def sessions_inv_def)

text \<open>C7: over the whole life of the server, also while it shuts down and after: a mux session, cut or
  not, runs only for a token, there are never more sessions of a token than accepted control
  handshakes that issued it, and every destination a session has tried to connect to passes the
  SSRF filter.\<close>

theorem server_life_safe:
  assumes "server_reachable env y" and "t \<in> set (v_conns y)" and "session_of t = Some (u, s)"
  shows "tasks_with (session_with u) y \<le>
       count_list (tokens_issued (e_version_parse env) (e_req_matches env) (e_users env) (v_auth y)) u \<and>
     u \<in> set (tokens_issued (e_version_parse env) (e_req_matches env) (e_users env) (v_auth y)) \<and>
     (\<forall>dest \<in> set (s_connects s). is_dest_allowed dest)"
  using session_token_issued [OF assms] session_connects_allowed [OF assms] by (simp add: list_all_iff)

theorem server_life_safe_witness:
  "\<exists>s. s_connects s = [''web.org:80''] \<and> is_dest_allowed ''web.org:80'' \<and>
     ''t'' \<in> set (tokens_issued (e_version_parse demo_env) (e_req_matches demo_env) (e_users demo_env)
       (v_auth (demo_sys s)))"
proof -
  obtain s where s: "srv_reachable demo_items s" "s_connects s = [''web.org:80'']" using demo_run by blast
  have "MuxSession ''t'' s \<in> set (v_conns (demo_sys s))" by (simp add: demo_sys_def)
  from server_life_safe [OF demo_server_session [OF s(1)] this, of "''t''" s] s(2) show ?thesis by auto
qed

end
