(* ===== verification/Server_Shutdown.thy ===== *)
theory Server_Shutdown
  imports Server_System
begin

text \<open>
  What the shutdown channel does to the server of \<open>Server_System\<close>: a message ends one receiver,
  dropping the sender ends every task that waits at a \<open>select\<close>, and what a session leaves behind
  when its reader is dropped.
\<close>

subsection \<open>One message, one receiver\<close>

text \<open>Everything the shutdown has ended: connections, and the accept loop.\<close>

definition stopped_count :: "'u server_sys \<Rightarrow> nat" where
  "stopped_count y = tasks_with shut_down y + of_bool (v_result y = Some True)"

definition shutdown_inv :: "'u server_sys \<Rightarrow> bool" where
  "shutdown_inv y \<longleftrightarrow> shut.balanced (v_sends y) (stopped_count y) (v_shut y)"

lemma start_task_not_shut [simp]: "\<not> shut_down (start_task a)"
  by (simp add: start_task_def split: conn_action.split)

lemma mux_task_not_shut [simp]: "\<not> shut_down (mux_task_of r)"
  by (simp add: mux_task_of_def split: option.split)

lemma stop_task_shut: "stop_task t = Some t' \<Longrightarrow> shut_down t' \<and> \<not> shut_down t"
proof (cases t)
  case (ControlReply acts)
  assume "stop_task t = Some t'"
  with ControlReply show ?thesis by (cases acts) auto
qed (auto split: if_splits)

lemma server_step_shutdown: "server_step env y z \<Longrightarrow> shutdown_inv y \<Longrightarrow> shutdown_inv z"
proof (induction rule: server_step.induct)
  case (serve_stop y ch)
  then show ?case using shut.balanced_recv by (simp add: shutdown_inv_def stopped_count_def)
next
  case (send_stop y ch)
  then show ?case using shut.balanced_send by (simp add: shutdown_inv_def stopped_count_def)
next
  case (drop_stop y)
  then show ?case by (simp add: shutdown_inv_def shut.balanced_hangup)
next
  case (conn_stop y n t t' ch)
  have "tasks_with shut_down (set_task n t' y) = Suc (tasks_with shut_down y)"
    using tasks_with_set [OF conn_stop(1), of shut_down t'] stop_task_shut [OF conn_stop(2)] by simp
  with conn_stop(3,4) show ?case
    using shut.balanced_recv by (simp add: shutdown_inv_def stopped_count_def)
next
  case (dispatch y n peek handshake)
  then show ?case by (simp add: shutdown_inv_def stopped_count_def tasks_with_same [OF dispatch(1)])
next
  case (control y n token first store acts)
  then show ?case by (simp add: shutdown_inv_def stopped_count_def tasks_with_same [OF control(1)])
next
  case (hello y n items store r)
  then show ?case by (simp add: shutdown_inv_def stopped_count_def tasks_with_same [OF hello(1)])
next
  case (session y n u s t)
  then show ?case by (simp add: shutdown_inv_def stopped_count_def tasks_with_same [OF session(1)])
next
  case (cut_work y n u s t)
  then show ?case by (simp add: shutdown_inv_def stopped_count_def tasks_with_same [OF cut_work(1)])
next
  case (reply y n a acts)
  then show ?case by (simp add: shutdown_inv_def stopped_count_def tasks_with_same [OF reply(1)])
next
  case (reply_end y n)
  then show ?case by (simp add: shutdown_inv_def stopped_count_def tasks_with_same [OF reply_end(1)])
qed (simp_all add: shutdown_inv_def stopped_count_def)

lemma server_reachable_shutdown: "server_reachable env y \<Longrightarrow> shutdown_inv y"
proof (induction rule: server_reachable.induct)
  case start
  show ?case
    by (simp add: shutdown_inv_def stopped_count_def server_start_def tasks_with_def shut.balanced_def
        make_shutdown_channel_def)
qed (blast intro: server_step_shutdown)

subsection \<open>After the sender was dropped everything at a select can end\<close>

text \<open>
  A session's reader comes to an await, or to its end, by its own steps; on the way it reads nothing,
  sends nothing and connects nowhere.
\<close>

definition same_io :: "srv_session \<Rightarrow> srv_session \<Rightarrow> bool" where
  "same_io s t \<longleftrightarrow> s_in t = s_in s \<and> s_out t = s_out s \<and> s_sent t = s_sent s \<and> s_connects t = s_connects s"

lemma same_io_trans: "same_io r s \<Longrightarrow> same_io s t \<Longrightarrow> same_io r t"
  by (simp add: same_io_def)

lemma apply_eff_same_io: "\<not> awaits e \<Longrightarrow> same_io s ((apply_eff e s)\<lparr>s_todo := es\<rparr>)"
  by (cases e) (simp_all add: same_io_def)

lemma reader_reaches_await:
  "\<exists>t. srv_step\<^sup>*\<^sup>* s t \<and> same_io s t \<and> (at_await t \<or> \<not> s_reading t \<and> s_todo t = [])"
proof (induction "length (s_todo s)" arbitrary: s rule: less_induct)
  case less
  show ?case
  proof (cases "s_todo s")
    case Nil
    then show ?thesis by (cases "s_reading s") (auto simp: at_await_def same_io_def)
  next
    case (Cons e es)
    show ?thesis
    proof (cases "awaits e")
      case True
      with Cons show ?thesis by (auto simp: at_await_def same_io_def)
    next
      case False
      then have "\<exists>t. srv_step s t \<and> same_io s t \<and> (at_await t \<or> s_todo t = es)"
      proof (cases "is_spawn e")
        case True
        then obtain i c where "e = ESpawn i c" by (cases e) auto
        with Cons srv_step.reader_spawn [of s i c es True "[]"] show ?thesis by (fastforce simp: same_io_def)
      next
        case nospawn: False
        with False Cons have "srv_step s ((apply_eff e s)\<lparr>s_todo := follow_up s e @ es\<rparr>)"
          by (intro srv_step.reader_eff) (cases e; auto)+
        moreover have "follow_up s e = [] \<or> (\<exists>c d. follow_up s e = [EChanSend c d])"
          by (cases "(s, e)" rule: follow_up.cases) (auto split: option.split)
        then have "at_await ((apply_eff e s)\<lparr>s_todo := follow_up s e @ es\<rparr>) \<or> follow_up s e @ es = es"
          by (auto simp: at_await_def)
        ultimately show ?thesis using apply_eff_same_io [OF False] by force
      qed
      then obtain t where t: "srv_step s t" "same_io s t" "at_await t \<or> s_todo t = es" by blast
      show ?thesis
      proof (cases "at_await t")
        case True
        with t show ?thesis by blast
      next
        case False
        with t Cons less [of t] obtain t' where "srv_step\<^sup>*\<^sup>* t t'" "same_io t t'"
          "at_await t' \<or> \<not> s_reading t' \<and> s_todo t' = []"
          by auto
        with t(1,2) show ?thesis by (meson converse_rtranclp_into_rtranclp same_io_trans)
      qed
    qed
  qed
qed

text \<open>The tasks whose \<open>select\<close> still looks at the channel, or will.\<close>

definition selecting :: "'u conn_task \<Rightarrow> bool" where
  "selecting t \<longleftrightarrow> holds_receiver t \<and> t \<noteq> Accepted"

text \<open>
  How a task ends once the sender is gone: at its \<open>select\<close> (a session's reader first finishes what
  needs no await), or by returning; the others are left alone.
\<close>

inductive winds_down :: "'u conn_task \<Rightarrow> 'u conn_task \<Rightarrow> bool" where
  at_select: "stop_task t = Some t' \<Longrightarrow> winds_down t t'"
| replied: "winds_down (ControlReply []) Returned"
| session_cut:
    "srv_step\<^sup>*\<^sup>* s s' \<Longrightarrow> same_io s s' \<Longrightarrow> stop_task (MuxSession u s') = Some t' \<Longrightarrow>
     winds_down (MuxSession u s) t'"
| session_done:
    "srv_step\<^sup>*\<^sup>* s s' \<Longrightarrow> same_io s s' \<Longrightarrow> \<not> s_reading s' \<Longrightarrow> s_todo s' = [] \<Longrightarrow>
     winds_down (MuxSession u s) (MuxSession u s')"
| left: "\<not> selecting t \<Longrightarrow> winds_down t t"

lemma stop_task_not_selecting: "stop_task t = Some t' \<Longrightarrow> \<not> selecting t'"
  by (cases t rule: stop_task.cases) (auto simp: selecting_def split: if_splits)

lemma task_winds_down:
  assumes "has_task y n t" "sd_closed (v_shut y)"
  shows "\<exists>t' ch. winds_down t t' \<and> \<not> selecting t' \<and> sd_closed ch \<and>
     (server_step env)\<^sup>*\<^sup>* y ((set_task n t' y)\<lparr>v_shut := ch\<rparr>)"
proof -
  obtain ch where ch: "shut_recv (v_shut y) = Some ch" "sd_closed ch"
    using shut.recv_closed [OF assms(2)] by blast
  have same: "(v_conns y)[n := t] = v_conns y" using assms(1) by (auto simp: has_task_def)
  show ?thesis
  proof (cases "stop_task t")
    case (Some t')
    with server_step.conn_stop [OF assms(1) Some ch(1), of env] ch(2) stop_task_not_selecting [OF Some] show ?thesis
      by (intro exI [of _ t'] exI [of _ ch]) (auto intro: winds_down.at_select)
  next
    case None
    show ?thesis
    proof (cases "selecting t")
      case False
      with assms(2) same show ?thesis
        by (intro exI [of _ t] exI [of _ "v_shut y"]) (simp add: set_task_def winds_down.left)
    next
      case True
      with None consider (replied) "t = ControlReply []" | (session) u s where "t = MuxSession u s"
        by (cases t rule: stop_task.cases) (auto simp: selecting_def)
      then show ?thesis
      proof cases
        case replied
        with server_step.reply_end [of y n env] assms show ?thesis
          by (intro exI [of _ Returned] exI [of _ "v_shut y"])
             (auto simp: selecting_def set_task_def intro: winds_down.replied)
      next
        case (session u s)
        obtain s' where s': "srv_step\<^sup>*\<^sup>* s s'" "same_io s s'" "at_await s' \<or> \<not> s_reading s' \<and> s_todo s' = []"
          using reader_reaches_await by blast
        let ?y = "set_task n (MuxSession u s') y"
        have steps: "(server_step env)\<^sup>*\<^sup>* y ?y" using session_steps [OF s'(1)] assms(1) session by simp
        have there: "has_task ?y n (MuxSession u s')" using assms(1) by (simp add: has_task_def set_task_def)
        show ?thesis
        proof (cases "at_await s'")
          case True
          let ?t = "CutSession u (cut_session s')"
          have "server_step env ?y ((set_task n ?t ?y)\<lparr>v_shut := ch\<rparr>)"
            using True ch(1) by (intro server_step.conn_stop [OF there]) (simp_all add: set_task_def)
          with steps have "(server_step env)\<^sup>*\<^sup>* y ((set_task n ?t y)\<lparr>v_shut := ch\<rparr>)"
            by (simp add: set_task_def rtranclp.rtrancl_into_rtrancl)
          moreover have "winds_down (MuxSession u s) ?t" using s'(1,2) True by (auto intro: winds_down.session_cut)
          ultimately show ?thesis using session ch(2) by (auto simp: selecting_def)
        next
          case False
          with s' have "winds_down (MuxSession u s) (MuxSession u s')" by (blast intro: winds_down.session_done)
          moreover have "\<not> selecting (MuxSession u s')" using s'(3) False by (simp add: selecting_def)
          ultimately show ?thesis using session steps assms(2)
            by (intro exI [of _ "MuxSession u s'"] exI [of _ "v_shut y"]) (simp add: set_task_def)
        qed
      qed
    qed
  qed
qed

lemma tasks_wind_down:
  assumes "sd_closed (v_shut y)" "k \<le> length (v_conns y)"
  shows "\<exists>ts ch. list_all2 winds_down (take k (v_conns y)) ts \<and> (\<forall>t\<in>set ts. \<not> selecting t) \<and> sd_closed ch \<and>
     (server_step env)\<^sup>*\<^sup>* y (y\<lparr>v_conns := ts @ drop k (v_conns y), v_shut := ch\<rparr>)"
  using assms(2)
proof (induction k)
  case 0
  show ?case using assms(1) by (intro exI [of _ "[]"] exI [of _ "v_shut y"]) simp
next
  case (Suc k)
  then obtain ts ch where ts: "list_all2 winds_down (take k (v_conns y)) ts" "\<forall>t\<in>set ts. \<not> selecting t" "sd_closed ch"
    "(server_step env)\<^sup>*\<^sup>* y (y\<lparr>v_conns := ts @ drop k (v_conns y), v_shut := ch\<rparr>)"
    by auto
  let ?y = "y\<lparr>v_conns := ts @ drop k (v_conns y), v_shut := ch\<rparr>" and ?t = "v_conns y ! k"
  have k: "length ts = k" "drop k (v_conns y) = ?t # drop (Suc k) (v_conns y)"
    using ts(1) Suc.prems by (auto simp: Cons_nth_drop_Suc dest: list_all2_lengthD)
  moreover have "(ts @ ?t # drop (Suc k) (v_conns y)) ! k = ?t" using k(1) by (metis nth_append_length)
  ultimately have "has_task ?y k ?t" by (simp add: has_task_def)
  then obtain t' ch' where t': "winds_down ?t t'" "\<not> selecting t'" "sd_closed ch'"
    "(server_step env)\<^sup>*\<^sup>* ?y ((set_task k t' ?y)\<lparr>v_shut := ch'\<rparr>)"
    using task_winds_down [of ?y k ?t env] ts(3) by auto
  have "(set_task k t' ?y)\<lparr>v_shut := ch'\<rparr> = y\<lparr>v_conns := (ts @ [t']) @ drop (Suc k) (v_conns y), v_shut := ch'\<rparr>"
    using k by (simp add: set_task_def list_update_append)
  with t'(4) ts(4) have "(server_step env)\<^sup>*\<^sup>* y (y\<lparr>v_conns := (ts @ [t']) @ drop (Suc k) (v_conns y), v_shut := ch'\<rparr>)"
    by (metis rtranclp_trans)
  moreover have "list_all2 winds_down (take (Suc k) (v_conns y)) (ts @ [t'])"
    using ts(1) t'(1) k Suc.prems by (simp add: take_Suc_conv_app_nth list_all2_appendI)
  ultimately show ?case using ts(2) t'(2,3) by (intro exI [of _ "ts @ [t']"] exI [of _ ch']) auto
qed

subsection \<open>What is left of a cut session\<close>

definition cut_frozen :: "srv_session \<Rightarrow> srv_session \<Rightarrow> bool" where
  "cut_frozen s t \<longleftrightarrow>
     \<not> s_reading t \<and> s_todo t = [] \<and> s_in t = s_in s \<and> s_connects t = s_connects s \<and>
     s_sent t = s_sent s \<and> s_opened t = s_opened s \<and>
     (\<forall>(i, es) \<in> set (s_relays t). \<exists>es0. (i, es0) \<in> set (s_relays s) \<and> suffix es es0) \<and>
     (\<exists>more. s_out t = s_out s @ more \<and>
        (\<forall>f \<in> set more. \<exists>(i, es) \<in> set (s_relays s). ESendFrame f True \<in> set es \<and> stream_of_relay_frame f = Some i)) \<and>
     inner (s_reg t) \<subseteq>\<^sub>m inner (s_reg s) \<and>
     (s_writing t \<longrightarrow> (\<forall>i. inner (s_reg s) i \<noteq> None \<longrightarrow> inner (s_reg t) i \<noteq> None \<or>
        (\<exists>es. (i, es) \<in> set (s_relays s) \<and> ERegistry (CloseOp i) \<in> set es)))"

lemma cut_frozen_relay:
  assumes "cut_frozen s t" "s_relays t = xs @ (i, e # es) # ys" "relay_effect i e"
  shows "cut_frozen s ((apply_eff e t)\<lparr>s_relays := xs @ (i, es) # ys\<rparr>)"
proof -
  have "(i, e # es) \<in> set (s_relays t)" using assms(2) by simp
  then obtain es0 where es0: "(i, es0) \<in> set (s_relays s)" "suffix (e # es) es0"
    using assms(1) unfolding cut_frozen_def by blast
  then have e: "e \<in> set es0" "suffix es es0" by (auto simp: suffix_def)
  have rel: "\<forall>(j, fs) \<in> set (xs @ (i, es) # ys). \<exists>fs0. (j, fs0) \<in> set (s_relays s) \<and> suffix fs fs0"
    using assms(1,2) es0(1) e(2) by (auto simp: cut_frozen_def)
  show ?thesis
  proof (cases e)
    case (ESendFrame f ok)
    then have f: "stream_of_relay_frame f = Some i" using assms(3) by (auto simp: stream_of_relay_frame_def)
    obtain more where more: "s_out t = s_out s @ more" "\<forall>g \<in> set more. \<exists>(j, fs) \<in> set (s_relays s).
        ESendFrame g True \<in> set fs \<and> stream_of_relay_frame g = Some j"
      using assms(1) by (auto simp: cut_frozen_def)
    have "\<exists>(j, fs) \<in> set (s_relays s). ESendFrame f True \<in> set fs \<and> stream_of_relay_frame f = Some j" if ok
      using that es0(1) e(1) f ESendFrame by auto
    with more have "\<exists>more. s_out (apply_eff e t) = s_out s @ more \<and> (\<forall>g \<in> set more. \<exists>(j, fs) \<in> set (s_relays s).
        ESendFrame g True \<in> set fs \<and> stream_of_relay_frame g = Some j)"
      using ESendFrame by (intro exI [of _ "more @ (if ok then [f] else [])"]) auto
    with assms(1) rel ESendFrame show ?thesis by (simp add: cut_frozen_def)
  next
    case (ERegistry x)
    with assms(3) e(1) have "x = CloseOp i" "ERegistry (CloseOp i) \<in> set es0" by simp_all
    with ERegistry assms(1) rel es0(1) show ?thesis
      by (auto simp: cut_frozen_def registry_defs map_le_def)
  qed (use assms(3) in simp_all)
qed

lemma cut_step_frozen: "srv_step t t' \<Longrightarrow> srv_inv t \<Longrightarrow> cut_frozen s t \<Longrightarrow> cut_frozen s t'"
proof (induction rule: srv_step.induct)
  case (relay_eff x xs i e es ys)
  then have "relay_effect i e" by (auto simp: srv_inv_def)
  with relay_eff(4,1) show ?case by (rule cut_frozen_relay)
qed (auto simp: cut_frozen_def registry_defs map_le_def)

lemma idle_steps_frozen:
  assumes "srv_step\<^sup>*\<^sup>* s t" "srv_inv s" "\<not> s_reading s" "s_todo s = []"
  shows "cut_frozen s t \<and> srv_inv t"
  using assms(1)
proof (induction rule: rtranclp_induct)
  case base
  show ?case using assms(2-4) by (auto simp: cut_frozen_def)
next
  case (step t t')
  then show ?case by (blast intro: cut_step_frozen srv_step_inv)
qed

text \<open>In the server a cut session stays cut.\<close>

lemma cut_task_step:
  assumes "server_step env y z" "has_task y n (CutSession u s)"
  shows "\<exists>t. has_task z n (CutSession u t) \<and> srv_step\<^sup>*\<^sup>* s t"
  using server_step_task [OF assms] by (auto elim!: task_moveE)

lemma cut_task_steps:
  assumes "(server_step env)\<^sup>*\<^sup>* y z" "has_task y n (CutSession u s)"
  shows "\<exists>t. has_task z n (CutSession u t) \<and> srv_step\<^sup>*\<^sup>* s t"
  using assms(1)
proof (induction rule: rtranclp_induct)
  case base
  show ?case using assms(2) by blast
next
  case (step x z)
  obtain t where t: "has_task x n (CutSession u t)" "srv_step\<^sup>*\<^sup>* s t" using step(3) by blast
  from cut_task_step [OF step(2) t(1)] t(2) show ?case by (meson rtranclp_trans)
qed

lemma cut_task_idle:
  assumes "task_reachable (CutSession u s)"
  shows "srv_inv s \<and> \<not> s_reading s \<and> s_todo s = []"
proof -
  obtain items s0 where s0: "srv_reachable items s0" "srv_step\<^sup>*\<^sup>* (cut_session s0) s"
    using assms by auto
  have "srv_inv (cut_session s0)" using srv_reachable_inv [OF s0(1)] by (rule cut_session_inv)
  from idle_steps_frozen [OF s0(2) this] show ?thesis by (simp add: cut_frozen_def cut_session_def)
qed

text \<open>A relay of a cut session goes on as before.\<close>

lemma cut_relay_goes_on:
  assumes "s_relays s = xs @ (i, e # es) # ys" "eff_enabled s e"
  shows "srv_step (cut_session s) ((apply_eff e (cut_session s))\<lparr>s_relays := xs @ (i, es) # ys\<rparr>)"
proof -
  have "eff_enabled (cut_session s) e" using assms(2) by (cases e) (auto simp: cut_session_def)
  then show ?thesis using assms(1) by (intro srv_step.relay_eff) (simp_all add: cut_session_def)
qed

subsection \<open>Shutting down the server of the demo\<close>

text \<open>The same server after its sender was dropped, and after the shutdown reached the session.\<close>

definition demo_closed :: "srv_session \<Rightarrow> string server_sys" where
  "demo_closed s = (demo_sys s)\<lparr>v_shut := shut_drop make_shutdown_channel\<rparr>"

definition demo_cut :: "srv_session \<Rightarrow> string server_sys" where
  "demo_cut s = set_task 1 (CutSession ''t'' (cut_session s)) (demo_closed s)"

lemma demo_server_closed:
  assumes "srv_reachable demo_items s"
  shows "server_reachable demo_env (demo_closed s)"
  using server_reachable.step [OF demo_server_session [OF assms] server_step.drop_stop]
  by (simp add: demo_closed_def demo_sys_def)

lemma demo_server_cut:
  assumes "srv_reachable demo_items s" "at_await s"
  shows "server_reachable demo_env (demo_cut s)"
proof -
  have "has_task (demo_closed s) 1 (MuxSession ''t'' s)"
    by (simp add: has_task_def demo_closed_def demo_sys_def)
  moreover have "stop_task (MuxSession ''t'' s) = Some (CutSession ''t'' (cut_session s))"
    using assms(2) by simp
  moreover have "shut_recv (v_shut (demo_closed s)) = Some (v_shut (demo_closed s))"
    by (simp add: demo_closed_def shut_recv_def shut_drop_def make_shutdown_channel_def)
  ultimately have "server_step demo_env (demo_closed s)
      ((set_task 1 (CutSession ''t'' (cut_session s)) (demo_closed s))\<lparr>v_shut := v_shut (demo_closed s)\<rparr>)"
    by (rule server_step.conn_stop)
  then have "server_step demo_env (demo_closed s) (demo_cut s)"
    by (simp add: demo_cut_def set_task_def)
  with demo_server_closed [OF assms(1)] show ?thesis by (rule server_reachable.step)
qed

subsection \<open>Properties\<close>

text \<open>C13: while the sender of the shutdown channel is kept, each message sent into it ends exactly one
  thing, the accept loop or one connection: what has been ended and the messages that still wait
  are together as many as the messages sent. A single \<open>send(())\<close> does not stop the server.\<close>

theorem shutdown_one_message_one_stop:
  assumes "server_reachable env y" and "\<not> sd_closed (v_shut y)"
  shows "stopped_count y + sd_waiting (v_shut y) = v_sends y"
  using server_reachable_shutdown [OF assms(1)] assms(2) by (simp add: shutdown_inv_def shut.balanced_def)

definition demo_one :: "srv_session \<Rightarrow> string server_sys" where
  "demo_one s = (demo_sys s)\<lparr>v_sends := 1, v_result := Some True, v_events := [AcceptOk 0, AcceptOk 1, ShutdownRecv]\<rparr>"

lemma demo_server_one:
  assumes "srv_reachable demo_items s"
  shows "server_reachable demo_env (demo_one s)"
proof -
  let ?ch = "make_shutdown_channel\<lparr>sd_waiting := 1\<rparr>"
  have "server_step demo_env (demo_sys s) ((demo_sys s)\<lparr>v_shut := ?ch, v_sends := 1\<rparr>)"
    using server_step.send_stop [of "demo_sys s" ?ch demo_env]
    by (simp add: demo_sys_def shut_send_def make_shutdown_channel_def)
  with demo_server_session [OF assms] have 1:
    "server_reachable demo_env ((demo_sys s)\<lparr>v_shut := ?ch, v_sends := 1\<rparr>)"
    by (rule server_reachable.step)
  have "server_step demo_env ((demo_sys s)\<lparr>v_shut := ?ch, v_sends := 1\<rparr>) (demo_one s)"
    using server_step.serve_stop [of "(demo_sys s)\<lparr>v_shut := ?ch, v_sends := 1\<rparr>" make_shutdown_channel demo_env]
    by (simp add: demo_sys_def demo_one_def shut_recv_def make_shutdown_channel_def)
  with 1 show ?thesis by (rule server_reachable.step)
qed

theorem shutdown_one_message_one_stop_witness:
  "\<exists>s. srv_reachable demo_items s \<and> v_sends (demo_one s) = 1 \<and> stopped_count (demo_one s) = 1 \<and>
     v_result (demo_one s) = Some True \<and> has_task (demo_one s) 1 (MuxSession ''t'' s) \<and> s_reading s"
proof -
  obtain s where s: "srv_reachable demo_items s" "s_reading s" using demo_run by blast
  have "\<not> sd_closed (v_shut (demo_one s))" "sd_waiting (v_shut (demo_one s)) = 0" "v_sends (demo_one s) = 1"
    by (simp_all add: demo_one_def demo_sys_def make_shutdown_channel_def)
  with shutdown_one_message_one_stop [OF demo_server_one [OF s(1)]] s show ?thesis
    by (intro exI [of _ s]) (simp add: demo_one_def demo_sys_def has_task_def)
qed

text \<open>C12: once the sender of the shutdown channel is dropped, whatever state the server is in, the tasks
  can end without the environment: with no connection accepted, no handshake, no frame read and no
  error of \<open>accept\<close>, the accept loop returns as for a shutdown (if it had not returned before) and
  every connection that waits at a \<open>select\<close>, or comes to one, ends there or returns, a session's
  reader after it has finished what needs no await. Only connections that have not finished their
  upgrade are left, and from then on no connection is accepted.\<close>

theorem shutdown_drop_stops_all:
  assumes "sd_closed (v_shut y)"
  shows "\<exists>z. (server_step env)\<^sup>*\<^sup>* y z \<and>
     v_result z = (if v_result y = None then Some True else v_result y) \<and>
     v_events z = v_events y @ (if v_result y = None then [ShutdownRecv] else []) \<and>
     v_auth z = v_auth y \<and> v_store z = v_store y \<and> v_sends z = v_sends y \<and>
     list_all2 winds_down (v_conns y) (v_conns z) \<and>
     (\<forall>t \<in> set (v_conns z). holds_receiver t \<longrightarrow> t = Accepted) \<and>
     (\<forall>x. (server_step env)\<^sup>*\<^sup>* z x \<longrightarrow> length (v_conns x) = length (v_conns z))"
proof -
  obtain ts ch where ts: "list_all2 winds_down (v_conns y) ts" "\<forall>t\<in>set ts. \<not> selecting t" "sd_closed ch"
    "(server_step env)\<^sup>*\<^sup>* y (y\<lparr>v_conns := ts, v_shut := ch\<rparr>)"
    using tasks_wind_down [OF assms order_refl, of env] by auto
  let ?y = "y\<lparr>v_conns := ts, v_shut := ch\<rparr>"
  obtain z where z: "(server_step env)\<^sup>*\<^sup>* ?y z" "v_conns z = ts" "v_auth z = v_auth y" "v_store z = v_store y"
    "v_sends z = v_sends y" "v_result z = (if v_result y = None then Some True else v_result y)"
    "v_events z = v_events y @ (if v_result y = None then [ShutdownRecv] else [])"
  proof (cases "v_result y")
    case None
    obtain ch' where "shut_recv (v_shut ?y) = Some ch'" using shut.recv_closed [of ch] ts(3) by auto
    with None server_step.serve_stop [of ?y ch' env] that [OF r_into_rtranclp] show ?thesis by simp
  next
    case (Some r)
    with that [of ?y] show ?thesis by simp
  qed
  then have "(server_step env)\<^sup>*\<^sup>* y z" using ts(4) by (metis rtranclp_trans)
  moreover have "v_result z \<noteq> None" using z(6) by auto
  moreover have "\<forall>t \<in> set (v_conns z). holds_receiver t \<longrightarrow> t = Accepted"
    using ts(2) z(2) by (auto simp: selecting_def)
  ultimately show ?thesis using z ts(1) server_steps_result [of env z] by blast
qed

theorem shutdown_drop_stops_all_witness:
  "\<exists>s z. srv_reachable demo_items s \<and> server_reachable demo_env (demo_closed s) \<and>
     (server_step demo_env)\<^sup>*\<^sup>* (demo_closed s) z \<and> v_result z = Some True \<and>
     (\<exists>u. v_conns z = [Returned, u] \<and> winds_down (MuxSession ''t'' s) u)"
proof -
  obtain s where s: "srv_reachable demo_items s" using demo_run by blast
  have "sd_closed (v_shut (demo_closed s))" by (simp add: demo_closed_def shut_drop_def)
  from shutdown_drop_stops_all [OF this, of demo_env] obtain z where
    z: "(server_step demo_env)\<^sup>*\<^sup>* (demo_closed s) z" "v_result z = Some True"
      "list_all2 winds_down [Returned, MuxSession ''t'' s] (v_conns z)"
    by (auto simp: demo_closed_def demo_sys_def)
  then obtain r u where ru: "v_conns z = [r, u]" "winds_down Returned r" "winds_down (MuxSession ''t'' s) u"
    by (auto simp: list_all2_Cons1)
  from ru(2) have "r = Returned" by (cases rule: winds_down.cases) auto
  with z ru s demo_server_closed [OF s] show ?thesis by blast
qed

text \<open>C14: a session that the shutdown has cut stays cut, whatever the server does afterwards: it reads
  no frame of its client any more, opens no stream, connects nowhere and puts no more data into the
  channel of any stream (what is in a channel already may still be written to its target, by a task
  that goes on). All it still sends are DATA and CLOSE frames that the relays running at that time
  send for their own streams. The cut does not close the streams: none is added, and while
  the writer loop runs one is removed only by its own relay.\<close>

theorem cut_session_only_drains:
  assumes "server_reachable env y" and "has_task y n (CutSession u s)" and "(server_step env)\<^sup>*\<^sup>* y z"
  shows "\<exists>t. has_task z n (CutSession u t) \<and> s_in t = s_in s \<and> s_opened t = s_opened s \<and>
     s_connects t = s_connects s \<and> s_sent t = s_sent s \<and>
     (\<exists>more. s_out t = s_out s @ more \<and>
        (\<forall>f \<in> set more. \<exists>(i, es) \<in> set (s_relays s). ESendFrame f True \<in> set es \<and> stream_of_relay_frame f = Some i)) \<and>
     inner (s_reg t) \<subseteq>\<^sub>m inner (s_reg s) \<and>
     (s_writing t \<longrightarrow> (\<forall>i. inner (s_reg s) i \<noteq> None \<longrightarrow> inner (s_reg t) i \<noteq> None \<or>
        (\<exists>es. (i, es) \<in> set (s_relays s) \<and> ERegistry (CloseOp i) \<in> set es)))"
proof -
  have "task_reachable (CutSession u s)"
    using server_reachable_sessions [OF assms(1)] assms(2) by (rule sessions_inv_task)
  then have idle: "srv_inv s" "\<not> s_reading s" "s_todo s = []"
    by (simp_all add: cut_task_idle del: task_reachable.simps)
  obtain t where t: "has_task z n (CutSession u t)" "srv_step\<^sup>*\<^sup>* s t"
    using cut_task_steps [OF assms(3,2)] by blast
  from idle_steps_frozen [OF t(2) idle] t(1) show ?thesis unfolding cut_frozen_def by blast
qed

lemma demo_cut_run:
  "\<exists>s. srv_reachable demo_items s \<and> at_await s \<and> s_sent s 0 = [[7]] \<and> s_open s \<and>
     s_out s = [OpenAck 1 True, Data 1 [5, 6]] \<and>
     s_relays s = [(1, [ESendFrame (Close 1) True, ERegistry (CloseOp 1)])]"
proof -
  let ?moves = "[SRead True True, SReader, SReader, SReader, SSpawn True [(ReadOk [5, 6], True), (ReadOk [], True)],
     SRead True True, SReader, SReader, SRelay 0]"
  have "\<exists>s. srv_run ?moves (srv_init demo_items) = Some s \<and> at_await s \<and> s_sent s 0 = [[7]] \<and> s_open s \<and>
      s_out s = [OpenAck 1 True, Data 1 [5, 6]] \<and>
      s_relays s = [(1, [ESendFrame (Close 1) True, ERegistry (CloseOp 1)])]"
    by (simp add: demo_items_def srv_init_def demo_dispatch registry_defs decode_encode
        ascii_valid_str relay_finish_def at_await_def del: encode.simps)
  then show ?thesis using srv_run_reachable [OF srv_reachable.start] by blast
qed

text \<open>The relay that was running sends its CLOSE after the shutdown has reached the session.\<close>

theorem cut_session_only_drains_witness:
  "\<exists>s z t. server_reachable demo_env (demo_cut s) \<and> (server_step demo_env)\<^sup>*\<^sup>* (demo_cut s) z \<and>
     has_task z 1 (CutSession ''t'' t) \<and> s_sent t 0 = [[7]] \<and> Close 1 \<in> set (s_out t)"
proof -
  obtain s where s: "srv_reachable demo_items s" "at_await s" "s_sent s 0 = [[7]]" "s_open s"
    "s_relays s = [] @ (1, [ESendFrame (Close 1) True, ERegistry (CloseOp 1)]) # []"
    using demo_cut_run by auto
  let ?t = "(apply_eff (ESendFrame (Close 1) True) (cut_session s))\<lparr>s_relays := [(1, [ERegistry (CloseOp 1)])]\<rparr>"
  let ?z = "set_task 1 (CutSession ''t'' ?t) (demo_cut s)"
  have there: "has_task (demo_cut s) 1 (CutSession ''t'' (cut_session s))"
    by (simp add: has_task_def demo_cut_def demo_closed_def demo_sys_def set_task_def)
  have "srv_step (cut_session s) ?t" using cut_relay_goes_on [OF s(5)] s(4) by simp
  then have step: "(server_step demo_env)\<^sup>*\<^sup>* (demo_cut s) ?z"
    using server_step.cut_work [OF there] by blast
  have "s_sent (cut_session s) 0 = [[7]]" using s(3) by (simp add: cut_session_def)
  with cut_session_only_drains [OF demo_server_cut [OF s(1,2)] there step] obtain t where
    "has_task ?z 1 (CutSession ''t'' t)" "s_sent t 0 = [[7]]"
    by auto
  moreover have "has_task ?z 1 (CutSession ''t'' ?t)" using there by (rule has_task_new)
  ultimately have "has_task ?z 1 (CutSession ''t'' t)" "s_sent t 0 = [[7]]" "t = ?t"
    by (auto simp: has_task_def)
  moreover have "Close 1 \<in> set (s_out ?t)" by simp
  ultimately show ?thesis using demo_server_cut [OF s(1,2)] step by blast
qed

end
