(* ===== verification/Deployment.thy ===== *)
theory Deployment
  imports Tunnel_System Client_System Server_Shutdown
begin

text \<open>
  A running client and a running server together: the client \<open>sys_step\<close> with all the mux connections
  its keeper has published over time, the server \<open>server_step\<close> with all its connections, and the
  WebSocket connections between the two. The server has other clients as well: of those nothing is
  assumed.
\<close>

subsection \<open>State\<close>

text \<open>
  A wire is one WebSocket connection between the two, after its HELLO: the frames that get through
  in either direction before it ends, the client's connection that uses it, once the keeper has
  published that, and the server's task, once HELLO has been accepted there.
\<close>

record wire =
  w_up :: "frame list"
  w_down :: "frame list"
  w_conn :: "nat option"
  w_task :: "nat option"

record 'u deployment =
  d_client :: client_sys
  d_server :: "'u server_sys"
  d_wires :: "wire list"

definition deploy_start :: "bool \<Rightarrow> 'u deployment" where
  "deploy_start socks = \<lparr>d_client = sys_init socks, d_server = server_start, d_wires = []\<rparr>"

text \<open>The two ends of a wire. A cut session is not an end any more that \<open>srv_step\<close> describes.\<close>

definition client_end :: "wire \<Rightarrow> client_sys \<Rightarrow> cl_session" where
  "client_end w y = (case w_conn w of None \<Rightarrow> cl_init (wire_items (w_down w)) | Some c \<Rightarrow> y_conns y ! c)"

fun live_session :: "'u conn_task \<Rightarrow> srv_session option" where
  "live_session (MuxSession u s) = Some s"
| "live_session _ = None"

definition server_end :: "wire \<Rightarrow> 'u server_sys \<Rightarrow> srv_session option" where
  "server_end w v =
     (case w_task w of
        None \<Rightarrow> Some (srv_init (wire_items (w_up w)))
      | Some n \<Rightarrow> live_session (v_conns v ! n))"

text \<open>The frames that the server has handed to the writer of a wire, also in a cut session.\<close>

definition server_sent :: "wire \<Rightarrow> 'u server_sys \<Rightarrow> frame list" where
  "server_sent w v =
     (case w_task w of
        None \<Rightarrow> []
      | Some n \<Rightarrow> (case session_of (v_conns v ! n) of Some (u, s) \<Rightarrow> s_out s | None \<Rightarrow> []))"

subsection \<open>Steps\<close>

text \<open>
  Each program takes its own steps; it reads from a wire only what the other has sent. \<open>dial\<close> is a
  new connection of the keeper, \<open>publish\<close> its publication, and \<open>admit\<close> the acceptance of its HELLO
  by the server, in either order.
\<close>

inductive deploy_step :: "('v, 'u) server_env \<Rightarrow> 'u deployment \<Rightarrow> 'u deployment \<Rightarrow> bool" for env where
  client:
    "sys_step (d_client d) y \<Longrightarrow> length (y_conns y) = length (y_conns (d_client d)) \<Longrightarrow>
     (\<forall>w \<in> set (d_wires d). causal (w_down w) (c_in (client_end w y)) (server_sent w (d_server d))) \<Longrightarrow>
     deploy_step env d (d\<lparr>d_client := y\<rparr>)"
| server:
    "server_step env (d_server d) v \<Longrightarrow>
     (\<forall>w \<in> set (d_wires d). \<forall>s. server_end w v = Some s \<longrightarrow>
        causal (w_up w) (s_in s) (c_out (client_end w (d_client d)))) \<Longrightarrow>
     deploy_step env d (d\<lparr>d_server := v\<rparr>)"
| dial:
    "deploy_step env d (d\<lparr>d_wires := d_wires d @ [\<lparr>w_up = up, w_down = down, w_conn = None, w_task = None\<rparr>]\<rparr>)"
| publish:
    "k < length (d_wires d) \<Longrightarrow> w_conn (d_wires d ! k) = None \<Longrightarrow> sys_step (d_client d) y \<Longrightarrow>
     y_conns y = y_conns (d_client d) @ [cl_init (wire_items (w_down (d_wires d ! k)))] \<Longrightarrow>
     deploy_step env d (d\<lparr>d_client := y,
       d_wires := (d_wires d)[k := (d_wires d ! k)\<lparr>w_conn := Some (length (y_conns (d_client d)))\<rparr>]\<rparr>)"
| admit:
    "k < length (d_wires d) \<Longrightarrow> w_task (d_wires d ! k) = None \<Longrightarrow> has_task (d_server d) n MuxWait \<Longrightarrow>
     mux_authenticate (e_uuid_parse env) items (v_store (d_server d)) =
       (store, Some (u, wire_items (w_up (d_wires d ! k)))) \<Longrightarrow>
     deploy_step env d (d\<lparr>
       d_server := (set_task n (MuxSession u (srv_init (wire_items (w_up (d_wires d ! k))))) (d_server d))
         \<lparr>v_store := store, v_auth := v_auth (d_server d) @ [MuxConn items]\<rparr>,
       d_wires := (d_wires d)[k := (d_wires d ! k)\<lparr>w_task := Some n\<rparr>]\<rparr>)"

inductive deployed :: "bool \<Rightarrow> ('v, 'u) server_env \<Rightarrow> 'u deployment \<Rightarrow> bool" for socks env where
  start: "deployed socks env (deploy_start socks)"
| step: "deployed socks env d \<Longrightarrow> deploy_step env d e \<Longrightarrow> deployed socks env e"

subsection \<open>The programs in the deployment\<close>

lemma deploy_step_parts:
  "deploy_step env d e \<Longrightarrow>
     (d_client e = d_client d \<or> sys_step (d_client d) (d_client e)) \<and>
     (d_server e = d_server d \<or> server_step env (d_server d) (d_server e))"
proof (induction rule: deploy_step.induct)
  case (admit k d n items store u)
  then have "server_step env (d_server d) ((set_task n (mux_task_of (Some (u, wire_items (w_up (d_wires d ! k)))))
      (d_server d))\<lparr>v_store := store, v_auth := v_auth (d_server d) @ [MuxConn items]\<rparr>)"
    by (intro server_step.hello)
  then show ?case by (simp add: mux_task_of_def)
qed auto

lemma deployed_parts:
  "deployed socks env d \<Longrightarrow> sys_reachable socks (d_client d) \<and> server_reachable env (d_server d)"
proof (induction rule: deployed.induct)
  case start
  show ?case by (simp add: deploy_start_def sys_reachable.start server_reachable.start)
next
  case (step d e)
  with deploy_step_parts [OF step(2)] show ?case
    by (metis sys_reachable.step server_reachable.step)
qed

text \<open>What a step of a program does to one of its connections.\<close>

lemma sys_step_conn:
  assumes "sys_step y z" "sys_inv y" "c < length (y_conns y)"
  shows "c < length (y_conns z) \<and> (y_conns z ! c = y_conns y ! c \<or> cl_step (y_conns y ! c) (y_conns z ! c))"
  using assms
proof (induction rule: sys_step.induct)
  case (take_conn y xs i ys b env es)
  then show ?case
    by (cases "b = c") (auto simp: set_conn_def intro: cl_step.accept)
next
  case (work b y t)
  then show ?case by (cases "b = c") (simp_all add: set_conn_def)
next
  case (disconnect y k b)
  then show ?case by (cases "b = c") (simp_all add: close_shared_def cl_close_step)
next
  case (stop y k)
  then show ?case
    by (cases "k_shared (y_keeper y) = Some c")
       (auto simp: close_shared_def cl_close_step nth_list_update split: option.split)
qed (simp_all add: sys_accept_def nth_append)

lemma live_task_step:
  assumes "server_step env y z" "has_task y n (MuxSession u s)"
  shows "\<exists>t. has_task z n t \<and>
     (t = MuxSession u s \<or> (\<exists>s'. t = MuxSession u s' \<and> srv_step s s') \<or> (\<exists>s'. t = CutSession u s'))"
proof -
  obtain t where t: "has_task z n t" "task_move (MuxSession u s) t" using server_step_task [OF assms] by blast
  from t(2) t(1) show ?thesis by (cases rule: task_moveE(2)) (auto split: if_splits)
qed

subsection \<open>Every wire is a tunnel\<close>

definition wire_ok :: "client_sys \<Rightarrow> 'u server_sys \<Rightarrow> wire \<Rightarrow> bool" where
  "wire_ok y v w \<longleftrightarrow>
     (\<forall>c. w_conn w = Some c \<longrightarrow> c < length (y_conns y)) \<and>
     (\<forall>n. w_task w = Some n \<longrightarrow> (\<exists>t. has_task v n t \<and> session_of t \<noteq> None)) \<and>
     (\<forall>s. server_end w v = Some s \<longrightarrow> tun_reachable (w_up w) (w_down w) (client_end w y, s))"

lemma wire_okD:
  assumes "wire_ok y v w"
  shows "w_conn w = Some c \<Longrightarrow> c < length (y_conns y)"
    and "w_task w = Some n \<Longrightarrow> \<exists>t. has_task v n t \<and> session_of t \<noteq> None"
    and "server_end w v = Some s \<Longrightarrow> tun_reachable (w_up w) (w_down w) (client_end w y, s)"
  using assms by (simp_all add: wire_ok_def)

lemma live_session_Some: "live_session t = Some s \<longleftrightarrow> (\<exists>u. t = MuxSession u s)"
  by (cases t) auto

lemma server_end_sent: "server_end w v = Some s \<Longrightarrow> server_sent w v = s_out s"
  by (auto simp: server_end_def server_sent_def srv_init_def live_session_Some split: option.splits)

lemma client_end_step:
  assumes "wire_ok y v w" "sys_step y z" "sys_inv y"
  shows "client_end w z = client_end w y \<or> cl_step (client_end w y) (client_end w z)"
  using sys_step_conn [OF assms(2,3)] wire_okD(1) [OF assms(1)]
  by (auto simp: client_end_def split: option.split)

lemma wire_client:
  assumes "wire_ok y v w" "sys_step y z" "sys_inv y" "length (y_conns z) = length (y_conns y)"
    and "causal (w_down w) (c_in (client_end w z)) (server_sent w v)"
  shows "wire_ok z v w"
proof -
  have "tun_reachable (w_up w) (w_down w) (client_end w z, s)" if "server_end w v = Some s" for s
    using client_end_step [OF assms(1-3)]
  proof
    assume "client_end w z = client_end w y"
    with wire_okD(3) [OF assms(1) that] show ?thesis by simp
  next
    assume "cl_step (client_end w y) (client_end w z)"
    with wire_okD(3) [OF assms(1) that] show ?thesis
      using assms(5) server_end_sent [OF that] by (auto intro: tun_reachable.client)
  qed
  with assms(1,4) show ?thesis by (simp add: wire_ok_def)
qed

lemma server_end_step:
  assumes "wire_ok y v w" "server_step env v z" "server_end w z = Some s"
  shows "\<exists>s0. server_end w v = Some s0 \<and> (s = s0 \<or> srv_step s0 s)"
proof (cases "w_task w")
  case None
  with assms(3) show ?thesis by (simp add: server_end_def)
next
  case (Some n)
  then obtain t where t: "has_task v n t" "session_of t \<noteq> None" using wire_okD(2) [OF assms(1)] by blast
  obtain t' where t': "has_task z n t'" "task_move t t'" using server_step_task [OF assms(2) t(1)] by blast
  from assms(3) Some t'(1) obtain u where u: "t' = MuxSession u s"
    by (auto simp: server_end_def has_task_def live_session_Some)
  have "\<exists>s0. t = MuxSession u s0 \<and> (s = s0 \<or> srv_step s0 s)"
  proof (cases t)
    case (MuxSession v s0)
    with t'(2) u show ?thesis by (auto elim!: task_moveE split: if_splits)
  next
    case (CutSession v s0)
    with t'(2) u show ?thesis by (auto elim!: task_moveE)
  qed (use t(2) in simp_all)
  with Some t(1) show ?thesis by (auto simp: server_end_def has_task_def)
qed

lemma wire_server:
  assumes "wire_ok y v w" "server_step env v z"
    and "\<forall>s. server_end w z = Some s \<longrightarrow> causal (w_up w) (s_in s) (c_out (client_end w y))"
  shows "wire_ok y z w"
proof -
  have "tun_reachable (w_up w) (w_down w) (client_end w y, s)" if s: "server_end w z = Some s" for s
  proof -
    obtain s0 where "server_end w v = Some s0" "s = s0 \<or> srv_step s0 s"
      using server_end_step [OF assms(1,2) s] by blast
    with wire_okD(3) [OF assms(1), of s0] assms(3) s show ?thesis by (auto intro: tun_reachable.server)
  qed
  moreover have "\<exists>t. has_task z n t \<and> session_of t \<noteq> None" if n: "w_task w = Some n" for n
  proof -
    obtain t where t: "has_task v n t" "session_of t \<noteq> None" using wire_okD(2) [OF assms(1) n] by blast
    obtain t' where t': "has_task z n t'" "task_move t t'" using server_step_task [OF assms(2) t(1)] by blast
    have "session_of t' \<noteq> None"
      using t(2) t'(2) by (cases t) (auto elim!: task_moveE split: if_splits)
    with t'(1) show ?thesis by blast
  qed
  ultimately show ?thesis using assms(1) by (simp add: wire_ok_def)
qed

lemma end_simps [simp]:
  "client_end (w\<lparr>w_task := x\<rparr>) y = client_end w y"
  "client_end (w\<lparr>w_conn := Some c\<rparr>) y = y_conns y ! c"
  "server_end (w\<lparr>w_conn := x'\<rparr>) v = server_end w v"
  "server_end (w\<lparr>w_task := Some n\<rparr>) v = live_session (v_conns v ! n)"
  by (simp_all add: client_end_def server_end_def split: option.split)

lemma wire_publish:
  assumes "wire_ok y v w" "y_conns z = y_conns y @ [s]"
  shows "wire_ok z v w"
proof -
  have "client_end w z = client_end w y"
    using wire_okD(1) [OF assms(1)] assms(2) by (auto simp: client_end_def nth_append split: option.split)
  with assms show ?thesis by (auto simp: wire_ok_def)
qed

lemma wire_publish_new:
  assumes "wire_ok y v w" "w_conn w = None" "y_conns z = y_conns y @ [cl_init (wire_items (w_down w))]"
  shows "wire_ok z v (w\<lparr>w_conn := Some (length (y_conns y))\<rparr>)"
proof -
  have "client_end w y = cl_init (wire_items (w_down w))" using assms(2) by (simp add: client_end_def)
  with assms(1,3) show ?thesis by (simp add: wire_ok_def del: map_map)
qed

lemma wire_admit:
  assumes "wire_ok y v w" "has_task v n MuxWait"
  shows "wire_ok y ((set_task n t v)\<lparr>v_store := a, v_auth := b\<rparr>) w"
proof (cases "w_task w")
  case None
  with assms(1) show ?thesis by (simp add: wire_ok_def server_end_def)
next
  case (Some m)
  then obtain x where x: "has_task v m x" "session_of x \<noteq> None" using wire_okD(2) [OF assms(1)] by blast
  then have "m \<noteq> n" using assms(2) by (auto simp: has_task_def)
  with x(1) have "has_task (set_task n t v) m x" "v_conns (set_task n t v) ! m = v_conns v ! m"
    by (simp_all add: has_task_def set_task_def)
  with Some x assms(1) show ?thesis by (auto simp: wire_ok_def server_end_def)
qed

lemma wire_admit_new:
  assumes "wire_ok y v w" "w_task w = None" "has_task v n MuxWait"
  shows "wire_ok y ((set_task n (MuxSession u (srv_init (wire_items (w_up w)))) v)\<lparr>v_store := a, v_auth := b\<rparr>)
     (w\<lparr>w_task := Some n\<rparr>)"
proof -
  let ?t = "MuxSession u (srv_init (wire_items (w_up w)))"
  have new: "has_task (set_task n ?t v) n ?t" using assms(3) by (rule has_task_new)
  then have at: "v_conns (set_task n ?t v) ! n = ?t" by (simp add: has_task_def)
  have "server_end w v = Some (srv_init (wire_items (w_up w)))" using assms(2) by (simp add: server_end_def)
  with wire_okD(3) [OF assms(1)] have "tun_reachable (w_up w) (w_down w)
      (client_end w y, srv_init (wire_items (w_up w)))" by blast
  with new at assms(1) show ?thesis by (auto simp: wire_ok_def simp del: map_map)
qed

lemma deploy_step_wires:
  "deploy_step env d e \<Longrightarrow> sys_inv (d_client d) \<Longrightarrow>
     \<forall>w \<in> set (d_wires d). wire_ok (d_client d) (d_server d) w \<Longrightarrow>
     \<forall>w \<in> set (d_wires e). wire_ok (d_client e) (d_server e) w"
proof (induction rule: deploy_step.induct)
  case (client d y)
  have "wire_ok y (d_server d) w" if w: "w \<in> set (d_wires d)" for w
    by (rule wire_client [OF _ client(1,4,2)]) (use client(3,5) w in auto)
  then show ?case by simp
next
  case (server d v)
  then show ?case by (auto intro: wire_server)
next
  case (dial d up down)
  have "wire_ok (d_client d) (d_server d) \<lparr>w_up = up, w_down = down, w_conn = None, w_task = None\<rparr>"
    by (simp add: wire_ok_def client_end_def server_end_def tun_reachable.start del: map_map)
  with dial(2) show ?case by auto
next
  case (publish k d y)
  let ?w = "(d_wires d ! k)\<lparr>w_conn := Some (length (y_conns (d_client d)))\<rparr>"
  have "wire_ok y (d_server d) ?w"
    using publish(1,6) by (intro wire_publish_new [OF _ publish(2,4)]) simp
  moreover have "wire_ok y (d_server d) w" if w: "w \<in> set (d_wires d)" for w
    by (rule wire_publish [OF _ publish(4)]) (use publish(6) w in auto)
  ultimately show ?case using set_update_subset_insert [of "d_wires d" k ?w] by auto
next
  case (admit k d n items store u)
  let ?w = "(d_wires d ! k)\<lparr>w_task := Some n\<rparr>"
  let ?v = "(set_task n (MuxSession u (srv_init (wire_items (w_up (d_wires d ! k))))) (d_server d))
     \<lparr>v_store := store, v_auth := v_auth (d_server d) @ [MuxConn items]\<rparr>"
  have "wire_ok (d_client d) ?v ?w"
    using admit(1,6) by (intro wire_admit_new [OF _ admit(2,3)]) simp
  moreover have "wire_ok (d_client d) ?v w" if w: "w \<in> set (d_wires d)" for w
    by (rule wire_admit [OF _ admit(3)]) (use admit(6) w in auto)
  ultimately show ?case using set_update_subset_insert [of "d_wires d" k ?w] by auto
qed

lemma deployed_wires: "deployed socks env d \<Longrightarrow> \<forall>w \<in> set (d_wires d). wire_ok (d_client d) (d_server d) w"
proof (induction rule: deployed.induct)
  case start
  show ?case by (simp add: deploy_start_def)
next
  case (step d e)
  have "sys_inv (d_client d)" using deployed_parts [OF step(1)] sys_reachable_inv by blast
  from deploy_step_wires [OF step(2) this step(3)] show ?case .
qed

lemma count_le_one_distinct: "(\<And>i. count_list xs i \<le> 1) \<Longrightarrow> distinct xs"
proof (induction xs)
  case (Cons x xs)
  have "count_list xs i \<le> 1" for i using Cons.prems [of i] by (simp split: if_splits)
  moreover have "count_list xs x = 0" using Cons.prems [of x] by simp
  ultimately show ?case using Cons.IH by (simp add: count_list_0_iff)
qed simp

text \<open>The ids of one connection are distinct.\<close>

lemma conn_ids_distinct:
  assumes "sys_reachable socks y" "y_count y \<le> 2 ^ 32" "c < length (y_conns y)"
  shows "distinct (c_ids (y_conns y ! c))"
proof -
  have "count_list (c_ids (y_conns y ! c)) i \<le> 1" for i
  proof -
    have "count_list (c_ids (y_conns y ! c)) i \<le> (\<Sum>s\<leftarrow>y_conns y. count_list (c_ids s) i)"
      using assms(3) by (intro member_le_sum_list) auto
    also have "\<dots> \<le> count_list (map accept_id [0..<y_count y]) i"
      using sys_reachable_ids [OF assms(1)] unfolding ids_inv_def id_uses_def by (meson add_leD2)
    also have "\<dots> \<le> 1"
      using ids_distinct [OF assms(2), of 1] by (simp add: distinct_count_list accept_id_def [abs_def])
    finally show ?thesis .
  qed
  then show ?thesis by (rule count_le_one_distinct)
qed

subsection \<open>A run of both programs\<close>

text \<open>
  The server of \<open>demo_server_control\<close> accepts the connection of a client that has accepted one local
  connection; then both ends run as in \<open>tun_schedule\<close>.
\<close>

lemma deployed_server_alone: "server_reachable env v \<Longrightarrow> deployed socks env ((deploy_start socks)\<lparr>d_server := v\<rparr>)"
proof (induction rule: server_reachable.induct)
  case start
  have "(deploy_start socks)\<lparr>d_server := server_start\<rparr> = deploy_start socks" by (simp add: deploy_start_def)
  then show ?case by (metis deployed.start)
next
  case (step v z)
  from deploy_step.server [of env "(deploy_start socks)\<lparr>d_server := v\<rparr>" z] step(2)
  have "deploy_step env ((deploy_start socks)\<lparr>d_server := v\<rparr>) ((deploy_start socks)\<lparr>d_server := z\<rparr>)"
    by (simp add: deploy_start_def)
  with step(3) show ?case by (rule deployed.step)
qed

text \<open>Steps of the client before there is a wire.\<close>

lemma deployed_client_alone:
  assumes "deployed socks env \<lparr>d_client = y, d_server = v, d_wires = []\<rparr>" "sys_step y z"
    and "length (y_conns z) = length (y_conns y)"
  shows "deployed socks env \<lparr>d_client = z, d_server = v, d_wires = []\<rparr>"
  using deployed.step [OF assms(1) deploy_step.client [of _ z env]] assms(2,3) by simp

definition demo_wait :: "string server_sys" where
  "demo_wait = \<lparr>v_store = {''t''}, v_result = None, v_conns = [Returned, MuxWait], v_shut = make_shutdown_channel,
     v_events = [AcceptOk 0, AcceptOk 1], v_auth = [ControlConn ''t'' demo_first], v_sends = 0\<rparr>"

lemma demo_wait_reachable: "server_reachable demo_env demo_wait"
proof -
  have 1: "server_reachable demo_env (demo_wait\<lparr>v_conns := [Returned, Accepted]\<rparr>)"
    using server_reachable.step [OF demo_server_control server_step.accept] by (simp add: demo_wait_def)
  show ?thesis
    using server_reachable.step [OF 1 server_step.dispatch [of _ 1 demo_env demo_peek "\<lambda>_. Some ''/mux''"]]
    by (simp add: has_task_def set_task_def demo_dispatches demo_wait_def)
qed

definition demo_ends :: "cl_session \<times> srv_session \<Rightarrow> string deployment" where
  "demo_ends x = \<lparr>d_client = set_conn 0 (fst x) (demo_connected\<lparr>y_pending := []\<rparr>),
     d_server = set_task 1 (MuxSession ''t'' (snd x)) (demo_wait\<lparr>v_store := {},
       v_auth := [ControlConn ''t'' demo_first, MuxConn demo_hello]\<rparr>),
     d_wires = [\<lparr>w_up = tun_up, w_down = tun_down, w_conn = Some 0, w_task = Some 1\<rparr>]\<rparr>"

lemma demo_wires: "wire_items tun_up = demo_items" "wire_items tun_down = demo_answers"
  by (simp_all add: tun_up_def tun_down_def demo_items_def demo_answers_def del: encode.simps)

definition demo_taken :: cl_session where
  "demo_taken = cl_accept 1 (handle_socks_via_mux_with_timeout demo_mux 1 ''web.org:80'') (cl_init demo_answers)"

lemma causal_unread: "causal fs (wire_items fs) handed"
  by (auto simp: causal_def intro: exI [of _ "[]"])

lemma demo_ends_start: "deployed True demo_env (demo_ends (demo_taken, srv_init demo_items))"
proof -
  let ?d = "\<lambda>y v ws. \<lparr>d_client = y, d_server = v, d_wires = ws\<rparr>"
  let ?w = "\<lambda>c n. \<lparr>w_up = tun_up, w_down = tun_down, w_conn = c, w_task = n\<rparr>"
  let ?y0 = "sys_accept (sys_init True)"
  let ?k1 = "keeper_init\<lparr>k_phase := Connecting ''t'', k_tokens := [''t'']\<rparr>"
  let ?k2 = "?k1\<lparr>k_phase := SendingHello ''t''\<rparr>"
  have "deployed True demo_env (?d (sys_init True) demo_wait [])"
    using deployed_server_alone [OF demo_wait_reachable] by (simp add: deploy_start_def)
  then have "deployed True demo_env (?d ?y0 demo_wait [])"
    by (rule deployed_client_alone) (auto simp: sys_init_def sys_accept_def intro!: sys_step.http_accept [of "sys_init True", unfolded sys_init_def sys_accept_def, simplified])
  then have "deployed True demo_env (?d (?y0\<lparr>y_keeper := ?k1\<rparr>) demo_wait [])"
    by (rule deployed_client_alone)
       (rule sys_step.keep [where e = "TokenRes (Some ''t'')"], simp_all add: sys_init_def sys_accept_def keeper_init_def)
  then have "deployed True demo_env (?d (?y0\<lparr>y_keeper := ?k1\<rparr>\<lparr>y_keeper := ?k2\<rparr>) demo_wait [])"
    by (rule deployed_client_alone) (rule sys_step.keep [where e = "ConnectRes True"], simp_all)
  from deployed.step [OF this deploy_step.dial [of demo_env _ tun_up tun_down]]
  have dialled: "deployed True demo_env (?d (?y0\<lparr>y_keeper := ?k2\<rparr>) demo_wait [?w None None])" by simp
  have "sys_step (?y0\<lparr>y_keeper := ?k2\<rparr>) demo_connected"
    using sys_step.publish [of "?y0\<lparr>y_keeper := ?k2\<rparr>" "the (keeper_step (SendingHello ''t'') (HelloRes True) ?k2)" demo_answers]
    by (simp add: demo_connected_def sys_init_def sys_accept_def keeper_init_def)
  from deployed.step [OF dialled deploy_step.publish [of 0 _ demo_connected demo_env]] this
  have published: "deployed True demo_env (?d demo_connected demo_wait [?w (Some 0) None])"
    by (simp add: demo_wires demo_connected_def sys_init_def sys_accept_def del: map_map)
  let ?v = "set_task 1 (MuxSession ''t'' (srv_init demo_items)) (demo_wait\<lparr>v_store := {},
      v_auth := [ControlConn ''t'' demo_first, MuxConn demo_hello]\<rparr>)"
  have "mux_authenticate (e_uuid_parse demo_env) demo_hello (v_store demo_wait) = ({}, Some (''t'', wire_items tun_up))"
    unfolding demo_wires using demo_authenticate by (simp add: demo_env_def demo_wait_def)
  from deployed.step [OF published deploy_step.admit [of 0 _ 1 demo_env demo_hello]] this
  have admitted: "deployed True demo_env (?d demo_connected ?v [?w (Some 0) (Some 1)])"
    by (simp add: demo_wires has_task_def set_task_def demo_wait_def del: map_map)
  let ?y = "set_conn 0 demo_taken (demo_connected\<lparr>y_pending := []\<rparr>)"
  have conns: "length (y_conns demo_connected) = 1" "y_conns ?y = [demo_taken]"
    by (simp_all add: demo_connected_def set_conn_def)
  have "causal tun_down (c_in demo_taken) handed" for handed
    using causal_unread [of tun_down handed] by (simp add: demo_taken_def cl_init_def demo_wires del: map_map)
  moreover have "sys_step demo_connected ?y" using demo_takes by (simp add: demo_taken_def set_conn_pending)
  ultimately have "deploy_step demo_env (?d demo_connected ?v [?w (Some 0) (Some 1)]) (?d ?y ?v [?w (Some 0) (Some 1)])"
    using deploy_step.client [of "?d demo_connected ?v [?w (Some 0) (Some 1)]" ?y demo_env] conns
    by (simp add: client_end_def)
  with admitted have "deployed True demo_env (?d ?y ?v [?w (Some 0) (Some 1)])" by (rule deployed.step)
  then show ?thesis by (simp add: demo_ends_def)
qed

lemma demo_ends_simps:
  "y_conns (d_client (demo_ends (cs, ss))) = [cs]"
  "has_task (d_server (demo_ends (cs, ss))) 1 (MuxSession ''t'' ss)"
  "d_wires (demo_ends (cs, ss)) = [\<lparr>w_up = tun_up, w_down = tun_down, w_conn = Some 0, w_task = Some 1\<rparr>]"
  "y_count (d_client (demo_ends (cs, ss))) = 1"
  by (simp_all add: demo_ends_def set_conn_def demo_connected_def has_task_def set_task_def demo_wait_def
      sys_accept_def sys_init_def)

lemma demo_ends_client:
  assumes "deployed True demo_env (demo_ends (cs, ss))" "cl_step cs cs'" "c_ids cs' = c_ids cs"
    and "causal tun_down (c_in cs') (s_out ss)"
  shows "deployed True demo_env (demo_ends (cs', ss))"
proof -
  let ?y = "d_client (demo_ends (cs, ss))"
  have one: "length (y_conns (demo_connected\<lparr>y_pending := []\<rparr>)) = 1" by (simp add: demo_connected_def)
  have "sys_step ?y (set_conn 0 cs' ?y)"
    by (rule sys_step.work) (simp_all add: demo_ends_simps assms(2,3))
  moreover have "set_conn 0 cs' ?y = d_client (demo_ends (cs', ss))"
    using one by (simp add: demo_ends_def)
  ultimately have "sys_step ?y (d_client (demo_ends (cs', ss)))" by simp
  then have "deploy_step demo_env (demo_ends (cs, ss)) ((demo_ends (cs, ss))\<lparr>d_client := d_client (demo_ends (cs', ss))\<rparr>)"
    using assms(4) demo_ends_simps(2) [of cs ss]
    by (intro deploy_step.client) (simp_all add: demo_ends_simps client_end_def server_sent_def has_task_def)
  moreover have "(demo_ends (cs, ss))\<lparr>d_client := d_client (demo_ends (cs', ss))\<rparr> = demo_ends (cs', ss)"
    by (simp add: demo_ends_def)
  ultimately show ?thesis using assms(1) by (metis deployed.step)
qed

lemma demo_ends_server:
  assumes "deployed True demo_env (demo_ends (cs, ss))" "srv_step ss ss'"
    and "causal tun_up (s_in ss') (c_out cs)"
  shows "deployed True demo_env (demo_ends (cs, ss'))"
proof -
  let ?v = "d_server (demo_ends (cs, ss))"
  have "server_step demo_env ?v (set_task 1 (MuxSession ''t'' ss') ?v)"
    by (rule server_step.session [OF demo_ends_simps(2) assms(2)])
  moreover have "set_task 1 (MuxSession ''t'' ss') ?v = d_server (demo_ends (cs, ss'))"
    by (simp add: demo_ends_def set_task_def)
  ultimately have "server_step demo_env ?v (d_server (demo_ends (cs, ss')))" by simp
  then have "deploy_step demo_env (demo_ends (cs, ss)) ((demo_ends (cs, ss))\<lparr>d_server := d_server (demo_ends (cs, ss'))\<rparr>)"
    using assms(3) demo_ends_simps(2) [of cs ss']
    by (intro deploy_step.server) (simp_all add: demo_ends_simps client_end_def server_end_def has_task_def)
  moreover have "(demo_ends (cs, ss))\<lparr>d_server := d_server (demo_ends (cs, ss'))\<rparr> = demo_ends (cs, ss')"
    by (simp add: demo_ends_def)
  ultimately show ?thesis using assms(1) by (metis deployed.step)
qed

fun no_take :: "cl_choice + srv_choice \<Rightarrow> bool" where
  "no_take (Inl m) = (\<not> takes_conn m)"
| "no_take (Inr m) = True"

lemma demo_ends_run:
  "tun_run tun_up tun_down ms x = Some y \<Longrightarrow> deployed True demo_env (demo_ends x) \<Longrightarrow>
     tun_reachable tun_up tun_down x \<Longrightarrow> list_all no_take ms \<Longrightarrow> deployed True demo_env (demo_ends y)"
proof (induction ms arbitrary: x)
  case (Cons m ms)
  obtain cs ss where x: "x = (cs, ss)" by (cases x)
  from Cons.prems(1) obtain x' where x': "tun_run tun_up tun_down [m] x = Some x'" "tun_run tun_up tun_down ms x' = Some y"
    unfolding x by (cases m) (auto split: option.splits if_splits)
  have tun: "tun_reachable tun_up tun_down x'" using Cons.prems(3) x'(1) by (rule tun_run_reachable)
  have "deployed True demo_env (demo_ends x')"
  proof (cases m)
    case (Inl c)
    with x' x obtain cs' where c: "cl_move c cs = Some cs'" "x' = (cs', ss)"
      by (auto split: option.splits if_splits)
    moreover have "causal tun_down (c_in cs') (s_out ss)" using tun_causal [OF tun] c(2) by simp
    ultimately show ?thesis
      using Cons.prems(2,4) Inl x cl_move_step [OF c(1)] cl_move_ids [OF c(1)] by (auto intro: demo_ends_client)
  next
    case (Inr c)
    with x' x obtain ss' where c: "srv_move c ss = Some ss'" "x' = (cs, ss')"
      by (auto split: option.splits if_splits)
    moreover have "causal tun_up (s_in ss') (c_out cs)" using tun_causal [OF tun] c(2) by simp
    ultimately show ?thesis using Cons.prems(2) x srv_move_step [OF c(1)] by (auto intro: demo_ends_server)
  qed
  with Cons.IH [OF x'(2)] tun Cons.prems(4) show ?case by simp
qed simp

lemma demo_deployed:
  "\<exists>cs ss. deployed True demo_env (demo_ends (cs, ss)) \<and> c_out cs = tun_up \<and> s_out ss = tun_down \<and>
     s_todo ss = [] \<and> inner (s_reg ss) 1 = Some 0 \<and> 0 \<notin> s_gone ss \<and> s_sent ss 0 = [[7]] \<and>
     c_todo cs = [] \<and> inner (c_reg cs) 1 = Some 0 \<and> 0 \<notin> c_gone cs \<and> c_sent cs 0 = [[5, 6]]"
proof -
  let ?start = "(cl_init (wire_items tun_down), srv_init (wire_items tun_up))"
  let ?first = "Inl (MSocks 1 demo_mux ''web.org:80'')"
  obtain cs ss where run: "tun_run tun_up tun_down tun_schedule ?start = Some (cs, ss)"
    and facts: "c_out cs = tun_up" "s_out ss = tun_down"
    "s_todo ss = []" "inner (s_reg ss) 1 = Some 0" "0 \<notin> s_gone ss" "s_sent ss 0 = [[7]]"
    "c_todo cs = []" "inner (c_reg cs) 1 = Some 0" "0 \<notin> c_gone cs" "c_sent cs 0 = [[5, 6]]"
    using tun_demo_run by blast
  have taken: "tun_run tun_up tun_down [?first] ?start = Some (demo_taken, srv_init demo_items)"
    by (simp add: demo_taken_def demo_wires demo_mux_def cl_init_def srv_init_def del: map_map)
       (simp add: demo_answers_def tun_down_def)
  have "tun_schedule = [?first] @ tl tun_schedule" by (simp add: tun_schedule_def)
  then have "tun_run tun_up tun_down ([?first] @ tl tun_schedule) ?start = Some (cs, ss)" using run by simp
  then have "tun_run tun_up tun_down (tl tun_schedule) (demo_taken, srv_init demo_items) = Some (cs, ss)"
    unfolding tun_run_append taken by simp
  moreover have "tun_reachable tun_up tun_down (demo_taken, srv_init demo_items)"
    using tun_run_reachable [OF tun_reachable.start taken] .
  moreover have "list_all no_take (tl tun_schedule)" by (simp add: tun_schedule_def)
  ultimately have "deployed True demo_env (demo_ends (cs, ss))" using demo_ends_start demo_ends_run by blast
  with facts show ?thesis by blast
qed

subsection \<open>Properties\<close>

text \<open>C1: in a deployment, a client that has accepted at most \<open>2^32\<close> connections and a server that may
  have other clients too, every mux connection between them loses nothing while its session is
  not cut by a shutdown: whenever the reader of an end is between two frames, the channel of each stream
  registered there, whose receiver is there, has accepted exactly the DATA payloads of the stream
  among the frames that this end has read, which are the first frames that the other end has
  handed to its writer.\<close>

theorem deployment_lossless:
  assumes "deployed socks env d" and "y_count (d_client d) \<le> 2 ^ 32"
    and "w \<in> set (d_wires d)" and "w_conn w = Some c" and "server_end w (d_server d) = Some ss"
  defines "cs \<equiv> y_conns (d_client d) ! c"
  shows "(\<forall>i ch. s_todo ss = [] \<longrightarrow> inner (s_reg ss) i = Some ch \<longrightarrow> ch \<notin> s_gone ss \<longrightarrow>
       (\<exists>read unread. w_up w = read @ unread \<and> s_in ss = wire_items unread \<and> prefix read (c_out cs) \<and>
          s_sent ss ch = data_payloads i read)) \<and>
     (\<forall>i ch. c_todo cs = [] \<longrightarrow> inner (c_reg cs) i = Some ch \<longrightarrow> ch \<notin> c_gone cs \<longrightarrow>
       (\<exists>read unread. w_down w = read @ unread \<and> c_in cs = wire_items unread \<and> prefix read (s_out ss) \<and>
          c_sent cs ch = data_payloads i read))"
proof -
  note ok = bspec [OF deployed_wires [OF assms(1)] assms(3)]
  have "client_end w (d_client d) = cs" using assms(4) by (simp add: client_end_def cs_def)
  then have tun: "tun_reachable (w_up w) (w_down w) (cs, ss)" using wire_okD(3) [OF ok assms(5)] by simp
  have dist: "distinct (c_ids cs)"
    unfolding cs_def
    using deployed_parts [OF assms(1), THEN conjunct1] assms(2) wire_okD(1) [OF ok assms(4)]
    by (rule conn_ids_distinct)
  show ?thesis using tun_exact_up [OF tun dist] tun_exact_down [OF tun dist] by blast
qed

theorem deployment_lossless_witness:
  "\<exists>cs ss read. deployed True demo_env (demo_ends (cs, ss)) \<and> prefix read (c_out cs) \<and>
     data_payloads 1 read = [[7]] \<and> s_sent ss 0 = [[7]] \<and> c_sent cs 0 = [[5, 6]]"
proof -
  obtain cs ss where d: "deployed True demo_env (demo_ends (cs, ss))"
    "s_todo ss = []" "inner (s_reg ss) 1 = Some 0" "0 \<notin> s_gone ss" "s_sent ss 0 = [[7]]" "c_sent cs 0 = [[5, 6]]"
    using demo_deployed by blast
  let ?w = "\<lparr>w_up = tun_up, w_down = tun_down, w_conn = Some 0, w_task = Some 1\<rparr>"
  have "?w \<in> set (d_wires (demo_ends (cs, ss)))" "w_conn ?w = Some 0"
    "y_count (d_client (demo_ends (cs, ss))) \<le> 2 ^ 32"
    by (simp_all add: demo_ends_simps)
  moreover have "server_end ?w (d_server (demo_ends (cs, ss))) = Some ss"
    using demo_ends_simps(2) [of cs ss] by (simp add: server_end_def has_task_def)
  ultimately have "\<exists>read. prefix read (c_out cs) \<and> s_sent ss 0 = data_payloads 1 read"
    using deployment_lossless [OF d(1), of ?w 0 ss] d(2-4) by (fastforce simp: demo_ends_simps)
  with d show ?thesis by metis
qed

end
