(* ===== verification/Config.thy ===== *)
theory Config
  imports Host_Routing
begin

text \<open>
  Start-up of the two programs (\<open>client/src/main.rs\<close>, \<open>server/src/main.rs\<close>): the precedence of
  command line, configuration file and defaults, and the construction of the client's routing
  configuration. Parameters: the parsed command line (crate clap), the file system, and
  \<open>toml_client\<close>, \<open>toml_server\<close>, the TOML reader with the derived deserialisers, which give the
  section of the file (\<open>None\<close>: the text does not parse; \<open>Some None\<close>: no such section).
  \<open>Exit\<close> is \<open>std::process::exit(1)\<close>.
\<close>

datatype 'a main_result = Exit | Run 'a

text \<open>\<open>Option::or\<close> and \<open>Option::unwrap_or\<close>.\<close>

definition opt_or :: "'a option \<Rightarrow> 'a option \<Rightarrow> 'a option" where
  "opt_or a b = (case a of Some x \<Rightarrow> Some x | None \<Rightarrow> b)"

definition unwrap_or :: "'a option \<Rightarrow> 'a \<Rightarrow> 'a" where
  "unwrap_or a d = (case a of Some x \<Rightarrow> x | None \<Rightarrow> d)"

subsection \<open>The server\<close>

record server_section =
  ss_users :: "string list option"
  ss_host :: "string option"
  ss_port :: "u16 option"
  ss_log_level :: "string option"

definition server_section_default :: server_section where
  "server_section_default = \<lparr>ss_users = None, ss_host = None, ss_port = None,
     ss_log_level = None\<rparr>"

record server_cli =
  sc_config :: string
  sc_users :: "string list"
  sc_host :: "string option"
  sc_port :: "u16 option"

text \<open>The same function in both programs, up to the section it takes.\<close>

definition load_file_config ::
  "(string \<Rightarrow> string option) \<Rightarrow> (string \<Rightarrow> 'c option option) \<Rightarrow> 'c \<Rightarrow> string \<Rightarrow> 'c" where
  "load_file_config read_to_string toml dflt path =
     (case read_to_string path of
        None \<Rightarrow> dflt
      | Some s \<Rightarrow>
          (case toml s of
             Some (Some c) \<Rightarrow> c
           | _ \<Rightarrow> dflt))"

definition load_server_section ::
  "(string \<Rightarrow> string option) \<Rightarrow> (string \<Rightarrow> server_section option option) \<Rightarrow> string \<Rightarrow> server_section" where
  "load_server_section read_to_string toml_server path =
     load_file_config read_to_string toml_server server_section_default path"

definition host_port_addr :: "string \<Rightarrow> u16 \<Rightarrow> string" where
  "host_port_addr host port = host @ '':'' @ show_u16 port"

text \<open>The address to bind, the allowed users and the log level.\<close>

definition server_main ::
  "(string \<Rightarrow> string option) \<Rightarrow> (string \<Rightarrow> server_section option option) \<Rightarrow> server_cli
     \<Rightarrow> (string \<times> string list \<times> string) main_result" where
  "server_main read_to_string toml_server cli =
     (let file = load_server_section read_to_string toml_server (sc_config cli);
          users = (if sc_users cli \<noteq> [] then sc_users cli else unwrap_or (ss_users file) [])
      in if users = [] then Exit
         else
           let host = unwrap_or (opt_or (sc_host cli) (ss_host file)) ''127.0.0.1'';
               port = unwrap_or (opt_or (sc_port cli) (ss_port file)) 9001
           in Run (host_port_addr host port, users, unwrap_or (ss_log_level file) ''info''))"

subsection \<open>The client\<close>

definition DEFAULT_GEOIP_DAT :: string where "DEFAULT_GEOIP_DAT = ''geoip-only-cn-private.dat''"

definition DEFAULT_GEOSITE_DAT :: string where "DEFAULT_GEOSITE_DAT = ''dlc.dat''"

definition dat_path_or_default :: "(string \<Rightarrow> bool) \<Rightarrow> string option \<Rightarrow> string \<Rightarrow> (string \<times> bool) option" where
  "dat_path_or_default is_file configured default_path =
     (case configured of
        Some path \<Rightarrow> Some (path, True)
      | None \<Rightarrow> if is_file default_path then Some (default_path, False) else None)"

text \<open>
  The two matches of \<open>build_routing\<close> have the same shape: \<open>load\<close> is the loader on a path and
  tags, \<open>none\<close> the value without a file. \<open>None\<close> as a result is the exit.
\<close>

definition load_rules ::
  "(string \<Rightarrow> bool) \<Rightarrow> (string \<Rightarrow> string list \<Rightarrow> 'e + 'r) \<Rightarrow> ('r \<Rightarrow> 'v) \<Rightarrow> 'v \<Rightarrow> string
     \<Rightarrow> string option \<Rightarrow> string list option \<Rightarrow> 'v option" where
  "load_rules is_file load wrap none default_path dat tags =
     (case dat_path_or_default is_file dat default_path of
        None \<Rightarrow> Some none
      | Some (dat_path, required) \<Rightarrow>
          (case load dat_path (unwrap_or tags [''cn'', ''private'']) of
             Inr r \<Rightarrow> Some (wrap r)
           | Inl e \<Rightarrow> if required then None else Some none))"

definition build_routing ::
  "(string \<Rightarrow> string) \<Rightarrow> (string \<Rightarrow> bool) \<Rightarrow> (string \<Rightarrow> string list \<Rightarrow> geosite_error + 're geosite_matcher)
     \<Rightarrow> (string \<Rightarrow> string list \<Rightarrow> geoip_error + 'n list) \<Rightarrow> string list \<Rightarrow> string list
     \<Rightarrow> string option \<Rightarrow> string list option \<Rightarrow> string option \<Rightarrow> string list option
     \<Rightarrow> ('re, 'n) routing_config option" where
  "build_routing lo is_file load_geosite load_geoip proxy_patterns bypass_patterns
       geosite_dat geosite_tags geoip_dat geoip_tags =
     (let proxy = map (host_pattern_parse lo) proxy_patterns;
          bypass = map (host_pattern_parse lo) bypass_patterns
      in case load_rules is_file load_geosite Some None DEFAULT_GEOSITE_DAT geosite_dat geosite_tags of
           None \<Rightarrow> None
         | Some bypass_geosite \<Rightarrow>
             (case load_rules is_file load_geoip (\<lambda>cidrs. cidrs) [] DEFAULT_GEOIP_DAT geoip_dat geoip_tags of
                None \<Rightarrow> None
              | Some bypass_cidrs \<Rightarrow>
                  Some \<lparr>rc_proxy = proxy, rc_bypass = bypass, rc_geosite = bypass_geosite,
                    rc_cidrs = bypass_cidrs\<rparr>))"

record client_section =
  cs_endpoint :: "string option"
  cs_user :: "string option"
  cs_host :: "string option"
  cs_port :: "u16 option"
  cs_socks_host :: "string option"
  cs_socks_port :: "u16 option"
  cs_proxy :: "string list option"
  cs_bypass :: "string list option"
  cs_geoip_dat :: "string option"
  cs_geoip_tags :: "string list option"
  cs_geosite_dat :: "string option"
  cs_geosite_tags :: "string list option"
  cs_log_level :: "string option"

definition client_section_default :: client_section where
  "client_section_default = \<lparr>cs_endpoint = None, cs_user = None, cs_host = None, cs_port = None,
     cs_socks_host = None, cs_socks_port = None, cs_proxy = None, cs_bypass = None, cs_geoip_dat = None,
     cs_geoip_tags = None, cs_geosite_dat = None, cs_geosite_tags = None,
     cs_log_level = None\<rparr>"

record client_cli =
  cc_config :: string
  cc_endpoint :: "string option"
  cc_user :: "string option"
  cc_host :: "string option"
  cc_port :: "u16 option"
  cc_socks_host :: "string option"
  cc_socks_port :: "u16 option"

record ('re, 'n) client_settings =
  st_log_level :: string
  st_endpoint :: string
  st_user :: string
  st_http_addr :: string
  st_socks_addr :: "string option"
  st_routing :: "('re, 'n) routing_config"

text \<open>What the arguments of the program's environment are to \<open>main\<close>.\<close>

record ('re, 'n) client_world =
  w_read :: "string \<Rightarrow> string option"
  w_toml :: "string \<Rightarrow> client_section option option"
  w_lower :: "string \<Rightarrow> string"
  w_is_file :: "string \<Rightarrow> bool"
  w_geosite :: "string \<Rightarrow> string list \<Rightarrow> geosite_error + 're geosite_matcher"
  w_geoip :: "string \<Rightarrow> string list \<Rightarrow> geoip_error + 'n list"

definition client_main :: "('re, 'n) client_world \<Rightarrow> client_cli \<Rightarrow> ('re, 'n) client_settings main_result" where
  "client_main w cli =
     (let file = load_file_config (w_read w) (w_toml w) client_section_default (cc_config cli)
      in case opt_or (cc_endpoint cli) (cs_endpoint file) of
           None \<Rightarrow> Exit
         | Some endpoint \<Rightarrow>
             (case opt_or (cc_user cli) (cs_user file) of
                None \<Rightarrow> Exit
              | Some user \<Rightarrow>
                  let host = unwrap_or (opt_or (cc_host cli) (cs_host file)) ''127.0.0.1'';
                      port = unwrap_or (opt_or (cc_port cli) (cs_port file)) 9002;
                      socks_host = unwrap_or (opt_or (cc_socks_host cli) (cs_socks_host file)) host;
                      socks_port = opt_or (cc_socks_port cli) (cs_socks_port file)
                  in case build_routing (w_lower w) (w_is_file w) (w_geosite w) (w_geoip w)
                         (unwrap_or (cs_proxy file) []) (unwrap_or (cs_bypass file) [])
                         (cs_geosite_dat file) (cs_geosite_tags file)
                         (cs_geoip_dat file) (cs_geoip_tags file) of
                       None \<Rightarrow> Exit
                     | Some routing \<Rightarrow>
                         Run \<lparr>st_log_level = unwrap_or (cs_log_level file) ''info'', st_endpoint = endpoint, st_user = user,
                           st_http_addr = host_port_addr host port,
                           st_socks_addr = map_option (host_port_addr socks_host) socks_port,
                           st_routing = routing\<rparr>))"

subsection \<open>Facts\<close>

lemmas option_defs = opt_or_def unwrap_or_def

lemma load_rules_cases:
  "load_rules is_file load wrap none default_path dat tags =
     (case dat of
        Some path \<Rightarrow>
          (case load path (unwrap_or tags [''cn'', ''private'']) of Inr r \<Rightarrow> Some (wrap r) | Inl e \<Rightarrow> None)
      | None \<Rightarrow>
          Some (if is_file default_path
                then (case load default_path (unwrap_or tags [''cn'', ''private'']) of
                        Inr r \<Rightarrow> wrap r | Inl e \<Rightarrow> none)
                else none))"
  by (auto simp: load_rules_def dat_path_or_default_def split: option.split sum.split)

lemma load_rules_pred:
  assumes "load_rules is_file load wrap none default_path dat tags = Some v"
    and "P none" "\<And>path ts r. load path ts = Inr r \<Longrightarrow> P (wrap r)"
  shows "P v"
  using assms by (auto simp: load_rules_cases split: option.splits sum.splits if_splits)

text \<open>A loader whose matchers are well formed, such as \<open>load_geosite_dat\<close>.\<close>

definition loads_ok :: "(string \<Rightarrow> string list \<Rightarrow> geosite_error + 're geosite_matcher) \<Rightarrow> bool" where
  "loads_ok load \<longleftrightarrow> (\<forall>path tags m. load path tags = Inr m \<longrightarrow> list_all domain_rule_ok (domains m))"

lemma load_geosite_dat_ok:
  assumes "lower_contract lo"
  shows "loads_ok (load_geosite_dat read_file decode_geosite regex_new lo up)"
proof (unfold loads_ok_def, intro allI impI)
  fix path tags m
  assume "load_geosite_dat read_file decode_geosite regex_new lo up path tags = Inr m"
  then obtain es where "load_site_tags regex_new lo up es tags geosite_default = Inr m"
    by (auto simp: load_geosite_dat_def split: sum.splits)
  from load_site_tags_accepts [OF assms this] show "list_all domain_rule_ok (domains m)"
    by (simp add: geosite_default_def)
qed

lemma build_routing_ok:
  assumes "loads_ok load_geosite"
    and "build_routing lo is_file load_geosite load_geoip ps bs sd st ipd ipt = Some cfg"
  shows "geosite_ok cfg"
proof -
  from assms(2) obtain gs where gs:
    "load_rules is_file load_geosite Some None DEFAULT_GEOSITE_DAT sd st = Some gs" "rc_geosite cfg = gs"
    by (auto simp: build_routing_def split: option.splits)
  have "case gs of None \<Rightarrow> True | Some m \<Rightarrow> list_all domain_rule_ok (domains m)"
    using gs(1) by (rule load_rules_pred) (use assms(1) in \<open>auto simp: loads_ok_def\<close>)
  with gs(2) show ?thesis by (simp add: geosite_ok_def)
qed

lemma build_routing_exits_iff:
  "build_routing lo is_file load_geosite load_geoip ps bs sd stags ipd ipt = None \<longleftrightarrow>
     (\<exists>path e. sd = Some path \<and> load_geosite path (unwrap_or stags [''cn'', ''private'']) = Inl e) \<or>
     (\<exists>path e. ipd = Some path \<and> load_geoip path (unwrap_or ipt [''cn'', ''private'']) = Inl e)"
  by (auto simp: build_routing_def load_rules_cases split: option.split sum.split)

subsection \<open>Properties\<close>

text \<open>The client starts unless the endpoint or the user is missing from both command line and file,
  or a rule file that is named in the configuration cannot be loaded (a default rule file that
  fails to load is skipped). When it starts, every setting is the one of the command line if
  given, else that of the file, else the default: 127.0.0.1, port 9002, the SOCKS5 host that of
  HTTP, and SOCKS5 off without a port; an unreadable or malformed file counts as empty.\<close>

theorem client_main_settings:
  fixes w :: "('re, 'n) client_world"
  defines "file \<equiv> \<lambda>cli. load_file_config (w_read w) (w_toml w) client_section_default (cc_config cli)"
  shows "(client_main w cli = Exit \<longleftrightarrow>
      cc_endpoint cli = None \<and> cs_endpoint (file cli) = None \<or>
      cc_user cli = None \<and> cs_user (file cli) = None \<or>
      (\<exists>path e. cs_geosite_dat (file cli) = Some path \<and>
         w_geosite w path (unwrap_or (cs_geosite_tags (file cli)) [''cn'', ''private'']) = Inl e) \<or>
      (\<exists>path e. cs_geoip_dat (file cli) = Some path \<and>
         w_geoip w path (unwrap_or (cs_geoip_tags (file cli)) [''cn'', ''private'']) = Inl e)) \<and>
    (\<forall>st. client_main w cli = Run st \<longrightarrow>
      opt_or (cc_endpoint cli) (cs_endpoint (file cli)) = Some (st_endpoint st) \<and>
      opt_or (cc_user cli) (cs_user (file cli)) = Some (st_user st) \<and>
      (let host = unwrap_or (opt_or (cc_host cli) (cs_host (file cli))) ''127.0.0.1''
       in st_http_addr st = host_port_addr host (unwrap_or (opt_or (cc_port cli) (cs_port (file cli))) 9002) \<and>
          st_socks_addr st =
            map_option (host_port_addr (unwrap_or (opt_or (cc_socks_host cli) (cs_socks_host (file cli))) host))
              (opt_or (cc_socks_port cli) (cs_socks_port (file cli)))))"
  unfolding file_def
proof (intro conjI)
  let ?f = "load_file_config (w_read w) (w_toml w) client_section_default (cc_config cli)"
  show "client_main w cli = Exit \<longleftrightarrow>
      cc_endpoint cli = None \<and> cs_endpoint ?f = None \<or> cc_user cli = None \<and> cs_user ?f = None \<or>
      (\<exists>path e. cs_geosite_dat ?f = Some path \<and>
         w_geosite w path (unwrap_or (cs_geosite_tags ?f) [''cn'', ''private'']) = Inl e) \<or>
      (\<exists>path e. cs_geoip_dat ?f = Some path \<and>
         w_geoip w path (unwrap_or (cs_geoip_tags ?f) [''cn'', ''private'']) = Inl e)"
    unfolding client_main_def Let_def
    using build_routing_exits_iff [of "w_lower w" "w_is_file w" "w_geosite w" "w_geoip w"
        "unwrap_or (cs_proxy ?f) []" "unwrap_or (cs_bypass ?f) []" "cs_geosite_dat ?f" "cs_geosite_tags ?f"
        "cs_geoip_dat ?f" "cs_geoip_tags ?f"]
    by (auto simp: opt_or_def split: option.splits)
qed (auto simp: client_main_def Let_def split: option.splits)

definition demo_world :: "(string, bytes \<times> nat) client_world" where
  "demo_world = \<lparr>w_read = (\<lambda>_. None), w_toml = (\<lambda>_. None), w_lower = (\<lambda>_. []), w_is_file = (\<lambda>_. False),
     w_geosite = (\<lambda>_ _. Inl (SiteIo [])), w_geoip = (\<lambda>_ _. Inl (IpIo []))\<rparr>"

definition demo_cli :: client_cli where
  "demo_cli = \<lparr>cc_config = ''config.toml'', cc_endpoint = Some ''wss://e'', cc_user = Some ''u'', cc_host = None,
     cc_port = Some 8000, cc_socks_host = None, cc_socks_port = None\<rparr>"

theorem client_main_settings_witness:
  "\<exists>st. client_main demo_world demo_cli = Run st \<and> st_endpoint st = ''wss://e'' \<and>
     st_http_addr st = host_port_addr ''127.0.0.1'' 8000 \<and> st_socks_addr st = None"
proof -
  have "client_main demo_world demo_cli \<noteq> Exit"
    using client_main_settings [of demo_world demo_cli]
    by (simp add: demo_world_def demo_cli_def load_file_config_def client_section_default_def)
  then obtain st where st: "client_main demo_world demo_cli = Run st"
    by (cases "client_main demo_world demo_cli") auto
  with client_main_settings [of demo_world demo_cli] show ?thesis
    by (auto simp: demo_world_def demo_cli_def load_file_config_def client_section_default_def option_defs)
qed

text \<open>With the routing configuration that the client builds at start-up, whatever files and rules it
  is given, the routing decision never panics.\<close>

theorem started_client_routes_all:
  assumes "lower_contract lo"
    and "w_geosite w = load_geosite_dat read_file decode_geosite regex_new lo up"
    and "client_main w cli = Run st"
  shows "should_bypass lo is_match net_contains (st_routing st) host port \<noteq> None"
proof -
  have "loads_ok (w_geosite w)" unfolding assms(2) using assms(1) by (rule load_geosite_dat_ok)
  then have "geosite_ok (st_routing st)"
    using assms(3) by (auto simp: client_main_def Let_def split: option.splits intro: build_routing_ok)
  then show ?thesis by (simp add: should_bypass_total)
qed

definition site_world :: "(string, bytes \<times> nat) client_world" where
  "site_world = demo_world\<lparr>w_is_file := (\<lambda>p. p = DEFAULT_GEOSITE_DAT),
     w_geosite := load_geosite_dat (\<lambda>_. Inr []) (\<lambda>_. Inr demo_sites) no_regex (\<lambda>_. []) (\<lambda>_. [])\<rparr>"

theorem started_client_routes_all_witness:
  "\<exists>st. client_main site_world demo_cli = Run st \<and>
     should_bypass (\<lambda>_. []) (\<lambda>_ _. False) pair_contains (st_routing st) ''a.foo.com'' 80 \<noteq> None"
proof -
  obtain st where st: "client_main site_world demo_cli = Run st"
    by (auto simp: client_main_def site_world_def demo_world_def demo_cli_def load_file_config_def
        client_section_default_def option_defs build_routing_def load_rules_cases
        split: sum.split)
  moreover have "lower_contract (\<lambda>_. [])" by (simp add: lower_contract_def starts_char_def)
  ultimately show ?thesis
    using started_client_routes_all [of "\<lambda>_. []" site_world "\<lambda>_. Inr []" "\<lambda>_. Inr demo_sites" no_regex "\<lambda>_. []" demo_cli]
    by (auto simp: site_world_def)
qed

end
