(* ===== verification/Programs.thy ===== *)
theory Programs
  imports Config Client_System Server_Shutdown
begin

text \<open>
  The two programs from \<open>main\<close> on (\<open>server/src/main.rs\<close>, \<open>client/src/main.rs\<close>): the settings of
  \<open>Config\<close>, the sockets that are bound, and the system that runs then, \<open>server_step\<close> or
  \<open>sys_step\<close>. \<open>bind\<close> tells for an address whether \<open>TcpListener::bind\<close> succeeds. Both programs keep
  the sender of their shutdown channel and never use it.
\<close>

subsection \<open>Start\<close>

datatype 'p launch = Exited | Panicked | Started 'p

text \<open>\<open>crates\<close> holds the functions of the crates semver and uuid; the users are those of \<open>main\<close>.\<close>

definition server_program ::
  "(string \<Rightarrow> string option) \<Rightarrow> (string \<Rightarrow> server_section option option) \<Rightarrow> (string \<Rightarrow> bool) \<Rightarrow>
   ('v, 'u) server_env \<Rightarrow> server_cli \<Rightarrow> (('v, 'u) server_env \<times> 'u server_sys) launch" where
  "server_program read_to_string toml_server bind crates cli =
     (case server_main read_to_string toml_server cli of
        Exit \<Rightarrow> Exited
      | Run (addr, users, log_level) \<Rightarrow>
          if bind addr then Started (crates\<lparr>e_users := users\<rparr>, server_start) else Panicked)"

definition client_program ::
  "('re, 'n) client_world \<Rightarrow> (string \<Rightarrow> bool) \<Rightarrow> client_cli \<Rightarrow>
   (('re, 'n) client_settings \<times> client_sys) launch" where
  "client_program w bind cli =
     (case client_main w cli of
        Exit \<Rightarrow> Exited
      | Run st \<Rightarrow>
          if \<not> bind (st_http_addr st) then Panicked
          else
            (case st_socks_addr st of
               None \<Rightarrow> Started (st, sys_init False)
             | Some addr \<Rightarrow> if bind addr then Started (st, sys_init True) else Panicked))"

text \<open>What the process does in a state of the server: \<open>serve(..).await.unwrap()\<close> panics on an error.\<close>

datatype process = Running | Ended | Crashed

definition server_process :: "'u server_sys \<Rightarrow> process" where
  "server_process y =
     (case v_result y of None \<Rightarrow> Running | Some True \<Rightarrow> Ended | Some False \<Rightarrow> Crashed)"

text \<open>The proxy without reconnection uses the default routing: the routing, and the run.\<close>

definition run_proxy ::
  "bool \<Rightarrow> bool \<Rightarrow> string \<Rightarrow> 's accept_event list \<Rightarrow>
   ('re, 'n) routing_config \<times> ws_message list \<times> (u32 \<times> 's) list \<times> bool option" where
  "run_proxy connects hello_ok token events =
     (routing_default, run_proxy_with_routing connects hello_ok token events)"

lemma run_proxy_tunnels_all:
  "should_bypass lo is_match net_contains (fst (run_proxy connects hello_ok token events)) host port = Some False"
  by (simp add: run_proxy_def should_bypass_def routing_default_def split: option.split)

subsection \<open>Facts\<close>

lemma server_program_started:
  assumes "server_program read_to_string toml_server bind crates cli = Started (env, y)"
  shows "y = server_start"
    and "\<exists>addr log_level. server_main read_to_string toml_server cli = Run (addr, e_users env, log_level) \<and>
      env = crates\<lparr>e_users := e_users env\<rparr>"
  using assms by (auto simp: server_program_def split: main_result.splits if_splits)

text \<open>The SOCKS5 loop runs exactly when the command line or the file names a port for it.\<close>

lemma client_program_started:
  assumes "client_program w bind cli = Started (st, y)"
  shows "client_main w cli = Run st" and "sys_reachable (y_socks y) y"
    and "bind (st_http_addr st) \<and> (\<forall>addr. st_socks_addr st = Some addr \<longrightarrow> bind addr)"
    and "y_socks y \<longleftrightarrow> st_socks_addr st \<noteq> None"
  using assms
  by (auto simp: client_program_def sys_init_def split: main_result.splits if_splits option.splits
      intro: sys_reachable.start [unfolded sys_init_def])

lemma issued_to:
  "u \<in> set (tokens_issued vp rm users cs) \<Longrightarrow>
     \<exists>first. ControlConn u first \<in> set cs \<and> control_accepts vp rm users first"
  by (auto simp: tokens_issued_def split: srv_conn.splits if_splits)

subsection \<open>Properties\<close>

text \<open>C10: a server that was started from its command line and configuration file admits configured users
  only: whenever a mux session runs, the control handshake that issued its token was one with a
  supported version and a user of \<open>--users\<close> or, without that option, of the file.\<close>

theorem server_admits_configured_users:
  assumes "server_program read_to_string toml_server bind crates cli = Started (env, y0)"
    and "server_reachable env y" and "t \<in> set (v_conns y)" and "session_of t = Some (u, s)"
  shows "\<exists>version user v.
     ControlConn u (Some (Some (WsText (''Hello:'' @ version @ '':'' @ user)))) \<in> set (v_auth y) \<and>
     e_version_parse crates version = Some v \<and> e_req_matches crates SUPPORTED_VERSION v \<and>
     user \<in> set (if sc_users cli \<noteq> [] then sc_users cli
       else unwrap_or (ss_users (load_server_section read_to_string toml_server (sc_config cli))) [])"
proof -
  obtain addr log_level where m: "server_main read_to_string toml_server cli = Run (addr, e_users env, log_level)"
    and env: "env = crates\<lparr>e_users := e_users env\<rparr>"
    using server_program_started [OF assms(1)] by blast
  have users: "e_users env = (if sc_users cli \<noteq> [] then sc_users cli
       else unwrap_or (ss_users (load_server_section read_to_string toml_server (sc_config cli))) [])"
    using m by (auto simp: server_main_def Let_def split: if_splits)
  have crates: "e_version_parse env = e_version_parse crates" "e_req_matches env = e_req_matches crates"
    by (subst env, simp)+
  obtain first where "ControlConn u first \<in> set (v_auth y)"
    "control_accepts (e_version_parse env) (e_req_matches env) (e_users env) first"
    using issued_to [OF session_token_issued [OF assms(2-4), THEN conjunct2]] by blast
  then show ?thesis unfolding control_accepts_def users crates by blast
qed

definition demo_server_cli :: server_cli where
  "demo_server_cli = \<lparr>sc_config = ''config.toml'', sc_users = [''u''], sc_host = None, sc_port = None\<rparr>"

lemma demo_server_program:
  "server_program (\<lambda>_. None) (\<lambda>_. None) (\<lambda>_. True) demo_env demo_server_cli = Started (demo_env, server_start)"
  by (simp add: server_program_def server_main_def demo_server_cli_def Let_def demo_env_def)

theorem server_admits_configured_users_witness:
  "\<exists>s version user. session_of (MuxSession ''t'' s) = Some (''t'', s) \<and>
     ControlConn ''t'' (Some (Some (WsText (''Hello:'' @ version @ '':'' @ user)))) \<in> set (v_auth (demo_sys s)) \<and>
     user \<in> set [''u'']"
proof -
  obtain s where s: "srv_reachable demo_items s" using demo_run by blast
  have "MuxSession ''t'' s \<in> set (v_conns (demo_sys s))" by (simp add: demo_sys_def)
  from server_admits_configured_users [OF demo_server_program demo_server_session [OF s] this, of "''t''" s]
  show ?thesis by (auto simp: demo_server_cli_def)
qed

text \<open>The server program never comes to a normal end: nothing is ever sent into its shutdown channel,
  which stays open, so it runs, and nothing of it is stopped, until an error of the listener
  makes it panic.\<close>

lemma server_program_never_ends:
  assumes "server_reachable env y" "v_sends y = 0" "\<not> sd_closed (v_shut y)"
  shows "server_process y \<noteq> Ended \<and> (\<forall>t \<in> set (v_conns y). \<not> shut_down t)"
proof -
  have "stopped_count y = 0"
    using shut.all_taken [OF _ assms(3)] server_reachable_shutdown [OF assms(1)] assms(2)
    by (force simp: shutdown_inv_def)
  then show ?thesis
    by (auto simp: stopped_count_def tasks_with_def filter_empty_conv server_process_def split: option.split)
qed

lemma accept_error_crashes:
  assumes "v_result y = None"
  shows "\<exists>z. server_step env y z \<and> server_process z = Crashed \<and> v_conns z = v_conns y"
  using server_step.accept_err [OF assms, of env]
  by (intro exI [of _ "y\<lparr>v_result := Some False, v_events := v_events y @ [AcceptErr]\<rparr>"])
     (simp add: server_process_def)

end
