(* ===== verification/Keeper_Progress.thy ===== *)
theory Keeper_Progress
  imports Mux_Keeper
begin

text \<open>
  Progress of the keeper (\<open>run_mux_keeper\<close>): how far it is from a published connection while the
  server answers, how far from its end after a stop signal, and the one loop in which it makes
  no progress towards either.
\<close>

subsection \<open>Towards a connection\<close>

text \<open>The events of a server that is available.\<close>

fun server_up :: "keeper_event \<Rightarrow> bool" where
  "server_up (TokenRes (Some t)) = True"
| "server_up (ConnectRes ok) = ok"
| "server_up (HelloRes ok) = ok"
| "server_up SleepDone = True"
| "server_up _ = False"

fun connect_distance :: "keeper_phase \<Rightarrow> nat" where
  "connect_distance Connected = 0"
| "connect_distance (SendingHello t) = 1"
| "connect_distance (Connecting t) = 2"
| "connect_distance GetToken = 3"
| "connect_distance SleepToken = 4"
| "connect_distance SleepConnect = 4"
| "connect_distance Stopped = 5"

lemma server_up_step:
  assumes "keeper_step p e k = Some k'" "server_up e"
  shows "connect_distance p = Suc (connect_distance (k_phase k')) \<and> k_phase k' \<noteq> Stopped"
  using assms by (elim keeper_stepE) auto

lemma server_up_awaited:
  assumes "p \<noteq> Connected" "p \<noteq> Stopped"
  shows "\<exists>e k'. server_up e \<and> keeper_step p e k = Some k'"
proof (cases p)
  case (Connecting t)
  then show ?thesis by (intro exI [of _ "ConnectRes True"]) simp
next
  case (SendingHello t)
  then show ?thesis by (intro exI [of _ "HelloRes True"]) simp
next
  case GetToken
  then show ?thesis by (intro exI [of _ "TokenRes (Some [])"]) simp
qed (use assms in \<open>auto intro!: exI [of _ SleepDone]\<close>)

lemma server_up_run:
  "keeper_run es k = Some k' \<Longrightarrow> list_all server_up es \<Longrightarrow> k_phase k \<noteq> Stopped \<Longrightarrow>
     connect_distance (k_phase k) = length es + connect_distance (k_phase k') \<and> k_phase k' \<noteq> Stopped"
proof (induction es arbitrary: k)
  case (Cons e es)
  then obtain k1 where k1: "keeper_step (k_phase k) e k = Some k1" "keeper_run es k1 = Some k'"
    by (auto split: option.splits)
  with Cons server_up_step [OF k1(1)] show ?case by simp
qed simp

lemma server_up_reaches:
  assumes "k_phase k \<noteq> Stopped"
  shows "\<exists>es k'. list_all server_up es \<and> keeper_run es k = Some k' \<and> k_phase k' = Connected"
  using assms
proof (induction "connect_distance (k_phase k)" arbitrary: k)
  case 0
  then have "k_phase k = Connected" by (cases "k_phase k") auto
  then show ?case by (intro exI [of _ "[]"]) simp
next
  case (Suc n)
  then have "k_phase k \<noteq> Connected" by auto
  then obtain e k1 where e: "server_up e" "keeper_step (k_phase k) e k = Some k1"
    using server_up_awaited Suc.prems by blast
  with server_up_step [OF e(2,1)] Suc obtain es k' where
    "list_all server_up es" "keeper_run es k1 = Some k'" "k_phase k' = Connected"
    by (metis Suc_inject)
  with e show ?case by (intro exI [of _ "e # es"]) simp
qed

lemma connected_distance: "connect_distance p = 0 \<longleftrightarrow> p = Connected"
  by (cases p) auto

subsection \<open>Towards the end\<close>

text \<open>
  The events after a stop signal when HELLO can be sent: where the task selects on the signal,
  it takes it.
\<close>

fun stop_ready :: "keeper_phase \<Rightarrow> keeper_event \<Rightarrow> bool" where
  "stop_ready SleepToken e = (e = StopRecv)"
| "stop_ready SleepConnect e = (e = StopRecv)"
| "stop_ready Connected e = (e = StopRecv)"
| "stop_ready p e = (e \<noteq> HelloRes False)"

fun stop_distance :: "keeper_phase \<Rightarrow> nat" where
  "stop_distance Stopped = 0"
| "stop_distance SleepToken = 1"
| "stop_distance SleepConnect = 1"
| "stop_distance Connected = 1"
| "stop_distance (SendingHello t) = 2"
| "stop_distance (Connecting t) = 3"
| "stop_distance GetToken = 4"

inductive stop_run :: "keeper \<Rightarrow> keeper_event list \<Rightarrow> keeper \<Rightarrow> bool" where
  nil: "stop_run k [] k"
| cons: "stop_ready (k_phase k) e \<Longrightarrow> keeper_step (k_phase k) e k = Some k1 \<Longrightarrow> stop_run k1 es k' \<Longrightarrow>
     stop_run k (e # es) k'"

lemma stop_ready_step:
  assumes "keeper_step p e k = Some k'" "stop_ready p e"
  shows "stop_distance (k_phase k') < stop_distance p"
  using assms by (elim keeper_stepE) auto

lemma stop_run_length: "stop_run k es k' \<Longrightarrow> length es + stop_distance (k_phase k') \<le> stop_distance (k_phase k)"
proof (induction rule: stop_run.induct)
  case (cons k e k1 es k')
  then show ?case using stop_ready_step [OF cons(2,1)] by simp
qed simp

lemma stop_awaited:
  assumes "p \<noteq> Stopped"
  shows "\<exists>e k'. stop_ready p e \<and> keeper_step p e k = Some k'"
proof (cases p)
  case (Connecting t)
  then show ?thesis by (intro exI [of _ "ConnectRes True"]) simp
next
  case (SendingHello t)
  then show ?thesis by (intro exI [of _ "HelloRes True"]) simp
next
  case GetToken
  then show ?thesis by (intro exI [of _ "TokenRes None"]) simp
qed (use assms in \<open>auto intro!: exI [of _ StopRecv]\<close>)

lemma stop_run_ends: "\<exists>es k'. stop_run k es k' \<and> k_phase k' = Stopped"
proof (induction "stop_distance (k_phase k)" arbitrary: k rule: less_induct)
  case less
  show ?case
  proof (cases "k_phase k = Stopped")
    case True
    then show ?thesis by (blast intro: stop_run.nil)
  next
    case False
    then obtain e k1 where e: "stop_ready (k_phase k) e" "keeper_step (k_phase k) e k = Some k1"
      using stop_awaited by blast
    then obtain es k' where "stop_run k1 es k'" "k_phase k' = Stopped"
      using less stop_ready_step [OF e(2,1)] by blast
    with e show ?thesis by (blast intro: stop_run.cons)
  qed
qed

subsection \<open>The loop without progress\<close>

text \<open>The events of a server whose mux endpoint accepts connections and breaks them at once.\<close>

fun hello_failure :: "keeper_event \<Rightarrow> bool" where
  "hello_failure (TokenRes (Some t)) = True"
| "hello_failure (ConnectRes ok) = ok"
| "hello_failure (HelloRes ok) = (\<not> ok)"
| "hello_failure _ = False"

fun busy :: "keeper_phase \<Rightarrow> bool" where
  "busy GetToken = True"
| "busy (Connecting t) = True"
| "busy (SendingHello t) = True"
| "busy _ = False"

lemma hello_failure_step:
  assumes "keeper_step p e k = Some k'" "hello_failure e" "busy p"
  shows "busy (k_phase k') \<and> k_sleeps k' = k_sleeps k \<and> k_shared k' = k_shared k"
  using assms by (elim keeper_stepE) auto

lemma hello_failure_run:
  "keeper_run es k = Some k' \<Longrightarrow> list_all hello_failure es \<Longrightarrow> busy (k_phase k) \<Longrightarrow>
     busy (k_phase k') \<and> k_sleeps k' = k_sleeps k \<and> k_shared k' = k_shared k"
proof (induction es arbitrary: k)
  case (Cons e es)
  then obtain k1 where k1: "keeper_step (k_phase k) e k = Some k1" "keeper_run es k1 = Some k'"
    by (auto split: option.splits)
  with Cons hello_failure_step [OF k1(1)] show ?case by simp
qed simp

lemma busy_ignores_stop: "busy p \<Longrightarrow> keeper_step p StopRecv k = None \<and> keeper_step p SleepDone k = None"
  by (cases p) auto

definition hello_failures :: "nat \<Rightarrow> keeper_event list" where
  "hello_failures n = concat (replicate n [TokenRes (Some ''t''), ConnectRes True, HelloRes False])"

lemma hello_failures_run: "k_phase k = GetToken \<Longrightarrow> \<exists>k'. keeper_run (hello_failures n) k = Some k'"
proof (induction n arbitrary: k)
  case (Suc n)
  let ?k = "k\<lparr>k_backoff := RECONNECT_INITIAL_MS, k_tokens := k_tokens k @ [''t''], k_phase := GetToken\<rparr>"
  have "keeper_run (hello_failures (Suc n)) k = keeper_run (hello_failures n) ?k"
    using Suc.prems by (simp add: hello_failures_def)
  with Suc.IH [of ?k] show ?case by simp
qed (simp add: hello_failures_def)

lemma hello_failures_kind: "list_all hello_failure (hello_failures n)" "length (hello_failures n) = 3 * n"
  by (induction n) (simp_all add: hello_failures_def)

subsection \<open>Properties\<close>

text \<open>C26: the keeper recovers: from every state but its end, a published connection is reachable through
  answers of an available server, and it cannot be missed: while all that happens are such
  answers and ends of sleeps, each one brings it a step nearer, so after at most four of them
  it is connected.\<close>

theorem keeper_recovers:
  assumes "k_phase k \<noteq> Stopped"
  shows "(\<exists>es k'. list_all server_up es \<and> keeper_run es k = Some k' \<and> k_phase k' = Connected) \<and>
     (\<forall>es k'. list_all server_up es \<and> keeper_run es k = Some k' \<longrightarrow>
        length es \<le> 4 \<and> (k_phase k' = Connected \<longleftrightarrow> length es = connect_distance (k_phase k)))"
proof (intro conjI allI impI)
  show "\<exists>es k'. list_all server_up es \<and> keeper_run es k = Some k' \<and> k_phase k' = Connected"
    using assms by (rule server_up_reaches)
next
  fix es k' assume run: "list_all server_up es \<and> keeper_run es k = Some k'"
  then have dist: "connect_distance (k_phase k) = length es + connect_distance (k_phase k')"
    using server_up_run assms by blast
  moreover have "connect_distance (k_phase k) \<le> 4" using assms by (cases "k_phase k") auto
  ultimately show "length es \<le> 4" by simp
  show "k_phase k' = Connected \<longleftrightarrow> length es = connect_distance (k_phase k)"
    using dist connected_distance [of "k_phase k'"] by auto
qed

theorem keeper_recovers_witness:
  "(\<exists>es k'. list_all server_up es \<and> keeper_run es keeper_init = Some k' \<and> k_phase k' = Connected) \<and>
     length [TokenRes (Some ''t''), ConnectRes True, HelloRes True] = connect_distance (k_phase keeper_init)"
  using keeper_recovers [of keeper_init] by (simp add: keeper_init_def)

text \<open>C27: after a stop signal the keeper ends: whatever the server answers, as long as HELLO can be sent,
  every run in which the task takes the signal where it waits for it has at most four events,
  and one that cannot go on has ended the task.\<close>

theorem keeper_stops:
  assumes "stop_run k es k'"
  shows "length es \<le> 4 \<and>
     (k_phase k' = Stopped \<or> (\<exists>e k2. stop_ready (k_phase k') e \<and> keeper_step (k_phase k') e k' = Some k2)) \<and>
     (\<exists>es' k2. stop_run k' es' k2 \<and> k_phase k2 = Stopped)"
proof (intro conjI)
  have "stop_distance (k_phase k) \<le> 4" by (cases "k_phase k") auto
  then show "length es \<le> 4" using stop_run_length [OF assms] by simp
  show "k_phase k' = Stopped \<or> (\<exists>e k2. stop_ready (k_phase k') e \<and> keeper_step (k_phase k') e k' = Some k2)"
    using stop_awaited by blast
qed (rule stop_run_ends)

theorem keeper_stops_witness:
  "length [TokenRes None, StopRecv] \<le> 4 \<and> (\<exists>k'. stop_run keeper_init [TokenRes None, StopRecv] k')"
proof -
  let ?k1 = "keeper_init\<lparr>k_phase := SleepToken, k_sleeps := [500]\<rparr>"
  have "stop_run ?k1 [StopRecv] (?k1\<lparr>k_phase := Stopped\<rparr>)"
    by (rule stop_run.cons [OF _ _ stop_run.nil]) simp_all
  then have "stop_run keeper_init [TokenRes None, StopRecv] (?k1\<lparr>k_phase := Stopped\<rparr>)"
    by (rule stop_run.cons [rotated 2]) (simp_all add: keeper_init_def RECONNECT_INITIAL_MS_def)
  with keeper_stops [OF this] show ?thesis by blast
qed

text \<open>While HELLO cannot be sent the keeper neither sleeps nor sees the stop signal: there are runs of
  any length, and in no state of any such run does it wait for a delay or for the signal.\<close>

theorem keeper_hello_loop_ignores_stop:
  assumes "k_phase k = GetToken"
  shows "(\<exists>es k'. list_all hello_failure es \<and> length es = 3 * n \<and> keeper_run es k = Some k') \<and>
     (\<forall>es k'. list_all hello_failure es \<and> keeper_run es k = Some k' \<longrightarrow>
        k_sleeps k' = k_sleeps k \<and> keeper_step (k_phase k') StopRecv k' = None \<and>
        keeper_step (k_phase k') SleepDone k' = None)"
  using hello_failures_run [OF assms, of n] hello_failures_kind [of n] hello_failure_run [of _ k]
    busy_ignores_stop assms
  by (metis busy.simps(1))

theorem keeper_hello_loop_ignores_stop_witness:
  "\<exists>k'. keeper_run (hello_failures 2) keeper_init = Some k' \<and> k_sleeps k' = [] \<and>
     keeper_step (k_phase k') StopRecv k' = None"
  using keeper_hello_loop_ignores_stop [of keeper_init 2] hello_failures_run [of keeper_init 2]
    hello_failures_kind(1) [of 2]
  by (auto simp: keeper_init_def)

end
