(* ===== verification/Host_Codec.thy ===== *)
theory Host_Codec
  imports Rust_Str
begin

text \<open>
  The deprecated host encoding of \<open>core-lib/src/lib.rs\<close>: base64 with one random character
  inserted at 0.618 of its length. Parameters: \<open>b64_encode\<close> and \<open>b64_decode\<close> are the crate
  base64, with the contract \<open>b64_contract\<close>; the random number that picks the character is an
  argument. \<open>None\<close> is a panic.
\<close>

subsection \<open>The position, in binary floating point\<close>

text \<open>
  The \<open>f64\<close> nearest to 0.618 is \<open>MANTISSA_0618 / 2^53\<close>. A product of non-negative \<open>f64\<close> values is
  rounded to 53 significant bits, ties to even; \<open>round53 p\<close> does this for an integer \<open>p\<close>.
\<close>

definition MANTISSA_0618 :: nat where "MANTISSA_0618 = 5566449139429933"

fun bit_len :: "nat \<Rightarrow> nat" where
  "bit_len n = (if n = 0 then 0 else Suc (bit_len (n div 2)))"

declare bit_len.simps [simp del]

definition round53 :: "nat \<Rightarrow> nat" where
  "round53 p =
     (let s = bit_len p - 53; q = p div 2 ^ s; r = p mod 2 ^ s
      in (if 2 ^ s < 2 * r \<or> (2 * r = 2 ^ s \<and> odd q) then Suc q else q) * 2 ^ s)"

text \<open>\<open>(len as f64 * 0.618).floor() as usize\<close>, for lengths below \<open>2^53\<close>, which \<open>f64\<close> represents.\<close>

definition golden_index :: "nat \<Rightarrow> nat" where
  "golden_index len = round53 (len * MANTISSA_0618) div 2 ^ 53"

subsection \<open>Encoding and decoding\<close>

definition charset :: string where
  "charset = ''ABCDEFGHIJKLMNOPQRSTUVWXYZabcdefghijklmnopqrstuvwxyz0123456789''"

text \<open>\<open>String::insert\<close> and \<open>String::remove\<close> on ASCII text: a panic when the index is out of range.\<close>

definition insert_at :: "nat \<Rightarrow> char \<Rightarrow> string \<Rightarrow> string option" where
  "insert_at i c s = (if i \<le> length s then Some (take i s @ [c] @ drop i s) else None)"

definition remove_at :: "nat \<Rightarrow> string \<Rightarrow> string option" where
  "remove_at i s = (if i < length s then Some (take i s @ drop (Suc i) s) else None)"

definition encode_host :: "(bytes \<Rightarrow> string) \<Rightarrow> nat \<Rightarrow> string \<Rightarrow> string option" where
  "encode_host b64_encode i host =
     (let encoded = b64_encode (as_bytes host);
          idx = golden_index (length encoded);
          c = charset ! i
      in insert_at idx c encoded)"

definition decode_host :: "(string \<Rightarrow> bytes option) \<Rightarrow> string \<Rightarrow> string option" where
  "decode_host b64_decode s =
     (if s = [] then None
      else
        (case remove_at (golden_index (length s - 1)) s of
           None \<Rightarrow> None
         | Some t \<Rightarrow>
             (case b64_decode t of
                None \<Rightarrow> None
              | Some bytes \<Rightarrow> from_utf8 bytes)))"

definition b64_contract :: "(bytes \<Rightarrow> string) \<Rightarrow> (string \<Rightarrow> bytes option) \<Rightarrow> bool" where
  "b64_contract b64_encode b64_decode \<longleftrightarrow>
     (\<forall>bs. b64_decode (b64_encode bs) = Some bs \<and> is_ascii (b64_encode bs))"

subsection \<open>The position is in range\<close>

lemma bit_len_le: "p < 2 ^ n \<Longrightarrow> bit_len p \<le> n"
proof (induction p arbitrary: n rule: bit_len.induct)
  case (1 p)
  show ?case
  proof (cases "p = 0")
    case False
    with "1.prems" obtain m where m: "n = Suc m" by (cases n) auto
    with "1.prems" have "p div 2 < 2 ^ m" by auto
    with 1 False m show ?thesis by (simp add: bit_len.simps [of p])
  qed (simp add: bit_len.simps)
qed

lemma round53_le:
  assumes "p \<le> n * 2 ^ 53" "n < 2 ^ 53"
  shows "round53 p \<le> n * 2 ^ 53"
proof -
  define s q r where sqr: "s = bit_len p - 53" "q = p div 2 ^ s" "r = p mod 2 ^ s"
  have "n * 2 ^ 53 < 2 ^ 53 * 2 ^ 53" using assms(2) by simp
  then have "p < 2 ^ 106" using assms(1) by simp
  then have s: "s \<le> 53" using bit_len_le [of p 106] by (simp add: sqr)
  define X where "X = n * 2 ^ (53 - s)"
  have "(2::nat) ^ 53 = 2 ^ (53 - s) * 2 ^ s" using s by (simp flip: power_add)
  then have X: "n * 2 ^ 53 = X * 2 ^ s" by (simp add: X_def)
  have p: "p = q * 2 ^ s + r" unfolding sqr by (rule div_mult_mod_eq [symmetric])
  have "q \<le> X"
    using assms(1) unfolding X sqr by (metis div_le_mono nonzero_mult_div_cancel_right power_not_zero zero_neq_numeral)
  moreover have "Suc q \<le> X" if "0 < r"
  proof -
    have "q * 2 ^ s < q * 2 ^ s + r" using that by simp
    also have "\<dots> \<le> X * 2 ^ s" using p assms(1) X by metis
    finally show ?thesis by simp
  qed
  ultimately have "(if 2 ^ s < 2 * r \<or> (2 * r = 2 ^ s \<and> odd q) then Suc q else q) \<le> X"
    by (cases "r = 0") auto
  then show ?thesis
    unfolding round53_def Let_def X sqr by (rule mult_le_mono1)
qed

lemma golden_index_le:
  assumes "n < 2 ^ 53"
  shows "golden_index n \<le> n"
proof -
  have "n * MANTISSA_0618 \<le> n * 2 ^ 53" by (simp add: MANTISSA_0618_def)
  from round53_le [OF this assms] have "golden_index n \<le> n * 2 ^ 53 div 2 ^ 53"
    unfolding golden_index_def by (rule div_le_mono)
  then show ?thesis by simp
qed

lemma remove_insert: "insert_at i c s = Some t \<Longrightarrow> remove_at i t = Some s \<and> length t = Suc (length s)"
  by (auto simp: insert_at_def remove_at_def split: if_splits)

subsection \<open>Properties\<close>

text \<open>Given the contract of the base64 crate, encoding a host never panics, whichever character of
  the set is inserted, and decoding the result gives the host back.\<close>

theorem host_codec_roundtrip:
  assumes "b64_contract b64_encode b64_decode" and "valid_str host"
    and "length (b64_encode (as_bytes host)) < 2 ^ 53"
  shows "\<exists>t. encode_host b64_encode i host = Some t \<and> decode_host b64_decode t = Some host"
proof -
  let ?e = "b64_encode (as_bytes host)"
  obtain t where t: "insert_at (golden_index (length ?e)) (charset ! i) ?e = Some t"
    using golden_index_le [OF assms(3)] by (simp add: insert_at_def)
  from remove_insert [OF t] have "remove_at (golden_index (length t - 1)) t = Some ?e" "t \<noteq> []" by auto
  then have "decode_host b64_decode t = Some host"
    using assms(1,2) by (simp add: decode_host_def b64_contract_def from_utf8_as_bytes)
  with t show ?thesis by (simp add: encode_host_def)
qed

text \<open>Hexadecimal in place of base64 meets the contract.\<close>

fun hex_encode :: "bytes \<Rightarrow> string" where
  "hex_encode [] = []"
| "hex_encode (b # bs) = digit_char (unat b div 16) # digit_char (unat b mod 16) # hex_encode bs"

fun nibble :: "char \<Rightarrow> nat" where
  "nibble c = (let n = of_char c in if n < 58 then n - 48 else n - 87)"

fun hex_decode :: "string \<Rightarrow> bytes option" where
  "hex_decode [] = Some []"
| "hex_decode (a # b # s) = map_option (\<lambda>bs. of_nat (16 * nibble a + nibble b) # bs) (hex_decode s)"
| "hex_decode _ = None"

lemma nibble_digit: "d < 16 \<Longrightarrow> nibble (digit_char d) = d"
  by (simp add: of_char_digit_char)

lemma hex_contract: "b64_contract hex_encode hex_decode"
proof -
  have "hex_decode (hex_encode bs) = Some bs \<and> is_ascii (hex_encode bs)" for bs
  proof (induction bs)
    case (Cons b bs)
    have "unat b div 16 < 16" "unat b mod 16 < 16" using u8_less [of b] by auto
    moreover have "is_ascii [digit_char d]" if "d < 16" for d
      using that by (simp add: of_char_digit_char)
    ultimately show ?case
      using Cons by (simp add: nibble_digit del: nibble.simps)
  qed simp
  then show ?thesis by (simp add: b64_contract_def)
qed

theorem host_codec_roundtrip_witness:
  "\<exists>t. encode_host hex_encode 0 ''a.b:80'' = Some t \<and> decode_host hex_decode t = Some ''a.b:80''"
  by (rule host_codec_roundtrip [OF hex_contract]) (simp_all add: ascii_valid_str as_bytes_def)

end
