(* ===== verification/Read_Ahead.thy ===== *)
theory Read_Ahead
  imports Client_Handlers
begin

text \<open>
  The request reader (\<open>parse_request_header\<close> of \<open>client/src/lib.rs\<close>) wraps a clone of the connection in a
  \<open>BufReader\<close> and drops it when it returns; the relay then reads from the connection itself. What
  the buffer had read past the request is dropped with it. This theory says what the relay sees.

  The connection is the list of byte strings that successive reads of it return; reader and relay read
  from the same connection, so the relay gets what the reader has not taken. The buffered
  reader is a library: \<open>taken chunks n\<close> is the number of bytes it has taken from the connection when
  it has handed out \<open>n\<close> of them, and \<open>bufreader_contract\<close> is its documented behaviour, that it reads
  from the connection only when its buffer is empty.
\<close>

definition bufreader_contract :: "(bytes list \<Rightarrow> nat \<Rightarrow> nat) \<Rightarrow> bool" where
  "bufreader_contract taken \<longleftrightarrow>
     (\<forall>chunks n. n \<le> length (concat chunks) \<longrightarrow>
        (\<exists>ys zs. chunks = ys @ zs \<and> taken chunks n = length (concat ys) \<and> n \<le> length (concat ys) \<and>
           (ys \<noteq> [] \<longrightarrow> length (concat (butlast ys)) < n)))"

text \<open>A reader that takes whole chunks, one at a time, while it needs more.\<close>

fun chunk_reader :: "bytes list \<Rightarrow> nat \<Rightarrow> nat" where
  "chunk_reader [] n = 0"
| "chunk_reader (c # cs) n = (if n = 0 then 0 else length c + chunk_reader cs (n - length c))"

lemma chunk_reader_contract: "bufreader_contract chunk_reader"
  unfolding bufreader_contract_def
proof (intro allI impI)
  fix chunks :: "bytes list" and n assume "n \<le> length (concat chunks)"
  then show "\<exists>ys zs. chunks = ys @ zs \<and> chunk_reader chunks n = length (concat ys) \<and>
      n \<le> length (concat ys) \<and> (ys \<noteq> [] \<longrightarrow> length (concat (butlast ys)) < n)"
  proof (induction chunks n rule: chunk_reader.induct)
    case (1 n)
    then show ?case by (intro exI [of _ "[]"]) simp
  next
    case (2 c cs n)
    show ?case
    proof (cases "n = 0")
      case True
      then show ?thesis by (intro exI [of _ "[]"] exI [of _ "c # cs"]) simp
    next
      case False
      have "n - length c \<le> length (concat cs)" using 2 by simp
      from "2.IH" [OF False this] obtain ys zs where y: "cs = ys @ zs" "chunk_reader cs (n - length c) = length (concat ys)"
        "n - length c \<le> length (concat ys)"
        "ys \<noteq> [] \<longrightarrow> length (concat (butlast ys)) < n - length c"
        by blast
      with False show ?thesis
        by (intro exI [of _ "c # ys"] exI [of _ zs]) auto
    qed
  qed
qed

subsection \<open>What the relay can read\<close>

text \<open>
  The bytes that reads of the connection itself still return when the reader has handed out all but
  \<open>rest\<close> of what has arrived and is dropped, its buffer with it.
\<close>

definition left_on_stream :: "(bytes list \<Rightarrow> nat \<Rightarrow> nat) \<Rightarrow> bytes list \<Rightarrow> bytes \<Rightarrow> bytes" where
  "left_on_stream taken chunks rest =
     drop (taken chunks (length (concat chunks) - length rest)) (concat chunks)"

lemma read_ahead_split:
  assumes "bufreader_contract taken" and "concat chunks = req @ rest"
  obtains ys zs lost where "chunks = ys @ zs" "concat ys = req @ lost"
    "taken chunks (length req) = length (concat ys)" "ys \<noteq> [] \<longrightarrow> length (concat (butlast ys)) < length req"
proof -
  have "length req \<le> length (concat chunks)" using assms(2) by simp
  then obtain ys zs where y: "chunks = ys @ zs" "taken chunks (length req) = length (concat ys)"
    "length req \<le> length (concat ys)" "ys \<noteq> [] \<longrightarrow> length (concat (butlast ys)) < length req"
    using assms(1) unfolding bufreader_contract_def by blast
  then have "req @ rest = concat ys @ concat zs" using assms(2) by simp
  then have "concat ys = req @ drop (length req) (concat ys)"
    using y(3) by (metis append_eq_append_conv_if append_eq_conv_conj append_take_drop_id)
  with y that show thesis by blast
qed

subsection \<open>Properties\<close>

text \<open>C33: what goes into the tunnel for an accepted HTTP connection, whatever the sizes of its reads, when
  the stream is open and nothing fails: the request exactly as sent (nothing of it for a CONNECT),
  and then, in order, what the relay reads, which begins with the read after the one that
  completed the request. The bytes between, those that arrived in the same read as the end of the
  request, are never sent. So for both HTTP handlers of the client.\<close>

theorem read_ahead_lost:
  assumes "bufreader_contract taken"
    and "parse_request_header (concat chunks) fin = Ready (Some ((host, headers, body), rest))"
    and "route_of cx (http_host_port host) = Some False"
    and "open_ok env" "ack_res env = AckGot True" "reply_ok env" "data_ok env"
    and "prefix (relay_input (reads env)) (left_on_stream taken chunks rest)"
  shows "\<exists>ys zs lost. chunks = ys @ zs \<and> concat ys = as_bytes headers @ body @ lost \<and>
     (ys \<noteq> [] \<longrightarrow> length lost < length (last ys)) \<and>
     (\<exists>later. prefix later (concat zs) \<and>
        (\<forall>es \<in> {handle_local_connection cx denv env i (concat chunks) fin,
                handle_local_connection_resilient cx denv (Some env) write_ok i (concat chunks) fin}.
           data_bytes i (frames_of es) =
             (if starts_with headers ''CONNECT '' then [] else as_bytes headers @ body) @ later))"
proof -
  let ?req = "as_bytes headers @ body"
  from parse_request_split [OF assms(2)] have split: "concat chunks = ?req @ rest" by simp
  obtain ys zs lost where y: "chunks = ys @ zs" "concat ys = ?req @ lost"
    "taken chunks (length ?req) = length (concat ys)" "ys \<noteq> [] \<longrightarrow> length (concat (butlast ys)) < length ?req"
    by (rule read_ahead_split [OF assms(1) split])
  have "length (concat chunks) - length rest = length ?req" using split by simp
  then have later: "left_on_stream taken chunks rest = concat zs"
    unfolding left_on_stream_def y(3) [symmetric] by (simp only: y(3)) (simp add: y(1))
  have "length lost < length (last ys)" if "ys \<noteq> []"
  proof -
    have "length (concat ys) = length (concat (butlast ys)) + length (last ys)"
      using that by (metis append_butlast_last_id concat_append concat.simps append_Nil2 length_append)
    with y(2,4) that show ?thesis by simp
  qed
  moreover have "data_bytes i (frames_of (handle_via_mux env i (to_request (host, headers, body)))) =
      (if starts_with headers ''CONNECT '' then [] else ?req) @ relay_input (reads env)"
    "data_bytes i (frames_of (handle_via_mux_with_timeout env i (to_request (host, headers, body)))) =
      (if starts_with headers ''CONNECT '' then [] else ?req) @ relay_input (reads env)"
    using assms(4-7) http_mux.data_sent [where env = env and i = i] http_mux_timeout.data_sent [where env = env and i = i]
    by (simp_all add: to_request_def http_first_ok_def http_preface_def)
  moreover have "handle_local_connection cx denv env i (concat chunks) fin =
      handle_via_mux env i (to_request (host, headers, body))"
    "handle_local_connection_resilient cx denv (Some env) write_ok i (concat chunks) fin =
      handle_via_mux_with_timeout env i (to_request (host, headers, body))"
    using assms(2,3) by (simp_all add: handle_local_connection_def handle_local_connection_resilient_def to_request_def)
  ultimately show ?thesis using y(1,2) assms(8) later
    by (intro exI [of _ ys] exI [of _ zs] exI [of _ lost] conjI exI [of _ "relay_input (reads env)"]) simp_all
qed

text \<open>
  A POST whose body is sent in chunks has no Content-Length: what arrives in one read with the
  head is lost, so the upstream sees a body without its beginning.
\<close>

definition chunked_head :: "string list" where
  "chunked_head = [''POST / HTTP/1.1'' @ crlf, ''Host: a.com'' @ crlf, ''Transfer-Encoding: chunked'' @ crlf]"

lemma chunked_head_ok:
  "list_all header_line chunked_head" "list_all length_line_ok chunked_head"
  "length (concat chunked_head) + 2 \<le> MAX_HEADER_BYTES" "content_length_of chunked_head 0 = 0"
proof -
  have names: "\<not> has_name ''content-length:'' (''POST / HTTP/1.1'' @ crlf)"
    "\<not> has_name ''content-length:'' (''Host: a.com'' @ crlf)"
    "\<not> has_name ''content-length:'' (''Transfer-Encoding: chunked'' @ crlf)"
    by code_simp+
  then show "content_length_of chunked_head 0 = 0" "list_all length_line_ok chunked_head"
    by (simp_all add: chunked_head_def length_line_ok_def)
  show "list_all header_line chunked_head"
    unfolding chunked_head_def by (simp add: ascii_header_line del: append_Cons append_Nil)
  show "length (concat chunked_head) + 2 \<le> MAX_HEADER_BYTES"
    by (simp add: chunked_head_def MAX_HEADER_BYTES_def crlf_def)
qed

definition chunked_post :: "bytes list" where
  "chunked_post = [as_bytes (concat chunked_head @ crlf) @ [53, 13, 10], [104, 101, 108, 108, 111]]"

lemma chunked_post_read:
  "parse_request_header (concat chunked_post) StillOpen =
     Ready (Some ((host_of chunked_head [], concat chunked_head @ crlf, []), [53, 13, 10, 104, 101, 108, 108, 111]))"
  using header_loop_lines [OF chunked_head_ok(1,2), of req_init "[53, 13, 10] @ [104, 101, 108, 108, 111]" StillOpen]
    chunked_head_ok(3,4)
  by (simp add: parse_request_header_def req_init_def chunked_post_def)

definition chunked_env :: mux_env where
  "chunked_env = demo_mux\<lparr>reads := [(ReadOk [104, 101, 108, 108, 111], True)]\<rparr>"

theorem read_ahead_lost_witness:
  "\<exists>ys zs lost later. chunked_post = ys @ zs \<and> concat ys = as_bytes (concat chunked_head @ crlf) @ lost \<and>
     lost \<noteq> [] \<and> prefix later (concat zs) \<and>
     data_bytes 1 (frames_of (handle_local_connection demo_ctx demo_direct chunked_env 1 (concat chunked_post) StillOpen)) =
       as_bytes (concat chunked_head @ crlf) @ later"
proof -
  let ?h = "as_bytes (concat chunked_head @ crlf)" and ?rest = "[53, 13, 10, 104, 101, 108, 108, 111]"
  have h: "?h \<noteq> []" by (simp add: crlf_def as_bytes_def)
  have post: "\<not> starts_with (concat chunked_head @ crlf) ''CONNECT ''" by (simp add: starts_with_def chunked_head_def)
  have "left_on_stream chunk_reader chunked_post ?rest = [104, 101, 108, 108, 111]"
    by (simp add: crlf_def left_on_stream_def chunked_post_def del: as_bytes_append)
  then have left: "prefix (relay_input (reads chunked_env)) (left_on_stream chunk_reader chunked_post ?rest)"
    by (simp add: chunked_env_def)
  have env: "open_ok chunked_env" "ack_res chunked_env = AckGot True" "reply_ok chunked_env" "data_ok chunked_env"
    by (simp_all add: chunked_env_def demo_mux_def)
  from read_ahead_lost [OF chunk_reader_contract chunked_post_read demo_ctx_route env left, of demo_direct 1 True]
  obtain ys zs lost later where r: "chunked_post = ys @ zs" "concat ys = ?h @ lost" "prefix later (concat zs)"
    "data_bytes 1 (frames_of (handle_local_connection demo_ctx demo_direct chunked_env 1 (concat chunked_post) StillOpen)) = ?h @ later"
    using post by (auto simp del: as_bytes_append)
  have "ys = [] \<or> ys = [hd chunked_post] \<or> ys = chunked_post"
    using r(1) by (auto simp: chunked_post_def Cons_eq_append_conv simp del: as_bytes_append)
  with r(2) h have "lost \<noteq> []" by (auto simp: chunked_post_def simp del: as_bytes_append)
  with r show ?thesis by blast
qed

end
