(* ===== verification/Direct_Relay.thy ===== *)
theory Direct_Relay
  imports Client_Handlers
begin

text \<open>
  The relay of a direct connection (\<open>relay_tcp\<close> of \<open>client/src/lib.rs\<close>) as two copy loops that
  interleave: the spawned task copies from \<open>a\<close> (the client) to \<open>b\<close> (the upstream), the function
  itself from \<open>b\<close> to \<open>a\<close>. The function returns when its own loop ends; dropping the handle of the
  task detaches it, so the task goes on.
\<close>

subsection \<open>State and steps\<close>

text \<open>A copy loop runs, has ended at the end of its input, or has ended at a failed write.\<close>

datatype copy_state = Copying | CopyEnded | CopyFailed

record copy_dir =
  d_in :: "read_result list"   \<comment> \<open>what the reads of the source return\<close>
  d_out :: bytes               \<comment> \<open>what was written to the destination\<close>
  d_state :: copy_state

definition copy_init :: "read_result list \<Rightarrow> copy_dir" where
  "copy_init rs = \<lparr>d_in = rs, d_out = [], d_state = Copying\<rparr>"

text \<open>
  One iteration of a copy loop. A \<open>write_all\<close> that fails may have written a part of the bytes; a read
  or a write that has not completed is no step.
\<close>

inductive copy_step :: "copy_dir \<Rightarrow> copy_dir \<Rightarrow> bool" where
  copied:
    "d_state d = Copying \<Longrightarrow> d_in d = ReadOk bs # rs \<Longrightarrow> bs \<noteq> [] \<Longrightarrow>
     copy_step d (d\<lparr>d_in := rs, d_out := d_out d @ bs\<rparr>)"
| write_failed:
    "d_state d = Copying \<Longrightarrow> d_in d = ReadOk bs # rs \<Longrightarrow> bs \<noteq> [] \<Longrightarrow>
     prefix part bs \<Longrightarrow>
     copy_step d (d\<lparr>d_in := rs, d_out := d_out d @ part, d_state := CopyFailed\<rparr>)"
| input_ended:
    "d_state d = Copying \<Longrightarrow> d_in d = ReadOk [] # rs \<or> d_in d = ReadErr # rs \<Longrightarrow>
     copy_step d (d\<lparr>d_in := rs, d_state := CopyEnded\<rparr>)"

inductive_cases copy_stepE: "copy_step d e"

text \<open>The two loops share nothing but the connections; either may move.\<close>

type_synonym tcp_relay = "copy_dir \<times> copy_dir"

inductive tcp_step :: "tcp_relay \<Rightarrow> tcp_relay \<Rightarrow> bool" where
  a_to_b: "copy_step ab ab' \<Longrightarrow> tcp_step (ab, ba) (ab', ba)"
| b_to_a: "copy_step ba ba' \<Longrightarrow> tcp_step (ab, ba) (ab, ba')"

inductive_cases tcp_stepE: "tcp_step (ab, ba) r"

definition relay_returned :: "tcp_relay \<Rightarrow> bool" where
  "relay_returned r \<longleftrightarrow> d_state (snd r) \<noteq> Copying"

definition tcp_start :: "read_result list \<Rightarrow> read_result list \<Rightarrow> tcp_relay" where
  "tcp_start a b = (copy_init a, copy_init b)"

subsection \<open>Copying\<close>

text \<open>The bytes a source delivers before its end.\<close>

fun source_bytes :: "read_result list \<Rightarrow> bytes" where
  "source_bytes [] = []"
| "source_bytes (ReadErr # rs) = []"
| "source_bytes (ReadOk bs # rs) = (if bs = [] then [] else bs @ source_bytes rs)"

definition copy_inv :: "read_result list \<Rightarrow> copy_dir \<Rightarrow> bool" where
  "copy_inv rs d \<longleftrightarrow>
     (case d_state d of
        Copying \<Rightarrow> source_bytes rs = d_out d @ source_bytes (d_in d)
      | CopyEnded \<Rightarrow> source_bytes rs = d_out d
      | CopyFailed \<Rightarrow> prefix (d_out d) (source_bytes rs))"

lemma copy_step_inv: "copy_step d e \<Longrightarrow> copy_inv rs d \<Longrightarrow> copy_inv rs e"
  by (elim copy_stepE) (auto simp: copy_inv_def)

lemma copy_inv_prefix: "copy_inv rs d \<Longrightarrow> prefix (d_out d) (source_bytes rs)"
  by (auto simp: copy_inv_def split: copy_state.splits)

lemma tcp_run_inv:
  assumes "tcp_step\<^sup>*\<^sup>* (tcp_start a b) r"
  shows "copy_inv a (fst r) \<and> copy_inv b (snd r)"
  using assms
proof (induction rule: rtranclp_induct)
  case base
  show ?case by (simp add: tcp_start_def copy_init_def copy_inv_def)
next
  case (step r s)
  obtain ab ba where r: "r = (ab, ba)" by (cases r)
  with step show ?case by (auto elim!: tcp_stepE intro: copy_step_inv)
qed

text \<open>The interleaved loops write what the sequential ones of \<open>Effects\<close> do.\<close>

lemma source_bytes_relay: "source_bytes rs = relay_input (map (\<lambda>r. (r, True)) rs)"
  by (induction rs rule: source_bytes.induct) auto

subsection \<open>Termination\<close>

definition copy_measure :: "copy_dir \<Rightarrow> nat" where
  "copy_measure d = (if d_state d = Copying then length (d_in d) else 0)"

definition tcp_measure :: "tcp_relay \<Rightarrow> nat" where
  "tcp_measure r = copy_measure (fst r) + copy_measure (snd r)"

lemma copy_step_measure: "copy_step d e \<Longrightarrow> copy_measure e < copy_measure d"
  by (elim copy_stepE) (auto simp: copy_measure_def)

lemma tcp_step_measure: "tcp_step r s \<Longrightarrow> tcp_measure s < tcp_measure r"
  by (cases r) (auto simp: tcp_measure_def elim!: tcp_stepE dest: copy_step_measure)

lemma tcp_run_bound: "(tcp_step ^^ n) r s \<Longrightarrow> n + tcp_measure s \<le> tcp_measure r"
proof (induction n arbitrary: s)
  case (Suc n)
  then obtain u where "(tcp_step ^^ n) r u" "tcp_step u s" by auto
  with Suc.IH tcp_step_measure show ?case by fastforce
qed simp

text \<open>A source that ends: a read reports the end of input or an error.\<close>

fun source_ends :: "read_result list \<Rightarrow> bool" where
  "source_ends [] = False"
| "source_ends (ReadErr # rs) = True"
| "source_ends (ReadOk bs # rs) = (bs = [] \<or> source_ends rs)"

lemma copying_ends_inv:
  assumes "copy_step d e" "d_state d = Copying \<longrightarrow> source_ends (d_in d)"
  shows "d_state e = Copying \<longrightarrow> source_ends (d_in e)"
  using assms by (elim copy_stepE) auto

lemma copying_can_step:
  assumes "d_state d = Copying" "source_ends (d_in d)"
  shows "\<exists>e. copy_step d e"
proof (cases "d_in d")
  case (Cons r rs)
  show ?thesis
  proof (cases r)
    case ReadErr
    with Cons assms(1) show ?thesis by (blast intro: copy_step.input_ended)
  next
    case (ReadOk bs)
    with Cons assms(1) show ?thesis
      by (cases "bs = []") (blast intro: copy_step.input_ended copy_step.copied)+
  qed
qed (use assms in simp)

lemma tcp_run_ends_inv:
  assumes "tcp_step\<^sup>*\<^sup>* (tcp_start a b) r" "source_ends a" "source_ends b"
  shows "(d_state (fst r) = Copying \<longrightarrow> source_ends (d_in (fst r))) \<and>
     (d_state (snd r) = Copying \<longrightarrow> source_ends (d_in (snd r)))"
  using assms(1)
proof (induction rule: rtranclp_induct)
  case base
  show ?case using assms by (simp add: tcp_start_def copy_init_def)
next
  case (step r s)
  obtain ab ba where r: "r = (ab, ba)" by (cases r)
  with step show ?case by (auto elim!: tcp_stepE dest: copying_ends_inv)
qed

subsection \<open>Properties\<close>

text \<open>C31: a direct connection is transparent: however the two copy loops interleave, what was written to
  each side is a prefix of what the other side sent, and all of it (up to the end or the error
  that ended the input) when the loop ended without a failed write.\<close>

theorem direct_relay_transparent:
  assumes "tcp_step\<^sup>*\<^sup>* (tcp_start a b) r"
  shows "prefix (d_out (fst r)) (source_bytes a) \<and> prefix (d_out (snd r)) (source_bytes b) \<and>
     (d_state (fst r) = CopyEnded \<longrightarrow> d_out (fst r) = source_bytes a) \<and>
     (d_state (snd r) = CopyEnded \<longrightarrow> d_out (snd r) = source_bytes b)"
  using tcp_run_inv [OF assms] by (auto simp: copy_inv_def intro: copy_inv_prefix)

text \<open>The client sends two bytes, the upstream answers one byte and closes, then the client sends more.\<close>

definition demo_a :: "read_result list" where
  "demo_a = [ReadOk [1, 2], ReadOk [3], ReadOk []]"

definition demo_b :: "read_result list" where
  "demo_b = [ReadOk [9], ReadOk []]"

definition demo_half :: tcp_relay where
  "demo_half = (\<lparr>d_in = [ReadOk [3], ReadOk []], d_out = [1, 2], d_state = Copying\<rparr>,
     \<lparr>d_in = [], d_out = [9], d_state = CopyEnded\<rparr>)"

lemma demo_half_reached: "tcp_step\<^sup>*\<^sup>* (tcp_start demo_a demo_b) demo_half"
proof -
  let ?a0 = "copy_init demo_a" and ?b0 = "copy_init demo_b"
  let ?a1 = "?a0\<lparr>d_in := [ReadOk [3], ReadOk []], d_out := [] @ [1, 2]\<rparr>"
  let ?b1 = "?b0\<lparr>d_in := [ReadOk []], d_out := [] @ [9]\<rparr>"
  let ?b2 = "?b1\<lparr>d_in := [], d_state := CopyEnded\<rparr>"
  have a: "copy_step ?a0 ?a1"
    using copy_step.copied [of ?a0 "[1, 2]" "[ReadOk [3], ReadOk []]"] by (simp add: copy_init_def demo_a_def)
  have b: "copy_step ?b0 ?b1" "copy_step ?b1 ?b2"
    using copy_step.copied [of ?b0 "[9]" "[ReadOk []]"] copy_step.input_ended [of ?b1 "[]"]
    by (simp_all add: copy_init_def demo_b_def)
  have "tcp_step (?a0, ?b0) (?a1, ?b0)" "tcp_step (?a1, ?b0) (?a1, ?b1)" "tcp_step (?a1, ?b1) (?a1, ?b2)"
    using a b by (auto intro: tcp_step.intros)
  then have "tcp_step\<^sup>*\<^sup>* (?a0, ?b0) (?a1, ?b2)"
    by (intro converse_rtranclp_into_rtranclp [OF _ converse_rtranclp_into_rtranclp [OF _ r_into_rtranclp]])
  then show ?thesis by (simp add: tcp_start_def demo_half_def copy_init_def)
qed

theorem direct_relay_transparent_witness:
  "tcp_step\<^sup>*\<^sup>* (tcp_start demo_a demo_b) demo_half \<and> prefix [1, 2] (source_bytes demo_a) \<and>
     [9] = source_bytes demo_b"
  using direct_relay_transparent [OF demo_half_reached] demo_half_reached by (simp add: demo_half_def)

text \<open>C32: the relay of a direct connection ends: a run has at most as many steps as the two sides have
  reads (a step is an iteration whose read and write have completed or failed), and when both
  inputs end, a state from which no loop can move has both loops ended, so that the function has
  returned and its task is gone.\<close>

theorem direct_relay_terminates:
  assumes "(tcp_step ^^ n) (tcp_start a b) r"
  shows "n \<le> length a + length b \<and>
     (source_ends a \<and> source_ends b \<and> (\<nexists>s. tcp_step r s) \<longrightarrow>
        relay_returned r \<and> d_state (fst r) \<noteq> Copying)"
proof
  show "n \<le> length a + length b"
    using tcp_run_bound [OF assms] by (simp add: tcp_measure_def tcp_start_def copy_measure_def copy_init_def)
next
  have run: "tcp_step\<^sup>*\<^sup>* (tcp_start a b) r" using assms by (rule relpowp_imp_rtranclp)
  obtain ab ba where r: "r = (ab, ba)" by (cases r)
  show "source_ends a \<and> source_ends b \<and> (\<nexists>s. tcp_step r s) \<longrightarrow>
      relay_returned r \<and> d_state (fst r) \<noteq> Copying"
    using tcp_run_ends_inv [OF run] copying_can_step [of ab] copying_can_step [of ba]
    by (auto simp: r relay_returned_def intro: tcp_step.intros)
qed

theorem direct_relay_terminates_witness:
  "\<exists>n. (tcp_step ^^ n) (tcp_start demo_a demo_b) demo_half \<and> n \<le> length demo_a + length demo_b"
proof -
  obtain n where n: "(tcp_step ^^ n) (tcp_start demo_a demo_b) demo_half"
    using rtranclp_imp_relpowp [OF demo_half_reached] by blast
  with direct_relay_terminates [OF n] show ?thesis by blast
qed

text \<open>
  The relay does not end when either side closes: in \<open>demo_half\<close> the upstream has closed and the
  function has returned, and the task still reads from the client and writes upstream.
\<close>

lemma relay_goes_on_after_return:
  "relay_returned demo_half \<and> (\<exists>s. tcp_step demo_half s \<and> d_out (fst s) = [1, 2, 3])"
proof -
  let ?ab = "fst demo_half"
  have "copy_step ?ab (?ab\<lparr>d_in := [ReadOk []], d_out := [1, 2] @ [3]\<rparr>)"
    using copy_step.copied [of ?ab "[3]" "[ReadOk []]"] by (simp add: demo_half_def)
  then have "tcp_step demo_half (?ab\<lparr>d_in := [ReadOk []], d_out := [1, 2] @ [3]\<rparr>, snd demo_half)"
    unfolding demo_half_def by (auto intro: tcp_step.a_to_b)
  then show ?thesis by (force simp: relay_returned_def demo_half_def)
qed

end
