(* ===== verification/Valid_Strings.thy ===== *)
theory Valid_Strings
  imports Client_Handlers
begin

text \<open>
  The type invariant of Rust's \<open>String\<close> through the client: every text that the request parsers
  cut out of a line or read from the connection is again well-formed UTF-8, so every frame that a
  request handler sends is one that the codec carries unchanged.
\<close>

subsection \<open>Cutting a string at a character boundary\<close>

lemma utf8_valid_head: "utf8_valid ys \<Longrightarrow> ys \<noteq> [] \<Longrightarrow> \<not> cont_byte (hd ys)"
proof -
  assume "utf8_valid ys" "ys \<noteq> []"
  then obtain r where "utf8_next ys = Some r"
    by (subst (asm) utf8_valid.simps) (auto split: option.splits)
  then show ?thesis
    unfolding utf8_next_def cont_byte_def
    by (auto split: list.split_asm if_split_asm simp: word_le_nat_alt word_less_nat_alt)
qed

lemma utf8_seconds: "utf8_second3 b c \<Longrightarrow> cont_byte c" "utf8_second4 b c \<Longrightarrow> cont_byte c"
  by (auto simp: utf8_second3_def utf8_second4_def cont_byte_def word_le_nat_alt split: if_splits)

lemma utf8_next_prefix:
  assumes "utf8_next (xs @ ys) = Some r" "xs \<noteq> []" "ys \<noteq> [] \<Longrightarrow> \<not> cont_byte (hd ys)"
  obtains r' where "utf8_next xs = Some r'" "r = r' @ ys"
proof -
  consider a where "xs = [a]" | a b where "xs = [a, b]" | a b c where "xs = [a, b, c]"
    | a b c d zs where "xs = a # b # c # d # zs"
    using assms(2) by (metis list.exhaust)
  then have "\<exists>r'. utf8_next xs = Some r' \<and> r = r' @ ys"
  proof cases
    case 1
    with assms show ?thesis
      by (auto simp: utf8_next_def dest!: utf8_seconds split: list.split_asm if_split_asm)
  next
    case 2
    with assms show ?thesis
      by (auto simp: utf8_next_def dest!: utf8_seconds split: list.split_asm if_split_asm)
  next
    case 3
    with assms show ?thesis
      by (auto simp: utf8_next_def dest!: utf8_seconds split: list.split_asm if_split_asm)
  next
    case 4
    with assms(1) show ?thesis
      by (auto simp: utf8_next_def split: list.split_asm if_split_asm)
  qed
  with that show thesis by blast
qed

lemma utf8_valid_front: "utf8_valid (xs @ ys) \<Longrightarrow> utf8_valid ys \<Longrightarrow> utf8_valid xs"
proof (induction xs rule: utf8_valid.induct)
  case (1 xs)
  show ?case
  proof (cases "xs = []")
    case False
    with "1.prems"(1) obtain r where r: "utf8_next (xs @ ys) = Some r" "utf8_valid r"
      by (subst (asm) utf8_valid.simps) (auto split: option.splits)
    from utf8_next_prefix [OF r(1) False utf8_valid_head [OF "1.prems"(2)]]
    obtain r' where r': "utf8_next xs = Some r'" "r = r' @ ys" by blast
    with 1 r False have "utf8_valid r'" by simp
    with r' show ?thesis by (subst utf8_valid.simps) simp
  qed simp
qed

lemma valid_str_front: "valid_str (s @ t) \<Longrightarrow> valid_str t \<Longrightarrow> valid_str s"
  using utf8_valid_front by (simp add: valid_str_def)

lemma valid_str_back: "valid_str (s @ t) \<Longrightarrow> valid_str s \<Longrightarrow> valid_str t"
  using valid_str_append by blast

subsection \<open>Trimming\<close>

lemma white_space_valid: "w \<in> set white_space \<Longrightarrow> valid_str w"
proof -
  have "list_all valid_str white_space" by code_simp
  then show "w \<in> set white_space \<Longrightarrow> valid_str w" by (auto simp: list_all_iff)
qed

lemma strip_front_valid:
  assumes "\<And>w. w \<in> set ws \<Longrightarrow> valid_str w" "valid_str s"
  shows "valid_str (strip_front ws s)"
  using assms
proof (induction ws s rule: strip_front.induct)
  case (1 ws s)
  show ?case
  proof (cases "find (\<lambda>w. w \<noteq> [] \<and> starts_with s w) ws")
    case None
    with "1.prems" show ?thesis by (simp add: strip_front_None)
  next
    case (Some w)
    then have w: "w \<in> set ws" "starts_with s w" by (auto simp: find_Some_iff)
    then have "valid_str (w @ drop (length w) s)" using "1.prems"(2)
      by (metis append_take_drop_id starts_with_def)
    with "1.prems"(1) w(1) have "valid_str (drop (length w) s)" by (blast intro: valid_str_back)
    with 1 Some show ?thesis by (simp add: strip_front_Some)
  qed
qed

lemma strip_back_valid:
  assumes "\<And>w. w \<in> set ws \<Longrightarrow> valid_str (rev w)" "valid_str (rev s)"
  shows "valid_str (rev (strip_front ws s))"
  using assms
proof (induction ws s rule: strip_front.induct)
  case (1 ws s)
  show ?case
  proof (cases "find (\<lambda>w. w \<noteq> [] \<and> starts_with s w) ws")
    case None
    with "1.prems" show ?thesis by (simp add: strip_front_None)
  next
    case (Some w)
    then have w: "w \<in> set ws" "starts_with s w" by (auto simp: find_Some_iff)
    then have "rev s = rev (drop (length w) s) @ rev w"
      by (metis append_take_drop_id rev_append starts_with_def)
    with "1.prems" w(1) have "valid_str (rev (drop (length w) s))" by (metis valid_str_front)
    with 1 Some show ?thesis by (simp add: strip_front_Some)
  qed
qed

lemma trim_valid:
  assumes "valid_str s"
  shows "valid_str (trim s)"
  unfolding trim_def trim_end_def trim_start_def
proof (rule strip_back_valid)
  fix w assume "w \<in> set (map rev white_space)"
  then show "valid_str (rev w)" using white_space_valid by auto
next
  show "valid_str (rev (rev (strip_front white_space s)))"
    using strip_front_valid [OF white_space_valid assms] by simp
qed

lemma trim_end_matches_valid: "valid_str p \<Longrightarrow> valid_str s \<Longrightarrow> valid_str (trim_end_matches p s)"
  unfolding trim_end_matches_def using strip_back_valid [of "[rev p]" "rev s"] by simp

subsection \<open>The request parsers\<close>

lemma header_value_valid:
  assumes "valid_str line" "starts_with (to_ascii_lowercase line) name" "is_ascii name"
  shows "valid_str (header_value name line)"
proof -
  have "map ascii_lower (take (length name) line) = name"
    using assms(2) by (simp add: starts_with_def to_ascii_lowercase_def take_map)
  then have "is_ascii (take (length name) line)" using assms(3) is_ascii_lower by metis
  then have "valid_str (take (length name) line)" by (rule ascii_valid_str)
  then have "valid_str (drop (length name) line)"
    using assms(1) valid_str_back [of "take (length name) line" "drop (length name) line"] by simp
  moreover have "valid_str crlf" "valid_str [CHR 0x0A]" by (rule ascii_valid_str; simp add: crlf_def)+
  ultimately show ?thesis by (simp add: header_value_def trim_valid trim_end_matches_valid)
qed

lemma host_value_valid:
  assumes "valid_str line" "starts_with (to_ascii_lowercase line) ''host:''"
  shows "valid_str (host_value line)"
proof -
  have "valid_str (header_value ''host:'' line)" by (rule header_value_valid [OF assms]) simp
  moreover have "valid_str '':80''" by (rule ascii_valid_str) simp
  ultimately show ?thesis by (simp add: host_value_def Let_def valid_str_append)
qed

definition req_valid :: "req_state \<Rightarrow> bool" where
  "req_valid st \<longleftrightarrow> valid_str (rq_headers st) \<and> valid_str (rq_host st)"

lemma process_line_valid:
  "req_valid st \<Longrightarrow> valid_str line \<Longrightarrow> process_line line st = Some st' \<Longrightarrow> req_valid st'"
  by (auto simp: process_line_def Let_def req_valid_def valid_str_append host_value_valid split: if_splits)

lemma read_line_valid: "read_line bs fin = Ready (Some (line, rest)) \<Longrightarrow> valid_str line"
  by (auto simp: read_line_def str_simps split: option.splits stream_end.splits)

lemma header_loop_valid:
  "header_loop bs fin st = Ready (Some (st', rest)) \<Longrightarrow> req_valid st \<Longrightarrow> req_valid st'"
proof (induction bs fin st rule: header_loop.induct)
  case (1 bs fin st)
  from "1.prems"(1) obtain line r where rl: "read_line bs fin = Ready (Some (line, r))"
    by (subst (asm) header_loop.simps) (auto split: await.splits option.splits)
  show ?case
  proof (cases "line = []")
    case True
    with 1 rl show ?thesis by (subst (asm) (2) header_loop.simps) simp
  next
    case False
    with "1.prems"(1) rl obtain s where s: "process_line line st = Some s"
      by (subst (asm) header_loop.simps) (auto split: option.splits)
    have "req_valid s" using process_line_valid [OF "1.prems"(2) read_line_valid [OF rl] s] .
    with 1 rl s False show ?thesis
      by (subst (asm) (2) header_loop.simps) (auto split: if_splits)
  qed
qed

lemma request_valid:
  assumes "parse_request_header bs fin = Ready (Some ((host, headers, body), rest))"
  shows "valid_str host" "valid_str headers"
proof -
  obtain st r where st: "header_loop bs fin req_init = Ready (Some (st, r))" "host = rq_host st" "headers = rq_headers st"
    using assms by (auto simp: parse_request_header_def split: await.splits option.splits if_splits)
  have "req_valid req_init" by (simp add: req_valid_def req_init_def valid_str_def as_bytes_def)
  from header_loop_valid [OF st(1) this] st(2,3) show "valid_str host" "valid_str headers"
    by (simp_all add: req_valid_def)
qed

lemma target_text_valid: "target_ok t \<Longrightarrow> valid_str (target_text t)"
proof (cases t)
  case (TIp ip)
  have "is_ascii (show_ip ip)" using show_ip_ip_char by (fastforce simp: is_ascii_def list_all_iff ip_char_def)
  then have "is_ascii (ip_host ip)" by (cases ip) simp_all
  with TIp show ?thesis by (simp add: ascii_valid_str)
qed auto

lemma socks_valid:
  assumes "parse_socks5_request auth_ok bs fin = (w, Ready (Some (h, rest)))"
  shows "valid_str h"
proof -
  from parse_socks5_sound [OF assms] obtain t port where t: "target_ok t" "h = target_text t @ '':'' @ show_u16 port"
    by blast
  have "valid_str ('':'' @ show_u16 port)" by (rule ascii_valid_str) (simp add: show_u16_def show_nat_ascii)
  with t target_text_valid [OF t(1)] show ?thesis by (simp add: valid_str_append)
qed

subsection \<open>The frames of the request handlers\<close>

lemma relay_reader_wf: "ESendFrame f ok \<in> set (relay_reader i c rs) \<Longrightarrow> frame_wf f"
  by (induction i c rs rule: relay_reader.induct) (auto simp: relay_finish_def split: if_splits)

lemma copy_loop_no_frame: "ESendFrame f ok \<notin> set (copy_loop ETcpWrite rs)"
  by (induction ETcpWrite rs rule: copy_loop.induct) auto

lemmas handler_defs = open_stream_def do_mux_relay_def http_forward_def

lemma handle_direct_no_frame:
  "ESendFrame f ok \<notin> set (handle_direct denv req)" "ESendFrame f ok \<notin> set (handle_socks_direct denv host)"
  by (auto simp: handle_direct_def handle_socks_direct_def relay_tcp_def copy_loop_no_frame)

lemma mux_handlers_wf:
  "ESendFrame f ok \<in> set (handle_via_mux env i req) \<Longrightarrow> valid_str (pr_host req) \<Longrightarrow> frame_wf f"
  "ESendFrame f ok \<in> set (handle_via_mux_with_timeout env i req) \<Longrightarrow> valid_str (pr_host req) \<Longrightarrow> frame_wf f"
  "ESendFrame f ok \<in> set (handle_socks_via_mux_with_timeout env i host) \<Longrightarrow> valid_str host \<Longrightarrow> frame_wf f"
  unfolding handle_via_mux_def handle_via_mux_with_timeout_def handle_socks_via_mux_with_timeout_def handler_defs
  by (auto split: option.splits if_splits dest: relay_reader_wf)

subsection \<open>Property\<close>

text \<open>C30: every frame that a request handler of the client sends, for whatever bytes arrive on the accepted
  connection and over each of the three entry points, is well-formed: its strings are UTF-8. So the
  peer decodes exactly the frame that was sent.\<close>

theorem client_frames_well_formed:
  assumes "ESendFrame f ok \<in> set (handle_local_connection cx denv menv i bs fin) \<union>
      set (handle_local_connection_resilient cx denv conn write_ok i bs fin) \<union>
      set (handle_socks_connection_resilient cx denv conn auth_ok write_ok i bs fin)"
  shows "frame_wf f \<and> decode (encode f) = Inr f"
proof -
  have http: "valid_str (pr_host (to_request r))" if "parse_request_header bs fin = Ready (Some (r, rest))" for r rest
    using that request_valid(1) by (cases r) (auto simp: to_request_def)
  have "frame_wf f" if "ESendFrame f ok \<in> set (handle_local_connection cx denv menv i bs fin)"
    using that
    by (auto simp: handle_local_connection_def Let_def handle_direct_no_frame
        split: await.splits option.splits bool.splits intro: mux_handlers_wf(1) http http [OF sym])
  moreover have "frame_wf f" if "ESendFrame f ok \<in> set (handle_local_connection_resilient cx denv conn write_ok i bs fin)"
    using that
    by (auto simp: handle_local_connection_resilient_def Let_def handle_direct_no_frame
        split: await.splits option.splits bool.splits intro: mux_handlers_wf(2) http http [OF sym])
  moreover have "frame_wf f" if "ESendFrame f ok \<in> set (handle_socks_connection_resilient cx denv conn auth_ok write_ok i bs fin)"
  proof (cases "parse_socks5_request auth_ok bs fin")
    case (Pair w res)
    show ?thesis
    proof (cases "\<exists>h rest. res = Ready (Some (h, rest))")
      case True
      then obtain h rest where res: "res = Ready (Some (h, rest))" by blast
      have "valid_str h" using Pair res socks_valid by simp
      with that show ?thesis
        unfolding handle_socks_connection_resilient_def Pair res
        by (cases w) (auto simp: handle_direct_no_frame split: option.splits bool.splits dest: mux_handlers_wf(3))
    next
      case False
      with that show ?thesis
        unfolding handle_socks_connection_resilient_def Pair
        by (cases w) (auto split: await.splits option.splits)
    qed
  qed
  ultimately show ?thesis using assms decode_encode by blast
qed

theorem client_frames_well_formed_witness:
  "frame_wf (Open 1 ''a.com:80'') \<and>
   ESendFrame (Open 1 ''a.com:80'') True \<in>
     set (handle_local_connection demo_ctx demo_direct demo_mux 1 (as_bytes (concat demo_lines @ crlf) @ []) StillOpen)"
proof -
  have "parse_request_header (as_bytes (concat demo_lines @ crlf) @ []) StillOpen =
      Ready (Some ((''a.com:80'', concat demo_lines @ crlf, []), []))"
    using header_loop_lines [OF demo_lines_ok(1,2), of req_init "[]" StillOpen] demo_lines_ok
    by (simp add: parse_request_header_def req_init_def)
  then have sent: "ESendFrame (Open 1 ''a.com:80'') True \<in>
      set (handle_local_connection demo_ctx demo_direct demo_mux 1 (as_bytes (concat demo_lines @ crlf) @ []) StillOpen)"
    by (simp add: handle_local_connection_def to_request_def demo_ctx_route handle_via_mux_def open_stream_def
        demo_mux_def Let_def)
  then show ?thesis
    using client_frames_well_formed [of "Open 1 ''a.com:80''" True demo_ctx demo_direct demo_mux 1
        "as_bytes (concat demo_lines @ crlf) @ []" StillOpen] by blast
qed

end
