(* ===== verification/Rust_Words.thy ===== *)
theory Rust_Words
  imports Rust_Str
begin

text \<open>
  Further operations of Rust's \<open>str\<close>: splitting at white space and the lossy conversion from
  bytes, and how trimming and splitting act on words of printable ASCII characters, of which the
  lines of HTTP are made.
\<close>

subsection \<open>Printable words\<close>

definition graphic :: "char \<Rightarrow> bool" where
  "graphic c \<longleftrightarrow> 33 \<le> (of_char c :: nat) \<and> of_char c < (127 :: nat)"

definition word :: "string \<Rightarrow> bool" where
  "word s \<longleftrightarrow> s \<noteq> [] \<and> list_all graphic s"

lemma word_ascii: "word s \<Longrightarrow> is_ascii s"
  by (auto simp: word_def is_ascii_def graphic_def list_all_iff)

lemma word_hd_last: "word s \<Longrightarrow> graphic (hd s)" "word s \<Longrightarrow> graphic (last s)"
  by (auto simp: word_def list_all_iff)

lemma word_rev: "word (rev s) = word s"
  by (simp add: word_def)

lemma word_append: "list_all graphic s \<Longrightarrow> list_all graphic t \<Longrightarrow> s @ t \<noteq> [] \<Longrightarrow> word (s @ t)"
  by (simp add: word_def)

lemma word_no_newline: "word s \<Longrightarrow> CHR 0x0A \<notin> set s"
  by (auto simp: word_def list_all_iff graphic_def)

lemma word_show_nat: "word (show_nat n)"
  using show_nat_range by (fastforce simp: word_def list_all_iff graphic_def)

lemma white_space_heads:
  assumes "w \<in> set white_space"
  shows "w \<noteq> []" "\<not> graphic (hd w)" "\<not> graphic (last w)"
proof -
  have "list_all (\<lambda>w. w \<noteq> [] \<and> \<not> graphic (hd w) \<and> \<not> graphic (last w)) white_space" by code_simp
  with assms show "w \<noteq> []" "\<not> graphic (hd w)" "\<not> graphic (last w)" by (auto simp: list_all_iff)
qed

lemma strip_front_graphic:
  assumes "graphic (hd s)" "s \<noteq> []" "\<And>w. w \<in> set ws \<Longrightarrow> w \<noteq> [] \<and> \<not> graphic (hd w)"
  shows "strip_front ws s = s"
proof (rule strip_front_id)
  fix w assume "w \<in> set ws"
  with assms(3) have w: "w \<noteq> []" "\<not> graphic (hd w)" by auto
  show "\<not> starts_with s w"
    using assms(1,2) w by (auto simp: starts_with_iff hd_append)
qed

lemma strip_front_step:
  assumes "w \<in> set ws" "w \<noteq> []" "\<And>v. v \<in> set ws \<Longrightarrow> starts_with (w @ s) v \<Longrightarrow> v \<noteq> [] \<Longrightarrow> v = w"
  shows "strip_front ws (w @ s) = strip_front ws s"
proof -
  have "find (\<lambda>v. v \<noteq> [] \<and> starts_with (w @ s) v) ws = Some w"
  proof (cases "find (\<lambda>v. v \<noteq> [] \<and> starts_with (w @ s) v) ws")
    case None
    then show ?thesis using assms(1,2) by (auto simp: find_None_iff)
  next
    case (Some v)
    then have "v \<in> set ws" "starts_with (w @ s) v" "v \<noteq> []" by (auto simp: find_Some_iff)
    with assms(3) Some show ?thesis by simp
  qed
  from strip_front_Some [OF this] show ?thesis by simp
qed

lemma white_space_single:
  assumes "v \<in> set white_space \<or> v \<in> set (map rev white_space)" "starts_with ([c] @ s) v" "v \<noteq> []"
    and "c \<in> {CHR 0x20, CHR 0x0D, CHR 0x0A}"
  shows "v = [c]"
proof -
  have "list_all (\<lambda>w. hd w \<in> {CHR 0x20, CHR 0x0D, CHR 0x0A} \<longrightarrow> tl w = []) (white_space @ map rev white_space)"
    by code_simp
  moreover have "hd v = c" using assms(2,3) by (auto simp: starts_with_iff Cons_eq_append_conv)
  ultimately have "tl v = []" using assms(1,4) by (auto simp: list_all_iff)
  with \<open>hd v = c\<close> assms(3) show ?thesis by (cases v) auto
qed

lemma blank_white_space:
  "c \<in> {CHR 0x20, CHR 0x0D, CHR 0x0A} \<Longrightarrow> [c] \<in> set white_space \<and> [c] \<in> set (map rev white_space)"
  by (auto simp: white_space_def)

lemma trim_start_blank: "c \<in> {CHR 0x20, CHR 0x0D, CHR 0x0A} \<Longrightarrow> trim_start (c # s) = trim_start s"
  using strip_front_step [of "[c]" white_space s] white_space_single [of _ c s] blank_white_space
  by (auto simp: trim_start_def)

lemma trim_end_blank: "c \<in> {CHR 0x20, CHR 0x0D, CHR 0x0A} \<Longrightarrow> trim_end (s @ [c]) = trim_end s"
  using strip_front_step [of "[c]" "map rev white_space" "rev s"] white_space_single [of _ c "rev s"]
    blank_white_space [of c]
  by (simp add: trim_end_def)

lemma trim_start_graphic: "s \<noteq> [] \<Longrightarrow> graphic (hd s) \<Longrightarrow> trim_start s = s"
  unfolding trim_start_def by (rule strip_front_graphic) (auto simp: white_space_heads)

lemma trim_end_graphic: "s \<noteq> [] \<Longrightarrow> graphic (last s) \<Longrightarrow> trim_end s = s"
  unfolding trim_end_def
  using white_space_heads by (subst strip_front_graphic) (auto simp: hd_rev)

lemma trim_word: "word s \<Longrightarrow> trim s = s"
  unfolding trim_def
  using trim_start_graphic trim_end_graphic word_hd_last by (simp add: word_def)

lemma trim_field: "word s \<Longrightarrow> trim ('' '' @ s @ crlf) = s"
proof -
  assume s: "word s"
  then have ne: "s \<noteq> []" by (simp add: word_def)
  have "trim_start ('' '' @ s @ crlf) = s @ crlf"
    using trim_start_blank [of "CHR 0x20" "s @ crlf"] trim_start_graphic [of "s @ crlf"] word_hd_last(1) [OF s] ne
    by (simp add: hd_append)
  moreover have "trim_end (s @ crlf) = s"
    using trim_end_blank [of "CHR 0x0A" "s @ [CHR 0x0D]"] trim_end_blank [of "CHR 0x0D" s]
      trim_end_graphic [OF ne word_hd_last(2) [OF s]]
    by (simp add: crlf_def)
  ultimately show ?thesis by (simp add: trim_def)
qed

lemma trim_end_matches_graphic:
  assumes "word s" "p \<noteq> []" "\<not> graphic (last p)"
  shows "trim_end_matches p s = s"
proof -
  have "strip_front [rev p] (rev s) = rev s"
    using assms word_hd_last(2) [OF assms(1)]
    by (intro strip_front_graphic) (auto simp: word_def hd_rev)
  then show ?thesis by (simp add: trim_end_matches_def)
qed

subsection \<open>Splitting at white space\<close>

definition at_space :: "string \<Rightarrow> bool" where
  "at_space s \<longleftrightarrow> list_ex (\<lambda>w. starts_with s w) white_space"

fun break_space :: "string \<Rightarrow> string \<times> string" where
  "break_space [] = ([], [])"
| "break_space (c # s) =
     (if at_space (c # s) then ([], c # s) else let (w, r) = break_space s in (c # w, r))"

lemma break_space_length: "length (snd (break_space s)) \<le> length s"
  by (induction s) (auto simp: split_beta)

lemma trim_start_length: "length (trim_start s) \<le> length s"
proof -
  obtain t where "s = t @ trim_start s"
    using strip_front_suffix [of s white_space] by (auto simp: trim_start_def)
  then have "length s = length t + length (trim_start s)" by (metis length_append)
  then show ?thesis by simp
qed

lemma trim_start_not_at_space: "\<not> at_space (trim_start s)"
  using strip_front_clean [of _ white_space s] white_space_heads(1)
  by (auto simp: at_space_def trim_start_def list_ex_iff)

text \<open>\<open>str::split_whitespace\<close>: the maximal runs of characters that are no white space.\<close>

function split_whitespace :: "string \<Rightarrow> string list" where
  "split_whitespace s =
     (case trim_start s of
        [] \<Rightarrow> []
      | c # t \<Rightarrow> (let (w, r) = break_space t in (c # w) # split_whitespace r))"
  by pat_completeness auto
termination
proof (relation "measure length")
  fix s c t x w r assume a: "trim_start s = c # t" "x = break_space t" "(w, r) = x"
  from a(2,3) have "length r \<le> length t" using break_space_length [of t] by (metis snd_conv)
  moreover have "length t < length s" using a(1) trim_start_length [of s] by simp
  ultimately show "(r, s) \<in> measure length" by simp
qed simp

declare split_whitespace.simps [simp del]

lemma at_space_graphic: "graphic c \<Longrightarrow> \<not> at_space (c # s)"
proof
  assume c: "graphic c" and "at_space (c # s)"
  then obtain w where w: "w \<in> set white_space" "starts_with (c # s) w"
    by (auto simp: at_space_def list_ex_iff)
  then have "hd w = c" using white_space_heads(1) [OF w(1)] by (auto simp: starts_with_iff Cons_eq_append_conv)
  with c white_space_heads(2) [OF w(1)] show False by simp
qed

lemma break_space_word:
  "list_all graphic s \<Longrightarrow> break_space (s @ CHR 0x20 # t) = (s, CHR 0x20 # t)"
proof (induction s)
  case Nil
  have "[CHR 0x20] \<in> set white_space" by (simp add: white_space_def)
  then have "at_space (CHR 0x20 # t)"
    unfolding at_space_def list_ex_iff by (rule bexI [rotated]) (simp add: starts_with_def)
  then show ?case by simp
qed (simp add: at_space_graphic)

lemma split_whitespace_word:
  assumes "word s"
  shows "split_whitespace (s @ CHR 0x20 # t) = s # split_whitespace t"
proof -
  from assms obtain c u where s: "s = c # u" "graphic c" "list_all graphic u"
    by (cases s) (auto simp: word_def)
  have start: "trim_start (s @ CHR 0x20 # t) = s @ CHR 0x20 # t"
    using s by (intro trim_start_graphic) simp_all
  have "split_whitespace (s @ CHR 0x20 # t) = s # split_whitespace (CHR 0x20 # t)"
    by (subst split_whitespace.simps) (simp add: start [unfolded s(1), simplified] s break_space_word)
  moreover have "split_whitespace (CHR 0x20 # t) = split_whitespace t"
    by (simp add: split_whitespace.simps [of "CHR 0x20 # t"] split_whitespace.simps [of t] trim_start_blank)
  ultimately show ?thesis by simp
qed

subsection \<open>Lossy conversion from bytes\<close>

text \<open>
  \<open>String::from_utf8_lossy\<close> replaces each maximal part that cannot begin a character by U+FFFD.
  \<open>bad_length\<close> is the length of such a part at the front of the input.
\<close>

definition bad_length :: "bytes \<Rightarrow> nat" where
  "bad_length s =
     (case s of
        b # c # r \<Rightarrow>
          if 0xE0 \<le> b \<and> b \<le> 0xEF \<and> utf8_second3 b c then 2
          else if 0xF0 \<le> b \<and> b \<le> 0xF4 \<and> utf8_second4 b c then
            (case r of d # _ \<Rightarrow> if cont_byte d then 3 else 2 | [] \<Rightarrow> 2)
          else 1
      | _ \<Rightarrow> 1)"

lemma bad_length_pos: "0 < bad_length s"
  by (simp add: bad_length_def split: list.split)

function utf8_lossy :: "bytes \<Rightarrow> bytes" where
  "utf8_lossy s =
     (if s = [] then []
      else
        (case utf8_next s of
           Some r \<Rightarrow> take (length s - length r) s @ utf8_lossy r
         | None \<Rightarrow> [0xEF, 0xBF, 0xBD] @ utf8_lossy (drop (bad_length s) s)))"
  by pat_completeness auto
termination
  by (relation "measure length") (auto dest: utf8_next_length simp: bad_length_pos)

declare utf8_lossy.simps [simp del]

definition from_utf8_lossy :: "bytes \<Rightarrow> string" where
  "from_utf8_lossy bs = of_bytes (utf8_lossy bs)"

lemma utf8_next_suffix: "utf8_next s = Some r \<Longrightarrow> s = take (length s - length r) s @ r"
proof -
  assume "utf8_next s = Some r"
  then have "\<exists>t. s = t @ r"
    unfolding utf8_next_def by (auto split: list.split_asm if_split_asm)
  then show ?thesis by auto
qed

text \<open>Valid input is unchanged, and the result is always a valid string.\<close>

lemma utf8_lossy_valid: "utf8_valid s \<Longrightarrow> utf8_lossy s = s"
proof (induction s rule: utf8_valid.induct)
  case (1 s)
  show ?case
  proof (cases "s = []")
    case False
    with "1.prems" obtain r where r: "utf8_next s = Some r" "utf8_valid r"
      by (subst (asm) utf8_valid.simps) (auto split: option.splits)
    with 1 False have "utf8_lossy r = r" by simp
    with r False utf8_next_suffix [OF r(1)] show ?thesis by (simp add: utf8_lossy.simps [of s])
  qed (simp add: utf8_lossy.simps)
qed

lemma from_utf8_lossy_valid: "valid_str s \<Longrightarrow> from_utf8_lossy (as_bytes s) = s"
  by (simp add: from_utf8_lossy_def utf8_lossy_valid valid_str_def)

lemma utf8_char_valid:
  assumes "utf8_next s = Some r"
  shows "utf8_valid (take (length s - length r) s)"
  using assms unfolding utf8_next_def
  by (auto split: list.split_asm if_split_asm simp: utf8_valid.simps utf8_next_def)

lemma utf8_replacement_valid: "utf8_valid [0xEF, 0xBF, 0xBD]"
  by (simp add: utf8_valid.simps utf8_next_def utf8_second3_def cont_byte_def)

lemma utf8_lossy_is_valid: "utf8_valid (utf8_lossy s)"
proof (induction s rule: utf8_lossy.induct)
  case (1 s)
  show ?case
  proof (cases "s = []")
    case True
    then show ?thesis by (simp add: utf8_lossy.simps)
  next
    case False
    show ?thesis
    proof (cases "utf8_next s")
      case None
      with 1 False have "utf8_valid (utf8_lossy (drop (bad_length s) s))" by simp
      with utf8_valid_append [OF utf8_replacement_valid] False None show ?thesis
        by (simp add: utf8_lossy.simps [of s])
    next
      case (Some r)
      with 1 False have "utf8_valid (utf8_lossy r)" by simp
      with utf8_valid_append [OF utf8_char_valid [OF Some]] False Some show ?thesis
        by (simp add: utf8_lossy.simps [of s])
    qed
  qed
qed

lemma from_utf8_lossy_is_valid: "valid_str (from_utf8_lossy bs)"
  by (simp add: valid_str_def from_utf8_lossy_def utf8_lossy_is_valid)

end
