(* ===== verification/Test_Fixtures.thy ===== *)
theory Test_Fixtures
  imports Rust_Words Client_Session
begin

text \<open>
  The shared fixtures of the integration tests (\<open>integration-tests/src/lib.rs\<close>): the upstream
  servers, the helpers that start a proxy server and a proxy client, and the clients that talk to
  the proxy over HTTP, CONNECT and SOCKS5. Their requests and answers are checked against the
  model of the proxy. A panic of a fixture (a failed \<open>unwrap\<close>, \<open>expect\<close> or \<open>assert\<close>) is \<open>None\<close>.
\<close>

subsection \<open>Reading from a socket into the rest of a buffer\<close>

text \<open>
  The connection is the list of chunks in which its bytes arrive, and how it goes on. One read
  returns what fits of the first chunk; \<open>Ready None\<close> is an error of the connection.
\<close>

definition sock_read :: "nat \<Rightarrow> bytes list \<Rightarrow> stream_end \<Rightarrow> (bytes \<times> bytes list) option await" where
  "sock_read room chunks fin =
     (case chunks of
        c # cs \<Rightarrow>
          Ready (Some (take room c, if length c \<le> room then cs else drop room c # cs))
      | [] \<Rightarrow>
          (case fin of
             Eof \<Rightarrow> Ready (Some ([], []))
           | Broken \<Rightarrow> Ready None
           | StillOpen \<Rightarrow> if room = 0 then Ready (Some ([], [])) else Pending))"

definition blank_line :: bytes where
  "blank_line = as_bytes (crlf @ crlf)"

lemma sock_read_concat:
  "sock_read room cs fin = Ready (Some (bs, cs')) \<Longrightarrow> concat cs = bs @ concat cs' \<and> length bs \<le> room"
  by (auto simp: sock_read_def split: list.splits stream_end.splits if_splits)

lemma sock_read_chunk:
  assumes "[] \<notin> set cs" "cs \<noteq> []" "0 < room"
  obtains bs cs' where "sock_read room cs fin = Ready (Some (bs, cs'))" "bs \<noteq> []" "[] \<notin> set cs'"
    "concat cs = bs @ concat cs'" "length bs \<le> room"
  using assms by (cases cs) (auto simp: sock_read_def split: if_splits)

subsection \<open>Upstream servers\<close>

text \<open>\<open>while let Ok(..) = listener.accept()\<close>: \<open>None\<close> is an error of the listener.\<close>

definition accepted :: "'c option list \<Rightarrow> 'c list" where
  "accepted conns = map the (takeWhile (\<lambda>c. c \<noteq> None) conns)"

text \<open>
  The loop that drains the request head into 4096 bytes: \<open>True\<close> when it saw the blank line, \<open>False\<close>
  when it returned without one. A read into a full buffer returns no bytes.
\<close>

function upstream_drain :: "bytes list \<Rightarrow> stream_end \<Rightarrow> bytes \<Rightarrow> bool await" where
  "upstream_drain chunks fin buf =
     (case sock_read (4096 - length buf) chunks fin of
        Pending \<Rightarrow> Pending
      | Ready None \<Rightarrow> Ready False
      | Ready (Some (bs, chunks')) \<Rightarrow>
          if bs = [] then Ready False
          else if contains_str (buf @ bs) blank_line then Ready True
          else upstream_drain chunks' fin (buf @ bs))"
  by pat_completeness auto
termination
  by (relation "measure (\<lambda>(cs, _, _). length (concat cs))") (auto dest!: sock_read_concat)

declare upstream_drain.simps [simp del]

definition upstream_body :: bytes where
  "upstream_body = as_bytes ''hello-upstream''"

definition upstream_head :: bytes where
  "upstream_head = as_bytes (''HTTP/1.1 200 OK'' @ crlf @ ''Content-Length: '' @
     show_nat (length upstream_body) @ crlf @ ''Connection: close'' @ crlf @ crlf)"

definition http_upstream_task :: "bytes list \<Rightarrow> stream_end \<Rightarrow> bool \<Rightarrow> bool \<Rightarrow> effect list await" where
  "http_upstream_task chunks fin head_ok body_ok =
     (case upstream_drain chunks fin [] of
        Pending \<Rightarrow> Pending
      | Ready False \<Rightarrow> Ready []
      | Ready True \<Rightarrow> Ready [ETcpWrite upstream_head head_ok, ETcpWrite upstream_body body_ok])"

definition spawn_http_upstream ::
  "(bytes list \<times> stream_end \<times> bool \<times> bool) option list \<Rightarrow> effect list await list" where
  "spawn_http_upstream conns =
     map (\<lambda>(chunks, fin, head_ok, body_ok). http_upstream_task chunks fin head_ok body_ok) (accepted conns)"

definition spawn_upstream_close_immediately :: "'c option list \<Rightarrow> effect list list" where
  "spawn_upstream_close_immediately conns = map (\<lambda>_. []) (accepted conns)"

definition spawn_raw_echo_upstream :: "(read_result \<times> bool) list option list \<Rightarrow> effect list list" where
  "spawn_raw_echo_upstream conns = map (copy_loop ETcpWrite) (accepted conns)"

text \<open>The drain succeeds exactly when the blank line ends within the first 4096 bytes.\<close>

lemma blank_line_length: "length blank_line = 4"
  by (simp add: blank_line_def crlf_def)

lemma contains_take:
  "contains_str (take n xs) p \<Longrightarrow> contains_str xs p"
  by (metis append_take_drop_id contains_str_sublist sublist_append_rightI sublist_order.order.trans)

lemma contains_append: "contains_str xs p \<Longrightarrow> contains_str (xs @ ys) p"
  by (metis contains_str_sublist sublist_append_rightI sublist_order.order.trans)

lemma upstream_drain_iff:
  assumes "[] \<notin> set chunks" "length buf \<le> 4096" "\<not> contains_str buf blank_line"
  shows "upstream_drain chunks fin buf = Ready True \<longleftrightarrow>
     contains_str (take 4096 (buf @ concat chunks)) blank_line"
  using assms
proof (induction chunks fin buf rule: upstream_drain.induct)
  case (1 chunks fin buf)
  show ?case
  proof (cases "chunks = [] \<or> 4096 - length buf = 0")
    case True
    then have t: "take 4096 (buf @ concat chunks) = buf"
      and u: "upstream_drain chunks fin buf \<noteq> Ready True"
      using "1.prems" by (auto simp: upstream_drain.simps [of chunks] sock_read_def
          split: list.splits stream_end.splits if_splits)
    show ?thesis unfolding t using u "1.prems"(3) by blast
  next
    case False
    with "1.prems" obtain bs cs where
      r: "sock_read (4096 - length buf) chunks fin = Ready (Some (bs, cs))" and
      bs: "bs \<noteq> []" "[] \<notin> set cs" "concat chunks = bs @ concat cs" "length bs \<le> 4096 - length buf"
      using sock_read_chunk [of chunks "4096 - length buf" fin] by auto
    show ?thesis
    proof (cases "contains_str (buf @ bs) blank_line")
      case True
      have "take 4096 (buf @ concat chunks) = (buf @ bs) @ take (4096 - length (buf @ bs)) (concat cs)"
        using bs "1.prems"(2) by simp
      with contains_append [OF True] r bs(1) True show ?thesis
        by (simp add: upstream_drain.simps [of chunks])
    next
      case False
      from bs(4) "1.prems"(2) have "length (buf @ bs) \<le> 4096" by simp
      from "1.IH" [OF r refl refl bs(1) False bs(2) this False] r bs(1,3) False show ?thesis
        by (simp add: upstream_drain.simps [of chunks])
    qed
  qed
qed

subsection \<open>Starting the proxy\<close>

definition endpoint_url :: "string \<Rightarrow> string" where
  "endpoint_url addr = ''ws://'' @ addr @ ''/''"

text \<open>
  The address is the text of the \<open>SocketAddr\<close>; \<open>binds\<close> tells whether the listener was bound. Every
  accepted connection is served with the users of the configuration.
\<close>

definition spawn_proxy_server ::
  "bool \<Rightarrow> string list \<Rightarrow> 's accept_event list \<Rightarrow> (('s \<times> string list) list \<times> bool option) option" where
  "spawn_proxy_server binds users events =
     (if binds then Some (map (\<lambda>s. (s, users)) (fst (serve events)), snd (serve events)) else None)"

text \<open>
  The client without reconnection: the token first, then the listener, then the proxy as a task. The
  argument \<open>get_token\<close> is the result of \<open>obtain_token\<close> for an endpoint and a user, \<open>connects\<close> and
  \<open>hello_ok\<close> are those of the proxy. The result is the URL of the mux connection, the routing that
  every request is decided by, and what the proxy does.
\<close>

definition spawn_proxy_client_with_routing ::
  "(string \<Rightarrow> string \<Rightarrow> string option) \<Rightarrow> bool \<Rightarrow> bool \<Rightarrow> bool \<Rightarrow> string \<Rightarrow> string \<Rightarrow> ('re, 'n) routing_config
     \<Rightarrow> 's accept_event list
     \<Rightarrow> (string \<times> ('re, 'n) routing_config \<times> ws_message list \<times> (u32 \<times> 's) list \<times> bool option) option" where
  "spawn_proxy_client_with_routing get_token binds connects hello_ok server_addr user routing events =
     (let endpoint = ''ws://'' @ server_addr @ ''/''
      in case get_token endpoint user of
           None \<Rightarrow> None
         | Some token \<Rightarrow>
             if \<not> binds then None
             else Some (mux_url endpoint, routing, run_proxy_with_routing connects hello_ok token events))"

definition spawn_proxy_client ::
  "(string \<Rightarrow> string \<Rightarrow> string option) \<Rightarrow> bool \<Rightarrow> bool \<Rightarrow> bool \<Rightarrow> string \<Rightarrow> string \<Rightarrow> 's accept_event list
     \<Rightarrow> (string \<times> ('re, 'n) routing_config \<times> ws_message list \<times> (u32 \<times> 's) list \<times> bool option) option" where
  "spawn_proxy_client get_token binds connects hello_ok server_addr user events =
     spawn_proxy_client_with_routing get_token binds connects hello_ok server_addr user routing_default events"

text \<open>
  The resilient client, first with the HTTP listener only. The result is the endpoint and the user with
  which its keeper gets tokens, the routing, and what the accept loops hand out.
\<close>

definition spawn_resilient_proxy_client ::
  "bool \<Rightarrow> string \<Rightarrow> string \<Rightarrow> 's listener_event list
     \<Rightarrow> (string \<times> string \<times> ('re, 'n) routing_config \<times> 's dispatched list) option" where
  "spawn_resilient_proxy_client binds server_addr user events =
     (let endpoint = ''ws://'' @ server_addr @ ''/''
      in if binds
         then Some (endpoint, user, routing_default, run_proxy_resilient_accepts True False 1 events)
         else None)"

definition spawn_proxy_client_with_socks ::
  "bool \<Rightarrow> bool \<Rightarrow> string \<Rightarrow> string \<Rightarrow> ('re, 'n) routing_config \<Rightarrow> 's listener_event list
     \<Rightarrow> (string \<times> string \<times> ('re, 'n) routing_config \<times> 's dispatched list) option" where
  "spawn_proxy_client_with_socks http_binds socks_binds server_addr user routing events =
     (let endpoint = ''ws://'' @ server_addr @ ''/''
      in if http_binds \<and> socks_binds
         then Some (endpoint, user, routing, run_proxy_resilient_accepts True True 1 events)
         else None)"

text \<open>
  A client that starts has its token from the server it is given, and the first message it sends to
  the mux address of that server is HELLO with this token.
\<close>

lemma spawn_proxy_client_starts:
  assumes "spawn_proxy_client get_token binds True hello_ok server_addr user events = Some (url, routing, msgs, conns, res)"
  shows "\<exists>token. get_token (endpoint_url server_addr) user = Some token \<and> binds \<and>
     url = ''ws://'' @ server_addr @ ''/mux'' \<and> msgs = [WsBinary (encode (Hello token))]"
  using assms
  by (auto simp: spawn_proxy_client_def spawn_proxy_client_with_routing_def endpoint_url_def Let_def
      run_proxy_with_routing_def mux_url_def with_slash_def ends_with_iff split: option.splits if_splits)

subsection \<open>Reading an HTTP response\<close>

text \<open>
  \<open>read_line(..).unwrap_or(0)\<close>: an error counts as an empty line; the bytes of a line that is not
  UTF-8 are consumed.
\<close>

definition lenient_line :: "bytes \<Rightarrow> stream_end \<Rightarrow> (string \<times> bytes) await" where
  "lenient_line bs fin =
     (case read_line bs fin of
        Pending \<Rightarrow> Pending
      | Ready (Some (line, rest)) \<Rightarrow> Ready (line, rest)
      | Ready None \<Rightarrow> Ready ([], case split_once 10 bs of Some (l, rest) \<Rightarrow> rest | None \<Rightarrow> []))"

definition status_of :: "string \<Rightarrow> u16 \<Rightarrow> u16" where
  "status_of line status =
     (case split_whitespace line of
        _ # code # _ \<Rightarrow> (case parse_u16 code of Some n \<Rightarrow> n | None \<Rightarrow> 0)
      | _ \<Rightarrow> status)"

definition length_of :: "string \<Rightarrow> nat \<Rightarrow> nat" where
  "length_of line n =
     (if starts_with (to_ascii_lowercase line) ''content-length:'' then content_length_value line else n)"

record proxy_resp =
  header_text :: string
  status_code :: u16
  content_length :: nat

definition proxy_resp_line :: "string \<Rightarrow> proxy_resp \<Rightarrow> proxy_resp" where
  "proxy_resp_line line st =
     \<lparr>header_text = header_text st @ line,
      status_code = (if header_text st = [] then status_of line (status_code st) else status_code st),
      content_length = length_of line (content_length st)\<rparr>"

lemma lenient_line_less:
  assumes "lenient_line bs fin = Ready (line, rest)" "line \<noteq> []"
  shows "length rest < length bs"
proof -
  from assms have "read_line bs fin = Ready (Some (line, rest))"
    by (auto simp: lenient_line_def split: await.splits option.splits)
  from read_line_consumes [OF this] assms(2) show ?thesis by simp
qed

function proxy_resp_loop :: "bytes \<Rightarrow> stream_end \<Rightarrow> proxy_resp \<Rightarrow> (proxy_resp \<times> bytes) await" where
  "proxy_resp_loop bs fin st =
     (case lenient_line bs fin of
        Pending \<Rightarrow> Pending
      | Ready (line, rest) \<Rightarrow>
          if line = [] \<or> line = crlf then Ready (st, rest)
          else proxy_resp_loop rest fin (proxy_resp_line line st))"
  by pat_completeness auto
termination
  by (relation "measure (\<lambda>(bs, _, _). length bs)") (auto dest: lenient_line_less)

declare proxy_resp_loop.simps [simp del]

text \<open>The buffer of the body: \<open>vec!\<close> panics above \<open>isize::MAX\<close>.\<close>

definition read_body :: "nat \<Rightarrow> bytes \<Rightarrow> stream_end \<Rightarrow> bytes option await" where
  "read_body n bs fin =
     (if 2 ^ 63 \<le> n then Ready None
      else if 0 < n then
        (case read_exact n bs fin of
           Pending \<Rightarrow> Pending
         | Ready None \<Rightarrow> Ready None
         | Ready (Some (body, rest)) \<Rightarrow> Ready (Some body))
      else Ready (Some []))"

definition get_request :: "string \<Rightarrow> string \<Rightarrow> string" where
  "get_request path host =
     ''GET '' @ path @ '' HTTP/1.1'' @ crlf @ ''Host: '' @ host @ crlf @ ''Connection: close'' @ crlf @ crlf"

text \<open>The request it writes, and its result given what arrives.\<close>

definition http_get_via_proxy ::
  "bool \<Rightarrow> bool \<Rightarrow> string \<Rightarrow> string \<Rightarrow> bytes \<Rightarrow> stream_end \<Rightarrow> bytes \<times> (u16 \<times> bytes) option await" where
  "http_get_via_proxy connects write_ok host path bs fin =
     (if \<not> connects then ([], Ready None)
      else
        (as_bytes (get_request path host),
         if \<not> write_ok then Ready None
         else
           (case proxy_resp_loop bs fin \<lparr>header_text = [], status_code = 0, content_length = 0\<rparr> of
              Pending \<Rightarrow> Pending
            | Ready (st, rest) \<Rightarrow>
                (case read_body (content_length st) rest fin of
                   Pending \<Rightarrow> Pending
                 | Ready None \<Rightarrow> Ready None
                 | Ready (Some body) \<Rightarrow> Ready (Some (status_code st, body))))))"

text \<open>The same reader with a flag for the first line instead of the collected text.\<close>

record direct_resp =
  first_line :: bool
  dr_status :: u16
  dr_length :: nat

definition direct_resp_line :: "string \<Rightarrow> direct_resp \<Rightarrow> direct_resp" where
  "direct_resp_line line st =
     \<lparr>first_line = False,
      dr_status = (if first_line st then status_of line (dr_status st) else dr_status st),
      dr_length = length_of line (dr_length st)\<rparr>"

function direct_resp_loop :: "bytes \<Rightarrow> stream_end \<Rightarrow> direct_resp \<Rightarrow> (direct_resp \<times> bytes) await" where
  "direct_resp_loop bs fin st =
     (case lenient_line bs fin of
        Pending \<Rightarrow> Pending
      | Ready (line, rest) \<Rightarrow>
          if line = [] \<or> line = crlf then Ready (st, rest)
          else direct_resp_loop rest fin (direct_resp_line line st))"
  by pat_completeness auto
termination
  by (relation "measure (\<lambda>(bs, _, _). length bs)") (auto dest: lenient_line_less)

declare direct_resp_loop.simps [simp del]

definition http_get_direct ::
  "bool \<Rightarrow> bool \<Rightarrow> string \<Rightarrow> bytes \<Rightarrow> stream_end \<Rightarrow> bytes \<times> (u16 \<times> string) option await" where
  "http_get_direct connects write_ok addr bs fin =
     (if \<not> connects then ([], Ready None)
      else
        (as_bytes (get_request ''/'' addr),
         if \<not> write_ok then Ready None
         else
           (case direct_resp_loop bs fin \<lparr>first_line = True, dr_status = 0, dr_length = 0\<rparr> of
              Pending \<Rightarrow> Pending
            | Ready (st, rest) \<Rightarrow>
                (case read_body (dr_length st) rest fin of
                   Pending \<Rightarrow> Pending
                 | Ready None \<Rightarrow> Ready None
                 | Ready (Some body) \<Rightarrow> Ready (Some (dr_status st, from_utf8_lossy body))))))"

text \<open>The two readers agree.\<close>

definition forget_text :: "proxy_resp \<Rightarrow> direct_resp" where
  "forget_text st = \<lparr>first_line = (header_text st = []), dr_status = status_code st, dr_length = content_length st\<rparr>"

lemma forget_text_line: "line \<noteq> [] \<Longrightarrow> direct_resp_line line (forget_text st) = forget_text (proxy_resp_line line st)"
  by (simp add: direct_resp_line_def proxy_resp_line_def forget_text_def)

fun map_await :: "('a \<Rightarrow> 'b) \<Rightarrow> 'a await \<Rightarrow> 'b await" where
  "map_await f Pending = Pending"
| "map_await f (Ready x) = Ready (f x)"

lemma resp_loops_agree:
  "direct_resp_loop bs fin (forget_text st) = map_await (\<lambda>(st', rest). (forget_text st', rest)) (proxy_resp_loop bs fin st)"
proof (induction bs fin st rule: proxy_resp_loop.induct)
  case (1 bs fin st)
  then show ?case
    by (subst direct_resp_loop.simps, subst proxy_resp_loop.simps)
       (auto simp: forget_text_line split: await.split)
qed

lemma http_get_agree:
  "snd (http_get_direct c w addr bs fin) =
     map_await (map_option (\<lambda>(code, body). (code, from_utf8_lossy body))) (snd (http_get_via_proxy c w host path bs fin))"
proof -
  have "direct_resp_loop bs fin \<lparr>first_line = True, dr_status = 0, dr_length = 0\<rparr> =
      map_await (\<lambda>(st', rest). (forget_text st', rest))
        (proxy_resp_loop bs fin \<lparr>header_text = [], status_code = 0, content_length = 0\<rparr>)"
    using resp_loops_agree [of bs fin "\<lparr>header_text = [], status_code = 0, content_length = 0\<rparr>"]
    by (simp add: forget_text_def)
  then show ?thesis
    by (auto simp: http_get_direct_def http_get_via_proxy_def forget_text_def split: await.split option.split)
qed

subsection \<open>Opening a tunnel\<close>

definition connect_request :: "string \<Rightarrow> string" where
  "connect_request target = ''CONNECT '' @ target @ '' HTTP/1.1'' @ crlf @ ''Host: '' @ target @ crlf @ crlf"

text \<open>
  The loop that waits for the blank line of the answer, into 256 bytes. It does not look at the number
  of bytes read, so it may not end: the value is then \<open>None\<close>. \<open>Ready None\<close> is the panic on an
  error of the connection, \<open>Ready (Some ..)\<close> the bytes read with what is left of the connection.
\<close>

partial_function (option) connect_loop ::
  "bytes list \<Rightarrow> stream_end \<Rightarrow> bytes \<Rightarrow> (bytes \<times> bytes list) option await option" where
  "connect_loop chunks fin buf =
     (case sock_read (256 - length buf) chunks fin of
        Pending \<Rightarrow> Some Pending
      | Ready None \<Rightarrow> Some (Ready None)
      | Ready (Some (bs, chunks')) \<Rightarrow>
          if contains_str (buf @ bs) blank_line then Some (Ready (Some (buf @ bs, chunks')))
          else connect_loop chunks' fin (buf @ bs))"

declare connect_loop.simps [code]

definition connect_via_proxy ::
  "bool \<Rightarrow> bool \<Rightarrow> string \<Rightarrow> bytes list \<Rightarrow> stream_end \<Rightarrow> bytes \<times> bytes list option await option" where
  "connect_via_proxy connects write_ok target chunks fin =
     (if \<not> connects then ([], Some (Ready None))
      else
        (as_bytes (connect_request target),
         if \<not> write_ok then Some (Ready None)
         else
           (case connect_loop chunks fin [] of
              None \<Rightarrow> None
            | Some Pending \<Rightarrow> Some Pending
            | Some (Ready None) \<Rightarrow> Some (Ready None)
            | Some (Ready (Some (buf, rest))) \<Rightarrow>
                Some (Ready
                  (case from_utf8 buf of
                     None \<Rightarrow> None
                   | Some header \<Rightarrow> if contains_str header ''200'' then Some rest else None)))))"

text \<open>
  The SOCKS5 client. The length of the host is cut to one byte. The value is the bytes written and the
  bytes left unread; \<open>greet_ok\<close> and \<open>asked_ok\<close> are the results of the two writes.
\<close>

definition connect_via_socks5 ::
  "bool \<Rightarrow> bool \<Rightarrow> bool \<Rightarrow> string \<Rightarrow> bytes \<Rightarrow> stream_end \<Rightarrow> unit socks_out" where
  "connect_via_socks5 connects greet_ok asked_ok target bs fin =
     (case rsplit_once (CHR '':'') target of
        None \<Rightarrow> ([], Ready None)
      | Some (host, port_str) \<Rightarrow>
          (case parse_u16 port_str of
             None \<Rightarrow> ([], Ready None)
           | Some port \<Rightarrow>
               if \<not> connects then ([], Ready None)
               else
                 let greeting = [0x05, 0x01, 0x00];
                     domain = as_bytes host;
                     req = [0x05, 0x01, 0x00, 0x03, of_nat (length domain)] @ domain @ u16_to_be_bytes port
                 in if \<not> greet_ok then (greeting, Ready None)
                    else with_read greeting (read_exact 2 bs fin) (\<lambda>sel bs.
                      if sel ! 0 \<noteq> 0x05 \<or> sel ! 1 \<noteq> 0x00 then (greeting, Ready None)
                      else if \<not> asked_ok then (greeting @ req, Ready None)
                      else with_read (greeting @ req) (read_exact 10 bs fin) (\<lambda>reply bs.
                        if reply ! 0 \<noteq> 0x05 \<or> reply ! 1 \<noteq> 0x00 then (greeting @ req, Ready None)
                        else (greeting @ req, Ready (Some ((), bs)))))))"

text \<open>
  A wait that cannot end: no blank line so far, and nothing more to read, or no room for it.
\<close>

definition stuck :: "bytes list \<Rightarrow> stream_end \<Rightarrow> bytes \<Rightarrow> bool" where
  "stuck chunks fin buf \<longleftrightarrow>
     \<not> contains_str buf blank_line \<and>
     (chunks = [] \<and> fin = Eof \<or> 256 \<le> length buf \<and> (chunks = [] \<longrightarrow> fin \<noteq> Broken) \<and> [] \<notin> set chunks)"

lemma stuck_read:
  "stuck chunks fin buf \<Longrightarrow> sock_read (256 - length buf) chunks fin = Ready (Some ([], chunks))"
  by (auto simp: stuck_def sock_read_def split: list.splits stream_end.splits)

lemma connect_loop_stuck:
  assumes "stuck chunks fin buf"
  shows "connect_loop chunks fin buf = None"
proof -
  have "\<not> stuck chunks fin buf" if c: "connect_loop chunks fin buf = Some y" for y
  proof (rule connect_loop.raw_induct [where P = "\<lambda>chunks fin buf y. \<not> stuck chunks fin buf", OF _ c])
    fix f :: "bytes list \<Rightarrow> stream_end \<Rightarrow> bytes \<Rightarrow> (bytes \<times> bytes list) option await option" and chunks fin buf y
    assume IH: "\<And>chunks fin buf y. f chunks fin buf = Some y \<Longrightarrow> \<not> stuck chunks fin buf"
      and body: "(case sock_read (256 - length buf) chunks fin of
          Pending \<Rightarrow> Some Pending
        | Ready None \<Rightarrow> Some (Ready None)
        | Ready (Some (bs, chunks')) \<Rightarrow>
            if contains_str (buf @ bs) blank_line then Some (Ready (Some (buf @ bs, chunks')))
            else f chunks' fin (buf @ bs)) = Some y"
    show "\<not> stuck chunks fin buf"
    proof
      assume s: "stuck chunks fin buf"
      then have "f chunks fin buf = Some y"
        using body stuck_read [OF s] by (simp add: stuck_def)
      from IH [OF this] s show False by contradiction
    qed
  qed
  with assms show ?thesis by (cases "connect_loop chunks fin buf") auto
qed

text \<open>The bytes that arrive before the wait gets stuck are all read.\<close>

lemma connect_loop_eof:
  assumes "[] \<notin> set chunks" "\<not> contains_str (buf @ concat chunks) blank_line"
  shows "connect_loop chunks Eof buf = None"
  using assms
proof (induction "length (concat chunks)" arbitrary: chunks buf rule: less_induct)
  case less
  show ?case
  proof (cases "chunks = [] \<or> 256 \<le> length buf")
    case True
    have "\<not> contains_str buf blank_line" using less.prems(2) contains_append by blast
    with True less.prems(1) have "stuck chunks Eof buf" by (auto simp: stuck_def)
    then show ?thesis by (rule connect_loop_stuck)
  next
    case False
    then obtain bs cs where r: "sock_read (256 - length buf) chunks Eof = Ready (Some (bs, cs))"
      "bs \<noteq> []" "[] \<notin> set cs" "concat chunks = bs @ concat cs"
      using sock_read_chunk [of chunks "256 - length buf" Eof] less.prems(1) by (metis not_le zero_less_diff)
    have "\<not> contains_str (buf @ bs) blank_line"
      using less.prems(2) r(4) contains_append [of "buf @ bs" blank_line "concat cs"] by auto
    moreover have "connect_loop cs Eof (buf @ bs) = None"
      using less.hyps [of cs "buf @ bs"] less.prems(2) r by simp
    ultimately show ?thesis using r by (subst connect_loop.simps) simp
  qed
qed

text \<open>An answer that fits and ends with its only blank line is read completely, however it is split.\<close>

lemma connect_loop_answer:
  assumes "[] \<notin> set chunks" "buf @ concat chunks = p @ blank_line" "length (p @ blank_line) \<le> 256"
    and "\<And>n. n < length (p @ blank_line) \<Longrightarrow> \<not> contains_str (take n (p @ blank_line)) blank_line"
    and "chunks \<noteq> []"
  shows "connect_loop chunks fin buf = Some (Ready (Some (p @ blank_line, [])))"
  using assms(1,2,5)
proof (induction "length (concat chunks)" arbitrary: chunks buf rule: less_induct)
  case less
  have "0 < length (concat chunks)" using less.prems(1,3) by (cases chunks) auto
  then have "0 < 256 - length buf"
    using assms(3) arg_cong [OF less.prems(2), of length] unfolding length_append by linarith
  from sock_read_chunk [OF less.prems(1,3) this] obtain bs cs
    where r: "sock_read (256 - length buf) chunks fin = Ready (Some (bs, cs))"
      "bs \<noteq> []" "[] \<notin> set cs" "concat chunks = bs @ concat cs" by metis
  have split: "(buf @ bs) @ concat cs = p @ blank_line" using less.prems(2) r(4) by simp
  show ?case
  proof (cases "cs = []")
    case True
    then have "buf @ bs = p @ blank_line" using split by simp
    moreover have "contains_str (p @ blank_line) blank_line" by (metis append_Nil2 contains_str_iff)
    ultimately show ?thesis using r True by (subst connect_loop.simps) simp
  next
    case False
    then have ne: "concat cs \<noteq> []" using r(3) by (cases cs) auto
    have "take (length (buf @ bs)) (p @ blank_line) = buf @ bs" unfolding split [symmetric] by simp
    moreover have "length (buf @ bs) < length (p @ blank_line)" using ne by (simp only: split [symmetric] length_append) simp
    ultimately have "\<not> contains_str (buf @ bs) blank_line" using assms(4) [of "length (buf @ bs)"] by simp
    moreover have "connect_loop cs fin (buf @ bs) = Some (Ready (Some (p @ blank_line, [])))"
      using less.hyps [of cs "buf @ bs"] r split False by simp
    ultimately show ?thesis using r by (subst connect_loop.simps) simp
  qed
qed

end
