(* ===== verification/Fixture_Clients.thy ===== *)
theory Fixture_Clients
  imports Test_Fixtures
begin

text \<open>
  The fixture clients of the integration tests against the proxy: the requests they write are
  parsed by the client proxy to the destination they mean, and the answers of the proxy, of the
  server and of the upstream fixture are read back as they were written.
\<close>

subsection \<open>Responses given as lines\<close>

lemma lenient_line_header: "header_line l \<Longrightarrow> lenient_line (as_bytes l @ rest) fin = Ready (l, rest)"
  by (simp add: lenient_line_def read_line_header)

lemma lenient_line_crlf: "lenient_line (as_bytes crlf @ rest) fin = Ready (crlf, rest)"
  by (simp add: lenient_line_def read_line_crlf)

lemma proxy_resp_loop_lines:
  assumes "list_all header_line lines"
  shows "proxy_resp_loop (as_bytes (concat lines @ crlf) @ rest) fin st =
     Ready (fold proxy_resp_line lines st, rest)"
  using assms
proof (induction lines arbitrary: st)
  case Nil
  then show ?case by (simp add: proxy_resp_loop.simps [of "as_bytes crlf @ rest"] lenient_line_crlf)
next
  case (Cons l lines)
  then have "lenient_line (as_bytes l @ as_bytes (concat lines @ crlf) @ rest) fin =
      Ready (l, as_bytes (concat lines @ crlf) @ rest)"
    by (intro lenient_line_header) simp
  moreover from Cons.prems have "l \<noteq> []" "l \<noteq> crlf" by (auto simp: header_line_def)
  ultimately have "proxy_resp_loop (as_bytes l @ as_bytes (concat lines @ crlf) @ rest) fin st =
      proxy_resp_loop (as_bytes (concat lines @ crlf) @ rest) fin (proxy_resp_line l st)"
    by (subst proxy_resp_loop.simps) simp
  with Cons show ?case by simp
qed

text \<open>Lines after the first that are no Content-Length line leave the result as it is.\<close>

lemma fold_other_lines:
  assumes "list_all (\<lambda>l. \<not> has_name ''content-length:'' l) lines" "header_text st \<noteq> []"
  shows "status_code (fold proxy_resp_line lines st) = status_code st"
    and "content_length (fold proxy_resp_line lines st) = content_length st"
  using assms
  by (induction lines arbitrary: st) (auto simp: proxy_resp_line_def length_of_def has_name_def)

subsection \<open>A status line, a length, a body\<close>

definition status_line :: "u16 \<Rightarrow> string \<Rightarrow> string" where
  "status_line code reason = ''HTTP/1.1 '' @ show_u16 code @ '' '' @ reason @ crlf"

definition length_line :: "nat \<Rightarrow> string" where
  "length_line n = ''Content-Length: '' @ show_nat n @ crlf"

lemma word_show_u16: "word (show_u16 code)"
  by (simp add: show_u16_def word_show_nat)

lemma status_line_status: "status_of (status_line code reason) st = code"
proof -
  have "word ''HTTP/1.1''" by code_simp
  from split_whitespace_word [OF this] split_whitespace_word [OF word_show_u16]
  have "split_whitespace (''HTTP/1.1'' @ CHR 0x20 # show_u16 code @ CHR 0x20 # reason @ crlf) =
      ''HTTP/1.1'' # show_u16 code # split_whitespace (reason @ crlf)" by simp
  then show ?thesis by (simp add: status_of_def status_line_def)
qed

lemma status_line_ok:
  assumes "is_ascii reason" "CHR 0x0A \<notin> set reason"
  shows "header_line (status_line code reason)" "\<not> has_name ''content-length:'' (status_line code reason)"
    and "status_line code reason \<noteq> []"
proof -
  have "header_line ((''HTTP/1.1 '' @ show_u16 code @ '' '' @ reason) @ crlf)"
    using assms word_ascii [OF word_show_u16] word_no_newline [OF word_show_u16]
    by (intro ascii_header_line) simp_all
  then show "header_line (status_line code reason)" by (simp add: status_line_def)
qed (simp_all add: has_name_def status_line_def starts_with_def to_ascii_lowercase_def ascii_lower_def)

lemma length_line_ok_line: "header_line (length_line n)"
proof -
  have "header_line ((''Content-Length: '' @ show_nat n) @ crlf)"
    using word_ascii [OF word_show_nat] word_no_newline [OF word_show_nat]
    by (intro ascii_header_line) simp_all
  then show ?thesis by (simp add: length_line_def)
qed

lemma length_line_value:
  assumes "n < 2 ^ 64"
  shows "length_of (length_line n) m = n"
proof -
  have name: "to_ascii_lowercase ''Content-Length:'' = ''content-length:''" by code_simp
  have "to_ascii_lowercase (length_line n) = ''content-length:'' @ to_ascii_lowercase ('' '' @ show_nat n @ crlf)"
    using name by (simp add: length_line_def to_ascii_lowercase_def)
  then have "starts_with (to_ascii_lowercase (length_line n)) ''content-length:''"
    by (simp only: starts_with_append)
  moreover have "drop (length ''content-length:'') (length_line n) = '' '' @ show_nat n @ crlf"
    by (simp add: length_line_def)
  then have "header_value ''content-length:'' (length_line n) = show_nat n"
    using trim_field [OF word_show_nat, of n] trim_end_matches_graphic [OF word_show_nat, of crlf n]
      trim_end_matches_graphic [OF word_show_nat, of "[CHR 0x0A]" n]
    by (simp add: header_value_def graphic_def crlf_def)
  moreover have "parse_usize (show_nat n) = Some n"
    using assms by (simp add: parse_usize_def parse_uint_show)
  ultimately show ?thesis by (simp add: length_of_def content_length_value_def)
qed

definition response :: "u16 \<Rightarrow> string \<Rightarrow> string list \<Rightarrow> bytes \<Rightarrow> bytes" where
  "response code reason extra body =
     as_bytes (concat (status_line code reason # length_line (length body) # extra) @ crlf) @ body"

lemma response_read:
  assumes "is_ascii reason" "CHR 0x0A \<notin> set reason"
    and "list_all header_line extra" "list_all (\<lambda>l. \<not> has_name ''content-length:'' l) extra"
    and "length body < 2 ^ 63"
  shows "http_get_via_proxy True True host path (response code reason extra body @ rest) fin =
     (as_bytes (get_request path host), Ready (Some (code, body)))"
proof -
  let ?ini = "\<lparr>header_text = [], status_code = 0, content_length = 0\<rparr>"
  let ?lines = "status_line code reason # length_line (length body) # extra"
  let ?st = "fold proxy_resp_line ?lines ?ini"
  note ok = status_line_ok [OF assms(1,2), of code]
  have loop: "proxy_resp_loop (as_bytes (concat ?lines @ crlf) @ body @ rest) fin ?ini = Ready (?st, body @ rest)"
    using ok length_line_ok_line assms(3) by (intro proxy_resp_loop_lines) simp
  have "status_code ?st = code" "content_length ?st = length body"
    using ok fold_other_lines [OF assms(4)] assms(5) length_line_value [of "length body"]
    by (simp_all add: proxy_resp_line_def status_line_status)
  moreover have "read_body (length body) (body @ rest) fin = Ready (Some body)"
    using assms(5) by (auto simp: read_body_def)
  ultimately show ?thesis
    using loop by (simp add: http_get_via_proxy_def response_def)
qed

text \<open>The answers that exist in the program have this form.\<close>

lemma plain_line: "header_line (''Connection: close'' @ crlf)" "\<not> has_name ''content-length:'' (''Connection: close'' @ crlf)"
proof -
  show "header_line (''Connection: close'' @ crlf)" by (rule ascii_header_line) simp_all
  show "\<not> has_name ''content-length:'' (''Connection: close'' @ crlf)" by code_simp
qed

lemma answers_are_responses:
  "as_bytes ok_response = response 200 ''OK'' [''Connection: close'' @ crlf] (as_bytes ''I am running'')"
  "as_bytes not_found_response = response 404 ''Not Found'' [''Connection: close'' @ crlf] []"
  "bad_gateway = response 502 ''Bad Gateway'' [] []"
  "upstream_head @ upstream_body = response 200 ''OK'' [''Connection: close'' @ crlf] upstream_body"
  by code_simp+

subsection \<open>Requests\<close>

definition request_lines :: "string \<Rightarrow> string \<Rightarrow> string list \<Rightarrow> string list" where
  "request_lines start host extra = [start @ crlf, ''Host: '' @ host @ crlf] @ extra"

lemma host_line:
  assumes "word host"
  shows "header_line (''Host: '' @ host @ crlf)" "has_name ''host:'' (''Host: '' @ host @ crlf)"
    and "\<not> has_name ''content-length:'' (''Host: '' @ host @ crlf)"
    and "host_value (''Host: '' @ host @ crlf) = (if CHR '':'' \<in> set host then host else host @ '':80'')"
proof -
  have name: "to_ascii_lowercase ''Host:'' = ''host:''" by code_simp
  have lower: "to_ascii_lowercase (''Host: '' @ host @ crlf) = ''host:'' @ to_ascii_lowercase ('' '' @ host @ crlf)"
    using name by (simp add: to_ascii_lowercase_def)
  then show "has_name ''host:'' (''Host: '' @ host @ crlf)"
    "\<not> has_name ''content-length:'' (''Host: '' @ host @ crlf)"
    by (simp_all add: has_name_def starts_with_def)
  have "header_line ((''Host: '' @ host) @ crlf)"
    using word_ascii [OF assms] word_no_newline [OF assms] by (intro ascii_header_line) simp_all
  then show "header_line (''Host: '' @ host @ crlf)" by simp
  have "drop (length ''host:'') (''Host: '' @ host @ crlf) = '' '' @ host @ crlf" by simp
  then have "header_value ''host:'' (''Host: '' @ host @ crlf) = host"
    using trim_field [OF assms] trim_end_matches_graphic [OF assms, of crlf]
      trim_end_matches_graphic [OF assms, of "[CHR 0x0A]"]
    by (simp add: header_value_def graphic_def crlf_def)
  then show "host_value (''Host: '' @ host @ crlf) = (if CHR '':'' \<in> set host then host else host @ '':80'')"
    by (simp add: host_value_def Let_def)
qed

text \<open>The port a request gets when its target has none.\<close>

definition with_port :: "string \<Rightarrow> string" where
  "with_port host = (if CHR '':'' \<in> set host then host else host @ '':80'')"

lemma request_parsed:
  assumes "word host" "header_line (start @ crlf)"
    and "list_all (\<lambda>l. header_line l \<and> \<not> has_name ''host:'' l \<and> \<not> has_name ''content-length:'' l) ((start @ crlf) # extra)"
    and "length (concat (request_lines start host extra)) + 2 \<le> MAX_HEADER_BYTES"
  shows "parse_request_header (as_bytes (concat (request_lines start host extra) @ crlf) @ rest) fin =
     Ready (Some ((with_port host, concat (request_lines start host extra) @ crlf, []), rest))"
proof -
  let ?lines = "request_lines start host extra"
  note h = host_line [OF assms(1)]
  have lines: "list_all header_line ?lines" "list_all length_line_ok ?lines"
    using assms(3) h by (auto simp: request_lines_def list_all_iff length_line_ok_def)
  have none: "filter (has_name ''host:'') extra = []" "filter (has_name ''content-length:'') extra = []"
    using assms(3) by (auto simp: list_all_iff filter_empty_conv)
  have "host_of ?lines [] = with_port host" "content_length_of ?lines 0 = 0"
    using assms(3) h none by (simp_all add: request_lines_def with_port_def host_of_def content_length_of_def)
  with header_loop_lines [OF lines, of req_init rest fin] assms(4) show ?thesis
    by (simp add: parse_request_header_def req_init_def)
qed

lemma start_line:
  assumes "word t" "m = ''GET '' \<or> m = ''CONNECT ''"
  shows "header_line ((m @ t @ '' HTTP/1.1'') @ crlf)" "\<not> has_name ''host:'' ((m @ t @ '' HTTP/1.1'') @ crlf)"
    "\<not> has_name ''content-length:'' ((m @ t @ '' HTTP/1.1'') @ crlf)"
proof -
  show "header_line ((m @ t @ '' HTTP/1.1'') @ crlf)"
    using assms(2) word_ascii [OF assms(1)] word_no_newline [OF assms(1)] by (intro ascii_header_line) auto
  have low: "to_ascii_lowercase ''GET '' = ''get ''" "to_ascii_lowercase ''CONNECT '' = ''connect ''" by code_simp+
  have app: "to_ascii_lowercase (xs @ ys) = to_ascii_lowercase xs @ to_ascii_lowercase ys" for xs ys
    by (simp add: to_ascii_lowercase_def)
  show "\<not> has_name ''host:'' ((m @ t @ '' HTTP/1.1'') @ crlf)"
    "\<not> has_name ''content-length:'' ((m @ t @ '' HTTP/1.1'') @ crlf)"
    using assms(2) unfolding has_name_def append_assoc app by (auto simp: low starts_with_def)
qed

lemma get_request_lines:
  "get_request path host = concat (request_lines (''GET '' @ path @ '' HTTP/1.1'') host [''Connection: close'' @ crlf]) @ crlf"
  by (simp add: get_request_def request_lines_def)

lemma connect_request_lines:
  "connect_request target = concat (request_lines (''CONNECT '' @ target @ '' HTTP/1.1'') target []) @ crlf"
  by (simp add: connect_request_def request_lines_def)

lemma get_request_parsed:
  assumes "word path" "word host" "length (get_request path host) \<le> MAX_HEADER_BYTES"
  shows "parse_request_header (as_bytes (get_request path host) @ rest) fin =
     Ready (Some ((with_port host, get_request path host, []), rest))"
proof -
  have "\<not> has_name ''host:'' (''Connection: close'' @ crlf)" by code_simp
  then show ?thesis
    unfolding get_request_lines
    using assms start_line [OF assms(1), of "''GET ''"] plain_line
    by (intro request_parsed) (simp_all add: get_request_lines crlf_def)
qed

lemma connect_request_parsed:
  assumes "word target" "length (connect_request target) \<le> MAX_HEADER_BYTES"
  shows "parse_request_header (as_bytes (connect_request target) @ rest) fin =
     Ready (Some ((with_port target, connect_request target, []), rest))"
  unfolding connect_request_lines
  using assms start_line [OF assms(1), of "''CONNECT ''"]
  by (intro request_parsed) (simp_all add: connect_request_lines crlf_def)

subsection \<open>The answers to CONNECT\<close>

definition single_head :: "bytes \<Rightarrow> bool" where
  "single_head bs \<longleftrightarrow> length bs \<le> 256 \<and> ends_with bs blank_line \<and>
     list_all (\<lambda>n. \<not> contains_str (take n bs) blank_line) [0..<length bs]"

lemma connect_loop_single:
  assumes "single_head bs" "concat chunks = bs" "[] \<notin> set chunks"
  shows "connect_loop chunks fin [] = Some (Ready (Some (bs, [])))"
proof -
  from assms(1) obtain p where p: "bs = p @ blank_line" by (auto simp: single_head_def ends_with_iff)
  have "bs \<noteq> []" using p blank_line_length by auto
  then have "chunks \<noteq> []" using assms(2) by auto
  moreover have "\<And>n. n < length (p @ blank_line) \<Longrightarrow> \<not> contains_str (take n (p @ blank_line)) blank_line"
    using assms(1) unfolding single_head_def p list_all_iff by simp
  moreover have "length (p @ blank_line) \<le> 256" using assms(1) unfolding single_head_def p by simp
  ultimately show ?thesis
    using connect_loop_answer [of chunks "[]" p fin] assms(2,3) p by simp
qed

lemma proxy_answers_single: "single_head connection_established" "single_head bad_gateway"
  by code_simp+

lemma proxy_answers_text:
  "from_utf8 connection_established = Some (''HTTP/1.1 200 Connection established'' @ crlf @ crlf)"
  "from_utf8 bad_gateway = Some (''HTTP/1.1 502 Bad Gateway'' @ crlf @ ''Content-Length: 0'' @ crlf @ crlf)"
  unfolding connection_established_def bad_gateway_def
  by (rule from_utf8_as_bytes, rule ascii_valid_str, simp add: crlf_def)+

subsection \<open>Addresses in the health check\<close>

text \<open>Text without the letter w cannot be taken for an upgrade request.\<close>

definition no_w :: "string \<Rightarrow> bool" where
  "no_w s \<longleftrightarrow> list_all (\<lambda>c. (of_char c :: nat) \<noteq> 87 \<and> (of_char c :: nat) \<noteq> 119) s"

lemma no_w_simps [simp]:
  "no_w []" "no_w (c # s) \<longleftrightarrow> (of_char c :: nat) \<noteq> 87 \<and> (of_char c :: nat) \<noteq> 119 \<and> no_w s"
  "no_w (s @ t) \<longleftrightarrow> no_w s \<and> no_w t"
  by (auto simp: no_w_def)

lemma no_w_show_nat [simp]: "no_w (show_nat n)"
  using show_nat_range by (fastforce simp: no_w_def list_all_iff)

lemma no_w_not_websocket: "no_w s \<Longrightarrow> \<not> is_websocket (as_bytes s)"
proof
  assume w: "no_w s" and "is_websocket (as_bytes s)"
  then obtain t u where "map ascii_lower s = t @ ''websocket'' @ u"
    by (auto simp: is_websocket_def contains_str_iff)
  then have "CHR ''w'' \<in> set (map ascii_lower s)" by (simp del: set_map)
  then obtain c where c: "c \<in> set s" "ascii_lower c = CHR ''w''" by (metis imageE set_map)
  then have "(of_char (ascii_lower c) :: nat) = 119" by simp
  with c(1) w show False by (auto simp: of_char_ascii_lower no_w_def list_all_iff split: if_splits)
qed

definition v4_socket_addr :: "u8 \<Rightarrow> u8 \<Rightarrow> u8 \<Rightarrow> u8 \<Rightarrow> u16 \<Rightarrow> string" where
  "v4_socket_addr a b c d port = show_v4 a b c d @ '':'' @ show_u16 port"

lemma no_w_get_request: "no_w (get_request ''/'' (v4_socket_addr a b c d port))"
  by (simp add: get_request_def v4_socket_addr_def show_v4_def show_u16_def crlf_def)

subsection \<open>Properties\<close>

text \<open>A response with a status line, a Content-Length line, further header lines and a body is read
  by both HTTP clients of the tests as exactly that status and that body, whatever follows it on the
  connection.\<close>

theorem fixture_reads_response:
  assumes "is_ascii reason" and "CHR 0x0A \<notin> set reason"
    and "list_all header_line extra" and "list_all (\<lambda>l. \<not> has_name ''content-length:'' l) extra"
    and "length body < 2 ^ 63"
  shows "snd (http_get_via_proxy True True host path (response code reason extra body @ rest) fin) =
       Ready (Some (code, body)) \<and>
     snd (http_get_direct True True addr (response code reason extra body @ rest) fin) =
       Ready (Some (code, from_utf8_lossy body))"
  using response_read [OF assms] http_get_agree [where host = host and path = path] by simp

theorem fixture_reads_response_witness:
  "snd (http_get_via_proxy True True ''a.com'' ''/'' bad_gateway StillOpen) = Ready (Some (502, []))"
  using fixture_reads_response [of "''Bad Gateway''" "[]" "[]" "''a.com''" "''/''" 502 "[]" StillOpen]
  by (simp add: answers_are_responses)

text \<open>The health check of the tests: the request that \<open>http_get_direct\<close> writes to the address of the
  server is not taken for a WebSocket upgrade and is answered by the server with the health
  response, which \<open>http_get_direct\<close> reads as status 200 with the text of that response.\<close>

theorem health_check_answered:
  "\<exists>req. fst (http_get_direct True True (v4_socket_addr a b c d port) bs fin) = req \<and>
     accept_connection (Some req) handshake = Reply ok_response \<and>
     snd (http_get_direct True True (v4_socket_addr a b c d port) (as_bytes ok_response) fin) =
       Ready (Some (200, ''I am running''))"
proof (intro exI conjI)
  let ?addr = "v4_socket_addr a b c d port"
  have req: "fst (http_get_direct True True ?addr bs fin) = as_bytes (get_request ''/'' ?addr)"
    by (simp add: http_get_direct_def)
  have get: "starts_with (as_bytes (get_request ''/'' ?addr)) (as_bytes ''GET / '')"
    by (simp add: get_request_def as_bytes_def starts_with_def)
  have ne: "as_bytes (get_request ''/'' ?addr) \<noteq> []" by (simp add: get_request_def as_bytes_def)
  show "accept_connection (Some (fst (http_get_direct True True ?addr bs fin))) handshake = Reply ok_response"
    using no_w_not_websocket [OF no_w_get_request, of a b c d port] get ne
    by (simp add: req accept_connection_def)
  have "valid_str ''I am running''" by (rule ascii_valid_str) simp
  then show "snd (http_get_direct True True ?addr (as_bytes ok_response) fin) = Ready (Some (200, ''I am running''))"
    using response_read [of "''OK''" "[''Connection: close'' @ crlf]" "as_bytes ''I am running''" "[]" "[]" 200 "[]" fin]
      plain_line http_get_agree [of True True ?addr "as_bytes ok_response" fin "[]" "[]"]
    by (simp add: answers_are_responses from_utf8_lossy_valid)
qed (rule refl)

text \<open>A GET of the tests through the proxy: the client proxy parses the request to the host that was
  asked for, with port 80 when it has none, and forwards the request unchanged; the upstream
  fixture, in whatever pieces it receives those bytes, answers, and the answer is read as status 200
  with the body the fixture sends.\<close>

theorem fixture_get_round_trip:
  assumes "word path" and "word host" and "length (get_request path host) \<le> 4096"
    and "concat chunks = as_bytes (get_request path host)" and "[] \<notin> set chunks"
  shows "fst (http_get_via_proxy True True host path bs fin) = as_bytes (get_request path host) \<and>
     parse_request_header (as_bytes (get_request path host)) StillOpen =
       Ready (Some ((if CHR '':'' \<in> set host then host else host @ '':80'', get_request path host, []), [])) \<and>
     http_upstream_task chunks fin' True True =
       Ready [ETcpWrite upstream_head True, ETcpWrite upstream_body True] \<and>
     snd (http_get_via_proxy True True host path (upstream_head @ upstream_body) fin) =
       Ready (Some (200, as_bytes ''hello-upstream''))"
proof (intro conjI)
  show "fst (http_get_via_proxy True True host path bs fin) = as_bytes (get_request path host)"
    by (simp add: http_get_via_proxy_def)
  show "parse_request_header (as_bytes (get_request path host)) StillOpen =
      Ready (Some ((if CHR '':'' \<in> set host then host else host @ '':80'', get_request path host, []), []))"
    using get_request_parsed [OF assms(1,2), of "[]" StillOpen] assms(3)
    by (simp add: with_port_def MAX_HEADER_BYTES_def)
  have "get_request path host =
      (''GET '' @ path @ '' HTTP/1.1'' @ crlf @ ''Host: '' @ host @ crlf @ ''Connection: close'') @ crlf @ crlf"
    by (simp add: get_request_def)
  then have "\<exists>t. as_bytes (get_request path host) = t @ blank_line @ []"
    unfolding blank_line_def by (metis append_Nil2 as_bytes_append)
  then have "contains_str (as_bytes (get_request path host)) blank_line"
    unfolding contains_str_iff by blast
  moreover have "\<not> contains_str [] blank_line" using blank_line_length by (cases blank_line) auto
  ultimately have "upstream_drain chunks fin' [] = Ready True"
    using upstream_drain_iff [OF assms(5), of "[]" fin'] assms(3,4) by simp
  then show "http_upstream_task chunks fin' True True =
      Ready [ETcpWrite upstream_head True, ETcpWrite upstream_body True]"
    by (simp add: http_upstream_task_def)
  show "snd (http_get_via_proxy True True host path (upstream_head @ upstream_body) fin) =
      Ready (Some (200, as_bytes ''hello-upstream''))"
    using response_read [of "''OK''" "[''Connection: close'' @ crlf]" upstream_body host path 200 "[]" fin] plain_line
    by (simp add: answers_are_responses) (simp add: upstream_body_def)
qed

theorem fixture_get_round_trip_witness:
  "parse_request_header (as_bytes (get_request ''/x'' ''a.com'')) StillOpen =
     Ready (Some ((''a.com:80'', get_request ''/x'' ''a.com'', []), []))"
proof -
  have "word ''/x''" "word ''a.com''" "length (get_request ''/x'' ''a.com'') \<le> 4096" by code_simp+
  moreover have "concat [as_bytes (get_request ''/x'' ''a.com'')] = as_bytes (get_request ''/x'' ''a.com'')"
    by simp
  moreover have "[] \<notin> set [as_bytes (get_request ''/x'' ''a.com'')]" by (simp add: get_request_def as_bytes_def)
  ultimately have "parse_request_header (as_bytes (get_request ''/x'' ''a.com'')) StillOpen =
      Ready (Some ((if CHR '':'' \<in> set ''a.com'' then ''a.com'' else ''a.com'' @ '':80'',
        get_request ''/x'' ''a.com'', []), []))"
    using fixture_get_round_trip [where path = "''/x''" and host = "''a.com''" and
        chunks = "[as_bytes (get_request ''/x'' ''a.com'')]"] by blast
  then show ?thesis by simp
qed

text \<open>A CONNECT of the tests: the client proxy parses the request to its target; the answer 200, in
  whatever pieces it arrives, opens the tunnel with nothing of it left unread, and the answer 502 is a
  panic. But if the connection ends before a blank line has arrived, the helper never returns:
  its loop goes on reading at the end of input.\<close>

theorem fixture_connect:
  assumes "word target" and "length (connect_request target) \<le> MAX_HEADER_BYTES" and "[] \<notin> set chunks"
  shows "parse_request_header (as_bytes (connect_request target)) StillOpen =
       Ready (Some ((if CHR '':'' \<in> set target then target else target @ '':80'', connect_request target, []), [])) \<and>
     (concat chunks = connection_established \<longrightarrow>
       connect_via_proxy True True target chunks fin = (as_bytes (connect_request target), Some (Ready (Some [])))) \<and>
     (concat chunks = bad_gateway \<longrightarrow>
       connect_via_proxy True True target chunks fin = (as_bytes (connect_request target), Some (Ready None))) \<and>
     (\<not> contains_str (concat chunks) blank_line \<longrightarrow>
       connect_via_proxy True True target chunks Eof = (as_bytes (connect_request target), None))"
proof (intro conjI impI)
  show "parse_request_header (as_bytes (connect_request target)) StillOpen =
      Ready (Some ((if CHR '':'' \<in> set target then target else target @ '':80'', connect_request target, []), []))"
    using connect_request_parsed [OF assms(1,2), of "[]" StillOpen] by (simp add: with_port_def)
next
  assume "concat chunks = connection_established"
  moreover have "contains_str (''HTTP/1.1 200 Connection established'' @ crlf @ crlf) ''200''" by code_simp
  ultimately show "connect_via_proxy True True target chunks fin =
      (as_bytes (connect_request target), Some (Ready (Some [])))"
    using connect_loop_single [OF proxy_answers_single(1) _ assms(3)]
    by (simp add: connect_via_proxy_def proxy_answers_text)
next
  assume "concat chunks = bad_gateway"
  moreover have "\<not> contains_str (''HTTP/1.1 502 Bad Gateway'' @ crlf @ ''Content-Length: 0'' @ crlf @ crlf) ''200''"
    by code_simp
  ultimately show "connect_via_proxy True True target chunks fin =
      (as_bytes (connect_request target), Some (Ready None))"
    using connect_loop_single [OF proxy_answers_single(2) _ assms(3)]
    by (simp add: connect_via_proxy_def proxy_answers_text)
next
  assume "\<not> contains_str (concat chunks) blank_line"
  then show "connect_via_proxy True True target chunks Eof = (as_bytes (connect_request target), None)"
    using connect_loop_eof [of chunks "[]"] assms(3) by (simp add: connect_via_proxy_def)
qed

theorem fixture_connect_witness:
  "connect_via_proxy True True ''a.com:443'' [take 9 connection_established, drop 9 connection_established] StillOpen =
     (as_bytes (connect_request ''a.com:443''), Some (Ready (Some []))) \<and>
   connect_via_proxy True True ''a.com:443'' [] Eof = (as_bytes (connect_request ''a.com:443''), None)"
proof
  have target: "word ''a.com:443''" "length (connect_request ''a.com:443'') \<le> MAX_HEADER_BYTES" by code_simp+
  have "[] \<notin> set [take 9 connection_established, drop 9 connection_established]" by code_simp
  from fixture_connect [OF target this, of StillOpen]
  show "connect_via_proxy True True ''a.com:443'' [take 9 connection_established, drop 9 connection_established] StillOpen =
      (as_bytes (connect_request ''a.com:443''), Some (Ready (Some [])))" by simp
  have "\<not> contains_str (concat []) blank_line" by code_simp
  with fixture_connect [OF target, of "[]" Eof]
  show "connect_via_proxy True True ''a.com:443'' [] Eof = (as_bytes (connect_request ''a.com:443''), None)" by simp
qed

text \<open>A SOCKS5 connect of the tests to \<open>host:port\<close>, for a host of less than 256 bytes: the parser of
  the proxy accepts exactly the bytes the helper writes, selects NO\_AUTH and returns that target;
  with this selection and the proxy's success reply, the helper returns a stream from which
  only what follows the reply is unread; any other reply is a panic.\<close>

theorem fixture_socks5:
  assumes "valid_str host" and "length host < 256"
  shows "\<exists>w. fst (connect_via_socks5 True True True (host @ '':'' @ show_u16 port) ([5, 0] @ socks5_reply rep @ rest) fin) = w \<and>
     parse_socks5_request True w StillOpen = ([5, 0], Ready (Some (host @ '':'' @ show_u16 port, []))) \<and>
     snd (connect_via_socks5 True True True (host @ '':'' @ show_u16 port) ([5, 0] @ socks5_reply rep @ rest) fin) =
       Ready (if rep = 0 then Some ((), rest) else None)"
proof (intro exI conjI)
  let ?target = "host @ '':'' @ show_u16 port"
  let ?w = "socks_greeting [0] @ socks_request 1 0 (TDomain host) port"
  have split: "rsplit_once (CHR '':'') ?target = Some (host, show_u16 port)" by simp
  have sel: "read_exact 2 ([5, 0] @ socks5_reply rep @ rest) fin = Ready (Some ([5, 0], socks5_reply rep @ rest))"
    by (rule read_exact_append) simp
  have reply: "read_exact 10 (socks5_reply rep @ rest) fin = Ready (Some (socks5_reply rep, rest))"
    by (rule read_exact_append) (simp add: socks5_reply_def)
  have run: "connect_via_socks5 True True True ?target ([5, 0] @ socks5_reply rep @ rest) fin =
      (?w, Ready (if rep = 0 then Some ((), rest) else None))"
    unfolding connect_via_socks5_def split
    using sel reply
    by (auto simp: Let_def socks_greeting_def socks_request_def socks5_reply_def socks_consts)
  then show "snd (connect_via_socks5 True True True ?target ([5, 0] @ socks5_reply rep @ rest) fin) =
      Ready (if rep = 0 then Some ((), rest) else None)" by simp
  have "parse_socks5_request True (?w @ []) StillOpen = ([5, 0], Ready (Some (?target, [])))"
    using parse_socks5_complete [of "[0]" "TDomain host" 0 port "[]" StillOpen] assms by simp
  then show "parse_socks5_request True (fst (connect_via_socks5 True True True ?target
        ([5, 0] @ socks5_reply rep @ rest) fin)) StillOpen = ([5, 0], Ready (Some (?target, [])))"
    using run by simp
qed (rule refl)

theorem fixture_socks5_witness:
  "snd (connect_via_socks5 True True True (''a.com'' @ '':'' @ show_u16 80) ([5, 0] @ socks5_reply 0 @ [7]) Eof) =
     Ready (Some ((), [7]))"
proof -
  have "valid_str ''a.com''" "length ''a.com'' < 256" by (rule ascii_valid_str, simp_all)
  from fixture_socks5 [OF this, of 80 0 "[7]" Eof] show ?thesis by auto
qed

end
