(* ===== verification/Flow.thy ===== *)
theory Flow
  imports Tunnel_System
begin

text \<open>
  Both ends of a mux connection with their bounded channels (\<open>session.rs\<close>, \<open>channel::bounded\<close>): the frame
  channel in front of each writer loop and the channel of each stream. A send waits while the
  channel is full, a receiver takes what was accepted, in order. What \<open>chan_contract\<close> assumes of
  the library is proved here of this operational model, and the capacities show: a local program
  or target that stops reading holds up the reader loop, and with it every other stream.
\<close>

subsection \<open>A session that passes data on\<close>

text \<open>
  What a session does with its stream channels: only the reader loop sends into them, it waits in
  \<open>route\<close> for a send that is not accepted, and it reads nothing meanwhile. Dropped receivers stay
  dropped, and the frame channel accepts one frame at a time.
\<close>

definition appends_one :: "(cid \<Rightarrow> bytes list) \<Rightarrow> (cid \<Rightarrow> bytes list) \<Rightarrow> bool" where
  "appends_one f g \<longleftrightarrow> g = f \<or> (\<exists>c d. g = f(c := f c @ [d]))"

lemma appends_one_simps [simp]: "appends_one f f" "appends_one f (f(c := f c @ [d]))"
  by (auto simp: appends_one_def)

locale data_session =
  fixes inv :: "'s \<Rightarrow> bool"
    and step :: "'s \<Rightarrow> 's \<Rightarrow> bool"
    and sent :: "'s \<Rightarrow> cid \<Rightarrow> bytes list"
    and gone :: "'s \<Rightarrow> cid set"
    and todo :: "'s \<Rightarrow> effect list"
    and unread :: "'s \<Rightarrow> ws_item list"
    and handed :: "'s \<Rightarrow> frame list"
  assumes inv_step: "inv s \<Longrightarrow> step s t \<Longrightarrow> inv t"
    and data_step: "step s t \<Longrightarrow> appends_one (sent s) (sent t)"
    and wait_step: "inv s \<Longrightarrow> step s t \<Longrightarrow> todo s = EChanSend c d # es \<Longrightarrow> c \<notin> gone s \<Longrightarrow>
      sent t = (sent s)(c := sent s c @ [d]) \<or> sent t = sent s \<and> todo t = todo s \<and> unread t = unread s"
    and gone_step: "step s t \<Longrightarrow> gone s \<subseteq> gone t"
    and handed_step: "step s t \<Longrightarrow> handed t = handed s \<or> (\<exists>f. handed t = handed s @ [f])"
begin

lemma sent_grows:
  assumes "step s t"
  shows "prefix (sent s c) (sent t c)" "length (sent t c) \<le> Suc (length (sent s c))"
  using data_step [OF assms] by (auto simp: appends_one_def)

lemma handed_grows:
  assumes "step s t"
  shows "prefix (handed s) (handed t)" "length (handed t) \<le> Suc (length (handed s))"
  using handed_step [OF assms] by auto

text \<open>The reader waits for a full channel whose receiver is there.\<close>

definition waits :: "cid \<Rightarrow> nat \<Rightarrow> 's \<Rightarrow> bool" where
  "waits c received s \<longleftrightarrow>
     (\<exists>d es. todo s = EChanSend c d # es) \<and> c \<notin> gone s \<and> length (sent s c) = received + DATA_CHANNEL_CAP"

lemma waits_on:
  assumes "inv s" "step s t" "waits c received s" "length (sent t c) \<le> received + DATA_CHANNEL_CAP"
  shows "sent t = sent s \<and> todo t = todo s \<and> unread t = unread s"
proof -
  obtain d es where "todo s = EChanSend c d # es" "c \<notin> gone s"
    and full: "length (sent s c) = received + DATA_CHANNEL_CAP"
    using assms(3) by (auto simp: waits_def)
  from wait_step [OF assms(1,2) this(1,2)] show ?thesis
  proof
    assume "sent t = (sent s)(c := sent s c @ [d])"
    then have "length (sent t c) = Suc (received + DATA_CHANNEL_CAP)" using full by simp
    with assms(4) show ?thesis by simp
  qed
qed

end

lemma cl_task_no_data:
  assumes "cl_reachable items s" "c_tasks s = xs @ (i, e # es) # ys"
  shows "c_sent (cl_apply e s) = c_sent s"
proof -
  obtain consumed where "cl_inv consumed s" using cl_reachable_inv [OF assms(1)] by blast
  with assms(2) have "\<exists>sent acked. task_ok (c_owner s) (c_ackowner s) i sent acked (e # es)"
    by (auto simp: cl_inv_def task_inv_def)
  then show ?thesis by (cases e) (auto split: option.split)
qed

lemma cl_apply_gone [simp]: "c_gone (cl_apply e s) = c_gone s"
  by (cases e) (auto split: option.split)

lemma cl_apply_in [simp]: "c_in (cl_apply e s) = c_in s"
  by (cases e) (auto split: option.split)

lemma cl_apply_todo [simp]: "c_todo (cl_apply e s) = c_todo s"
  by (cases e) (auto split: option.split)

lemma cl_apply_sent: "appends_one (c_sent s) (c_sent (cl_apply e s))"
  by (cases e) (auto split: option.split)

lemma cl_apply_handed: "c_out (cl_apply e s) = c_out s \<or> (\<exists>f. c_out (cl_apply e s) = c_out s @ [f])"
  by (cases e) (auto split: option.split)

lemma cl_step_sent: "cl_step s t \<Longrightarrow> appends_one (c_sent s) (c_sent t)"
  by (induction rule: cl_step.induct) (use cl_apply_sent in \<open>auto simp: cl_accept_def\<close>)

lemma cl_step_wait:
  "cl_step s t \<Longrightarrow> cl_reachable items s \<Longrightarrow> c_todo s = EChanSend c d # es \<Longrightarrow> c \<notin> c_gone s \<Longrightarrow>
     c_sent t = (c_sent s)(c := c_sent s c @ [d]) \<or>
     c_sent t = c_sent s \<and> c_todo t = c_todo s \<and> c_in t = c_in s"
proof (induction rule: cl_step.induct)
  case (task_eff s xs i e es' ys)
  then show ?case using cl_task_no_data by simp
qed (auto simp: cl_accept_def)

lemma cl_step_gone: "cl_step s t \<Longrightarrow> c_gone s \<subseteq> c_gone t"
  by (induction rule: cl_step.induct) (auto simp: cl_accept_def)

lemma cl_step_handed: "cl_step s t \<Longrightarrow> c_out t = c_out s \<or> (\<exists>f. c_out t = c_out s @ [f])"
  by (induction rule: cl_step.induct) (use cl_apply_handed in \<open>auto simp: cl_accept_def\<close>)

interpretation cl_data: data_session "\<lambda>s. \<exists>items. cl_reachable items s" cl_step c_sent c_gone c_todo c_in c_out
  by unfold_locales (use cl_reachable.step cl_step_sent cl_step_wait cl_step_gone cl_step_handed in blast)+

lemma apply_eff_sent: "appends_one (s_sent s) (s_sent (apply_eff e s))"
  by (cases e) auto

lemma apply_eff_handed: "s_out (apply_eff e s) = s_out s \<or> (\<exists>f. s_out (apply_eff e s) = s_out s @ [f])"
  by (cases e) auto

lemma srv_step_sent: "srv_step s t \<Longrightarrow> appends_one (s_sent s) (s_sent t)"
  by (induction rule: srv_step.induct) (use apply_eff_sent in \<open>auto simp: cl_accept_def\<close>)

lemma srv_relay_no_data:
  assumes "srv_reachable items s" "s_relays s = xs @ (i, e # es) # ys"
  shows "s_sent (apply_eff e s) = s_sent s"
proof -
  have "relay_effect i e" using srv_reachable_inv [OF assms(1)] assms(2) by (simp add: srv_inv_def)
  then show ?thesis by (cases e) auto
qed

lemma srv_step_wait:
  "srv_step s t \<Longrightarrow> srv_reachable items s \<Longrightarrow> s_todo s = EChanSend c d # es \<Longrightarrow> c \<notin> s_gone s \<Longrightarrow>
     s_sent t = (s_sent s)(c := s_sent s c @ [d]) \<or>
     s_sent t = s_sent s \<and> s_todo t = s_todo s \<and> s_in t = s_in s"
proof (induction rule: srv_step.induct)
  case (relay_eff s xs i e es' ys)
  then show ?case using srv_relay_no_data by simp
qed auto

lemma srv_step_gone: "srv_step s t \<Longrightarrow> s_gone s \<subseteq> s_gone t"
  by (induction rule: srv_step.induct) auto

lemma srv_step_handed: "srv_step s t \<Longrightarrow> s_out t = s_out s \<or> (\<exists>f. s_out t = s_out s @ [f])"
  by (induction rule: srv_step.induct) (use apply_eff_handed in \<open>auto simp: cl_accept_def\<close>)

interpretation srv_data: data_session "\<lambda>s. \<exists>items. srv_reachable items s" srv_step s_sent s_gone s_todo s_in s_out
  by unfold_locales (use srv_reachable.step srv_step_sent srv_step_wait srv_step_gone srv_step_handed in blast)+

subsection \<open>The tunnel with its channels\<close>

text \<open>
  \<open>f_cgot\<close> and \<open>f_sgot\<close> count the values that were received from each stream channel, by the writer task
  of a local connection or of a target; \<open>f_ctaken\<close> and \<open>f_staken\<close> count the frames the writer loops
  have taken. An end reads only what the writer loop of the other end has taken.
\<close>

record flow =
  f_client :: cl_session
  f_server :: srv_session
  f_cgot :: "cid \<Rightarrow> nat"
  f_sgot :: "cid \<Rightarrow> nat"
  f_ctaken :: nat
  f_staken :: nat

definition flow_start :: "frame list \<Rightarrow> frame list \<Rightarrow> flow" where
  "flow_start up down =
     \<lparr>f_client = cl_init (wire_items down), f_server = srv_init (wire_items up),
      f_cgot = (\<lambda>_. 0), f_sgot = (\<lambda>_. 0), f_ctaken = 0, f_staken = 0\<rparr>"

definition fits :: "(cid \<Rightarrow> bytes list) \<Rightarrow> (cid \<Rightarrow> nat) \<Rightarrow> bool" where
  "fits sent got \<longleftrightarrow> (\<forall>c. length (sent c) \<le> got c + DATA_CHANNEL_CAP)"

inductive flow_step :: "frame list \<Rightarrow> frame list \<Rightarrow> flow \<Rightarrow> flow \<Rightarrow> bool" for up down where
  client:
    "cl_step (f_client f) cs \<Longrightarrow> causal down (c_in cs) (take (f_staken f) (s_out (f_server f))) \<Longrightarrow>
     fits (c_sent cs) (f_cgot f) \<Longrightarrow> length (c_out cs) \<le> f_ctaken f + FRAME_CHANNEL_CAP \<Longrightarrow>
     flow_step up down f (f\<lparr>f_client := cs\<rparr>)"
| server:
    "srv_step (f_server f) ss \<Longrightarrow> causal up (s_in ss) (take (f_ctaken f) (c_out (f_client f))) \<Longrightarrow>
     fits (s_sent ss) (f_sgot f) \<Longrightarrow> length (s_out ss) \<le> f_staken f + FRAME_CHANNEL_CAP \<Longrightarrow>
     flow_step up down f (f\<lparr>f_server := ss\<rparr>)"
| client_receive:
    "c \<notin> c_gone (f_client f) \<Longrightarrow> f_cgot f c < length (c_sent (f_client f) c) \<Longrightarrow>
     flow_step up down f (f\<lparr>f_cgot := (f_cgot f)(c := Suc (f_cgot f c))\<rparr>)"
| server_receive:
    "c \<notin> s_gone (f_server f) \<Longrightarrow> f_sgot f c < length (s_sent (f_server f) c) \<Longrightarrow>
     flow_step up down f (f\<lparr>f_sgot := (f_sgot f)(c := Suc (f_sgot f c))\<rparr>)"
| client_take:
    "c_writing (f_client f) \<Longrightarrow> f_ctaken f < length (c_out (f_client f)) \<Longrightarrow>
     flow_step up down f (f\<lparr>f_ctaken := Suc (f_ctaken f)\<rparr>)"
| server_take:
    "s_writing (f_server f) \<Longrightarrow> f_staken f < length (s_out (f_server f)) \<Longrightarrow>
     flow_step up down f (f\<lparr>f_staken := Suc (f_staken f)\<rparr>)"

abbreviation flow_steps :: "frame list \<Rightarrow> frame list \<Rightarrow> flow \<Rightarrow> flow \<Rightarrow> bool" where
  "flow_steps up down \<equiv> (flow_step up down)\<^sup>*\<^sup>*"

text \<open>Channels hold what was accepted and not yet received, and no more than their capacity.\<close>

definition flow_inv :: "frame list \<Rightarrow> frame list \<Rightarrow> flow \<Rightarrow> bool" where
  "flow_inv up down f \<longleftrightarrow>
     tun_reachable up down (f_client f, f_server f) \<and>
     fits (c_sent (f_client f)) (f_cgot f) \<and> fits (s_sent (f_server f)) (f_sgot f) \<and>
     length (c_out (f_client f)) \<le> f_ctaken f + FRAME_CHANNEL_CAP \<and>
     length (s_out (f_server f)) \<le> f_staken f + FRAME_CHANNEL_CAP \<and>
     causal up (s_in (f_server f)) (take (f_ctaken f) (c_out (f_client f))) \<and>
     causal down (c_in (f_client f)) (take (f_staken f) (s_out (f_server f)))"

lemma prefix_take: "prefix xs ys \<Longrightarrow> prefix (take n xs) (take n ys)"
  by (auto simp: prefix_def)

lemma prefix_take_Suc: "prefix (take n xs) (take (Suc n) xs)"
  by (simp add: prefix_def) (metis take_Suc_conv_app_nth append_Nil2 not_less take_all le_SucI)

lemma fits_receive: "fits sent got \<Longrightarrow> fits sent (got(c := Suc (got c)))"
  by (auto simp: fits_def intro: le_SucI)

lemma flow_step_inv: "flow_step up down f g \<Longrightarrow> flow_inv up down f \<Longrightarrow> flow_inv up down g"
proof (induction rule: flow_step.induct)
  case (client f cs)
  have "causal down (c_in cs) (s_out (f_server f))"
    using causal_mono [OF client(2)] by (simp add: take_is_prefix)
  then have "tun_reachable up down (cs, f_server f)"
    using client(1,5) by (auto simp: flow_inv_def intro: tun_reachable.client)
  moreover have "causal up (s_in (f_server f)) (take (f_ctaken f) (c_out cs))"
    using client(5) causal_mono [OF _ prefix_take [OF cl_step_out_prefix [OF client(1)]]]
    by (simp add: flow_inv_def)
  ultimately show ?case using client by (simp add: flow_inv_def)
next
  case (server f ss)
  have "causal up (s_in ss) (c_out (f_client f))"
    using causal_mono [OF server(2)] by (simp add: take_is_prefix)
  then have "tun_reachable up down (f_client f, ss)"
    using server(1,5) by (auto simp: flow_inv_def intro: tun_reachable.server)
  moreover have "causal down (c_in (f_client f)) (take (f_staken f) (s_out ss))"
    using server(5) causal_mono [OF _ prefix_take [OF srv_step_out_prefix [OF server(1)]]]
    by (simp add: flow_inv_def)
  ultimately show ?case using server by (simp add: flow_inv_def)
qed (auto simp: flow_inv_def fits_receive intro: causal_mono [OF _ prefix_take_Suc])

lemma flow_start_inv: "flow_inv up down (flow_start up down)"
proof -
  have "tun_reachable up down (f_client (flow_start up down), f_server (flow_start up down))"
    by (simp add: flow_start_def tun_reachable.start del: map_map)
  moreover have "causal fs (wire_items fs) handed" for fs handed
    by (rule causal_intro [of _ "[]"]) simp_all
  ultimately show ?thesis
    by (simp add: flow_inv_def flow_start_def fits_def cl_init_def srv_init_def del: map_map)
qed

lemma flow_steps_inv: "flow_steps up down f g \<Longrightarrow> flow_inv up down f \<Longrightarrow> flow_inv up down g"
  by (induction rule: rtranclp_induct) (blast intro: flow_step_inv)+

text \<open>Each is a first part of what was accepted.\<close>

lemma fits_fifo: "fits sent got \<Longrightarrow> fifo_chan DATA_CHANNEL_CAP (sent c) (take (got c) (sent c))"
  by (auto simp: fits_def fifo_chan_def take_is_prefix min_def)

lemma taken_fifo: "length out \<le> n + FRAME_CHANNEL_CAP \<Longrightarrow> fifo_chan FRAME_CHANNEL_CAP out (take n out)"
  by (auto simp: fifo_chan_def take_is_prefix min_def)

lemma one_more_fits:
  assumes "\<And>c. length (g c) \<le> Suc (length (f c))"
  shows "fits g (\<lambda>c. length (f c))"
  unfolding fits_def DATA_CHANNEL_CAP_def
proof
  fix c show "length (g c) \<le> length (f c) + 32" using assms [of c] by linarith
qed

lemma count_append: "(\<lambda>x. length (f x))(c := Suc (length (f c))) = (\<lambda>x. length ((f(c := f c @ [d])) x))"
  by auto

subsection \<open>Steps whose frames are taken and values received\<close>

text \<open>The writer loops take every frame; \<open>gc\<close> and \<open>gs\<close> values have been received of the streams.\<close>

definition filled :: "(cid \<Rightarrow> nat) \<Rightarrow> (cid \<Rightarrow> nat) \<Rightarrow> cl_session \<times> srv_session \<Rightarrow> flow" where
  "filled gc gs x =
     (case x of (cs, ss) \<Rightarrow>
        \<lparr>f_client = cs, f_server = ss, f_cgot = gc, f_sgot = gs,
         f_ctaken = length (c_out cs), f_staken = length (s_out ss)\<rparr>)"

lemma filled_start: "filled (\<lambda>_. 0) (\<lambda>_. 0) (cl_init (wire_items down), srv_init (wire_items up)) = flow_start up down"
  by (simp add: filled_def flow_start_def cl_init_def srv_init_def)

lemma filled_client:
  assumes "cl_step cs cs'" "causal down (c_in cs') (s_out ss)" "c_writing cs'" "fits (c_sent cs') gc"
  shows "flow_steps up down (filled gc gs (cs, ss)) (filled gc gs (cs', ss))"
proof -
  let ?f = "(filled gc gs (cs, ss))\<lparr>f_client := cs'\<rparr>"
  have f: "flow_step up down (filled gc gs (cs, ss)) ?f"
    using assms(2,4) cl_data.handed_grows(2) [OF assms(1)]
    by (intro flow_step.client) (simp_all add: filled_def assms(1) FRAME_CHANNEL_CAP_def)
  show ?thesis
  proof (cases "c_out cs' = c_out cs")
    case True
    then have "?f = filled gc gs (cs', ss)" by (simp add: filled_def)
    with f show ?thesis by auto
  next
    case False
    then obtain fr where fr: "c_out cs' = c_out cs @ [fr]" using cl_step_handed [OF assms(1)] by blast
    have "flow_step up down ?f (?f\<lparr>f_ctaken := Suc (f_ctaken ?f)\<rparr>)"
      by (rule flow_step.client_take) (simp_all add: filled_def assms(3) fr)
    moreover have "?f\<lparr>f_ctaken := Suc (f_ctaken ?f)\<rparr> = filled gc gs (cs', ss)"
      by (simp add: filled_def fr)
    ultimately show ?thesis using f by (metis converse_rtranclp_into_rtranclp r_into_rtranclp)
  qed
qed

lemma filled_server:
  assumes "srv_step ss ss'" "causal up (s_in ss') (c_out cs)" "s_writing ss'" "fits (s_sent ss') gs"
  shows "flow_steps up down (filled gc gs (cs, ss)) (filled gc gs (cs, ss'))"
proof -
  let ?f = "(filled gc gs (cs, ss))\<lparr>f_server := ss'\<rparr>"
  have f: "flow_step up down (filled gc gs (cs, ss)) ?f"
    using assms(2,4) srv_data.handed_grows(2) [OF assms(1)]
    by (intro flow_step.server) (simp_all add: filled_def assms(1) FRAME_CHANNEL_CAP_def)
  show ?thesis
  proof (cases "s_out ss' = s_out ss")
    case True
    then have "?f = filled gc gs (cs, ss')" by (simp add: filled_def)
    with f show ?thesis by auto
  next
    case False
    then obtain fr where fr: "s_out ss' = s_out ss @ [fr]" using srv_step_handed [OF assms(1)] by blast
    have "flow_step up down ?f (?f\<lparr>f_staken := Suc (f_staken ?f)\<rparr>)"
      by (rule flow_step.server_take) (simp_all add: filled_def assms(3) fr)
    moreover have "?f\<lparr>f_staken := Suc (f_staken ?f)\<rparr> = filled gc gs (cs, ss')"
      by (simp add: filled_def fr)
    ultimately show ?thesis using f by (metis converse_rtranclp_into_rtranclp r_into_rtranclp)
  qed
qed

text \<open>Nothing waits in a channel.\<close>

definition drained_flow :: "cl_session \<times> srv_session \<Rightarrow> flow" where
  "drained_flow x = filled (\<lambda>c. length (c_sent (fst x) c)) (\<lambda>c. length (s_sent (snd x) c)) x"

lemma drained_start: "drained_flow (cl_init (wire_items down), srv_init (wire_items up)) = flow_start up down"
  by (simp add: drained_flow_def filled_start [symmetric]) (simp add: cl_init_def srv_init_def)

lemma drained_client:
  assumes "cl_step cs cs'" "causal down (c_in cs') (s_out ss)" "c_writing cs'" "c_gone cs' = {}"
  shows "flow_steps up down (drained_flow (cs, ss)) (drained_flow (cs', ss))"
proof -
  let ?gs = "\<lambda>c. length (s_sent ss c)"
  let ?f = "filled (\<lambda>c. length (c_sent cs c)) ?gs (cs', ss)"
  have "flow_steps up down (drained_flow (cs, ss)) ?f"
    using filled_client [OF assms(1-3)] one_more_fits [OF cl_data.sent_grows(2) [OF assms(1)]]
    by (simp add: drained_flow_def)
  also have "flow_steps up down ?f (drained_flow (cs', ss))"
  proof (cases "c_sent cs' = c_sent cs")
    case False
    then obtain c d where c: "c_sent cs' = (c_sent cs)(c := c_sent cs c @ [d])"
      using cl_step_sent [OF assms(1)] by (auto simp: appends_one_def)
    have "flow_step up down ?f (?f\<lparr>f_cgot := (f_cgot ?f)(c := Suc (f_cgot ?f c))\<rparr>)"
      by (rule flow_step.client_receive) (simp_all add: filled_def assms(4) c)
    moreover have "?f\<lparr>f_cgot := (f_cgot ?f)(c := Suc (f_cgot ?f c))\<rparr> = drained_flow (cs', ss)"
      using count_append [of "c_sent cs" c d] by (simp add: filled_def drained_flow_def c)
    ultimately show ?thesis by (metis r_into_rtranclp)
  qed (simp add: drained_flow_def)
  finally show ?thesis .
qed

lemma drained_server:
  assumes "srv_step ss ss'" "causal up (s_in ss') (c_out cs)" "s_writing ss'" "s_gone ss' = {}"
  shows "flow_steps up down (drained_flow (cs, ss)) (drained_flow (cs, ss'))"
proof -
  let ?gc = "\<lambda>c. length (c_sent cs c)"
  let ?f = "filled ?gc (\<lambda>c. length (s_sent ss c)) (cs, ss')"
  have "flow_steps up down (drained_flow (cs, ss)) ?f"
    using filled_server [OF assms(1-3)] one_more_fits [OF srv_data.sent_grows(2) [OF assms(1)]]
    by (simp add: drained_flow_def)
  also have "flow_steps up down ?f (drained_flow (cs, ss'))"
  proof (cases "s_sent ss' = s_sent ss")
    case False
    then obtain c d where c: "s_sent ss' = (s_sent ss)(c := s_sent ss c @ [d])"
      using srv_step_sent [OF assms(1)] by (auto simp: appends_one_def)
    have "flow_step up down ?f (?f\<lparr>f_sgot := (f_sgot ?f)(c := Suc (f_sgot ?f c))\<rparr>)"
      by (rule flow_step.server_receive) (simp_all add: filled_def assms(4) c)
    moreover have "?f\<lparr>f_sgot := (f_sgot ?f)(c := Suc (f_sgot ?f c))\<rparr> = drained_flow (cs, ss')"
      using count_append [of "s_sent ss" c d] by (simp add: filled_def drained_flow_def c)
    ultimately show ?thesis by (metis r_into_rtranclp)
  qed (simp add: drained_flow_def)
  finally show ?thesis .
qed

subsection \<open>Runs from a state\<close>

definition tun_leads :: "frame list \<Rightarrow> frame list \<Rightarrow> cl_session \<times> srv_session \<Rightarrow> cl_session \<times> srv_session \<Rightarrow> bool" where
  "tun_leads up down x y \<longleftrightarrow> (\<exists>ms. tun_run up down ms x = Some y)"

lemma leads_refl: "tun_leads up down x x"
  unfolding tun_leads_def by (rule exI [of _ "[]"]) simp

lemma leads_trans [trans]: "tun_leads up down x y \<Longrightarrow> tun_leads up down y z \<Longrightarrow> tun_leads up down x z"
  unfolding tun_leads_def using tun_run_append by (metis option.simps(5))

lemma leads_reachable: "tun_leads up down x y \<Longrightarrow> tun_reachable up down x \<Longrightarrow> tun_reachable up down y"
  unfolding tun_leads_def using tun_run_reachable by blast

lemma leads_client:
  assumes "cl_move m cs = Some cs'" "prefix (take (length down - length (c_in cs')) down) (s_out ss)"
    and "tun_leads up down (cs', ss) y"
  shows "tun_leads up down (cs, ss) y"
proof -
  from assms(3) obtain ms where "tun_run up down ms (cs', ss) = Some y" by (auto simp: tun_leads_def)
  with assms show ?thesis unfolding tun_leads_def by (intro exI [of _ "Inl m # ms"]) simp
qed

lemma leads_server:
  assumes "srv_move m ss = Some ss'" "prefix (take (length up - length (s_in ss')) up) (c_out cs)"
    and "tun_leads up down (cs, ss') y"
  shows "tun_leads up down (cs, ss) y"
proof -
  from assms(3) obtain ms where "tun_run up down ms (cs, ss') = Some y" by (auto simp: tun_leads_def)
  with assms show ?thesis unfolding tun_leads_def by (intro exI [of _ "Inr m # ms"]) simp
qed

text \<open>The moves of such a run keep the writer loops and the receivers.\<close>

definition running :: "cl_session \<times> srv_session \<Rightarrow> bool" where
  "running x \<longleftrightarrow>
     (case x of (cs, ss) \<Rightarrow> c_writing cs \<and> s_writing ss \<and> c_gone cs = {} \<and> s_gone ss = {})"

lemma cl_apply_writing: "c_writing (cl_apply e s) = c_writing s"
  by (cases e) (auto split: option.split)

lemma cl_move_running: "cl_move m s = Some t \<Longrightarrow> c_writing t = c_writing s \<and> c_gone t = c_gone s"
  by (cases m)
     (auto simp: cl_accept_def cl_apply_writing split: if_splits prod.splits list.splits option.splits)

lemma apply_eff_writing: "s_writing (apply_eff e s) = s_writing s"
  by (cases e) auto

lemma srv_move_running: "srv_move m s = Some t \<Longrightarrow> s_writing t = s_writing s \<and> s_gone t = s_gone s"
  by (cases m)
     (auto simp: apply_eff_writing split: if_splits prod.splits list.splits option.splits effect.splits)

lemma run_flow:
  assumes "tun_run up down ms x = Some y" "tun_reachable up down x" "running x"
  shows "running y \<and> flow_steps up down (drained_flow x) (drained_flow y)"
  using assms
proof (induction ms arbitrary: x)
  case (Cons m ms)
  obtain cs ss where x: "x = (cs, ss)" by (cases x)
  from Cons.prems(1) obtain x' where x': "tun_run up down [m] x = Some x'" "tun_run up down ms x' = Some y"
    unfolding x by (cases m) (auto split: option.splits if_splits)
  have tun: "tun_reachable up down x'" using Cons.prems(2) x'(1) tun_run_reachable by blast
  have "running x' \<and> flow_steps up down (drained_flow x) (drained_flow x')"
  proof (cases m)
    case (Inl c)
    with x' x obtain cs' where c: "cl_move c cs = Some cs'" "x' = (cs', ss)"
      by (auto split: option.splits if_splits)
    with Cons.prems(3) have "running x'" using cl_move_running [OF c(1)] by (simp add: running_def x)
    with c tun_causal [OF tun] show ?thesis
      using drained_client [OF cl_move_step [OF c(1)]] by (simp add: running_def x)
  next
    case (Inr c)
    with x' x obtain ss' where c: "srv_move c ss = Some ss'" "x' = (cs, ss')"
      by (auto split: option.splits if_splits)
    with Cons.prems(3) have "running x'" using srv_move_running [OF c(1)] by (simp add: running_def x)
    with c tun_causal [OF tun] show ?thesis
      using drained_server [OF srv_move_step [OF c(1)]] by (simp add: running_def x)
  qed
  with Cons.IH [OF x'(2) tun] show ?case by (auto intro: rtranclp_trans)
qed simp

lemma leads_flow:
  "tun_leads up down x y \<Longrightarrow> tun_reachable up down x \<Longrightarrow> running x \<Longrightarrow>
     running y \<and> flow_steps up down (drained_flow x) (drained_flow y)"
  unfolding tun_leads_def using run_flow by blast

subsection \<open>A reader that waits for a full channel\<close>

lemma flow_step_mono:
  "flow_step up down f g \<Longrightarrow>
     f_cgot f c \<le> f_cgot g c \<and> f_sgot f c \<le> f_sgot g c \<and>
     c_gone (f_client f) \<subseteq> c_gone (f_client g) \<and> s_gone (f_server f) \<subseteq> s_gone (f_server g)"
  by (induction rule: flow_step.induct) (use cl_step_gone srv_step_gone in auto)

lemma flow_steps_mono:
  "flow_steps up down f g \<Longrightarrow>
     f_cgot f c \<le> f_cgot g c \<and> f_sgot f c \<le> f_sgot g c \<and>
     c_gone (f_client f) \<subseteq> c_gone (f_client g) \<and> s_gone (f_server f) \<subseteq> s_gone (f_server g)"
proof (induction rule: rtranclp_induct)
  case (step g h)
  from flow_step_mono [OF step(2), of c] step.IH show ?case by (auto intro: le_trans)
qed simp

text \<open>What a session has read and passed on.\<close>

definition same_client :: "flow \<Rightarrow> flow \<Rightarrow> bool" where
  "same_client f g \<longleftrightarrow>
     c_in (f_client g) = c_in (f_client f) \<and> c_sent (f_client g) = c_sent (f_client f) \<and>
     c_todo (f_client g) = c_todo (f_client f)"

definition same_server :: "flow \<Rightarrow> flow \<Rightarrow> bool" where
  "same_server f g \<longleftrightarrow>
     s_in (f_server g) = s_in (f_server f) \<and> s_sent (f_server g) = s_sent (f_server f) \<and>
     s_todo (f_server g) = s_todo (f_server f)"

lemma flow_inv_parts:
  "flow_inv up down f \<Longrightarrow> \<exists>items. cl_reachable items (f_client f)"
  "flow_inv up down f \<Longrightarrow> \<exists>items. srv_reachable items (f_server f)"
  unfolding flow_inv_def using tun_ends by fastforce+

lemma waits_client_step:
  assumes "flow_step up down f g" "flow_inv up down f" "cl_data.waits c (f_cgot f c) (f_client f)"
    and "f_cgot g c = f_cgot f c" "c \<notin> c_gone (f_client g)"
  shows "cl_data.waits c (f_cgot g c) (f_client g) \<and> same_client f g"
  using assms
proof (induction rule: flow_step.induct)
  case (client f cs)
  have "length (c_sent cs c) \<le> f_cgot f c + DATA_CHANNEL_CAP" using client(3) by (simp add: fits_def)
  from cl_data.waits_on [OF flow_inv_parts(1) [OF client(5)] client(1,6) this] client show ?case
    by (simp add: cl_data.waits_def same_client_def)
qed (auto simp: same_client_def)

lemma waits_server_step:
  assumes "flow_step up down f g" "flow_inv up down f" "srv_data.waits c (f_sgot f c) (f_server f)"
    and "f_sgot g c = f_sgot f c" "c \<notin> s_gone (f_server g)"
  shows "srv_data.waits c (f_sgot g c) (f_server g) \<and> same_server f g"
  using assms
proof (induction rule: flow_step.induct)
  case (server f ss)
  have "length (s_sent ss c) \<le> f_sgot f c + DATA_CHANNEL_CAP" using server(3) by (simp add: fits_def)
  from srv_data.waits_on [OF flow_inv_parts(2) [OF server(5)] server(1,6) this] server show ?case
    by (simp add: srv_data.waits_def same_server_def)
qed (auto simp: same_server_def)

lemma waits_client_steps:
  assumes "flow_steps up down f g" "flow_inv up down f" "cl_data.waits c (f_cgot f c) (f_client f)"
    and "f_cgot g c = f_cgot f c" "c \<notin> c_gone (f_client g)"
  shows "cl_data.waits c (f_cgot g c) (f_client g) \<and> same_client f g"
  using assms
proof (induction rule: rtranclp_induct)
  case (step g h)
  have got: "f_cgot g c = f_cgot f c"
    using flow_steps_mono [OF step(1), of c] flow_step_mono [OF step(2), of c] step(6) by simp
  have there: "c \<notin> c_gone (f_client g)" using flow_step_mono [OF step(2)] step(7) by blast
  from step.IH [OF step(4,5) got there] have g: "cl_data.waits c (f_cgot g c) (f_client g)" "same_client f g" by simp_all
  have "f_cgot h c = f_cgot g c" using got step(6) by simp
  from waits_client_step [OF step(2) flow_steps_inv [OF step(1,4)] g(1) this step(7)] g(2) show ?case
    by (simp add: same_client_def)
qed (simp add: same_client_def)

lemma waits_server_steps:
  assumes "flow_steps up down f g" "flow_inv up down f" "srv_data.waits c (f_sgot f c) (f_server f)"
    and "f_sgot g c = f_sgot f c" "c \<notin> s_gone (f_server g)"
  shows "srv_data.waits c (f_sgot g c) (f_server g) \<and> same_server f g"
  using assms
proof (induction rule: rtranclp_induct)
  case (step g h)
  have got: "f_sgot g c = f_sgot f c"
    using flow_steps_mono [OF step(1), of c] flow_step_mono [OF step(2), of c] step(6) by simp
  have there: "c \<notin> s_gone (f_server g)" using flow_step_mono [OF step(2)] step(7) by blast
  from step.IH [OF step(4,5) got there] have g: "srv_data.waits c (f_sgot g c) (f_server g)" "same_server f g" by simp_all
  have "f_sgot h c = f_sgot g c" using got step(6) by simp
  from waits_server_step [OF step(2) flow_steps_inv [OF step(1,4)] g(1) this step(7)] g(2) show ?case
    by (simp add: same_server_def)
qed (simp add: same_server_def)

lemma causal_unique:
  assumes "causal fs unread handed" "fs = read @ rest" "unread = wire_items rest"
  shows "prefix read handed"
proof -
  obtain read' rest' where r: "fs = read' @ rest'" "unread = wire_items rest'" "prefix read' handed"
    using assms(1) by (auto simp: causal_def)
  have "length rest = length rest'" using assms(3) r(2) by (metis length_map)
  with assms(2) r(1) have "read = read'" by simp
  with r(3) show ?thesis by simp
qed

subsection \<open>Properties\<close>

text \<open>C4: the tunnel with its bounded channels implements the tunnel: its sessions are those of a run of
  \<open>tun_reachable\<close>, every channel keeps the contract, and nothing is lost between the first frame
  handed over at one end and the last value received at the other: when the reader of an end is
  between two frames, and stream ids are not reused, what the writer task of a stream that is
  registered and has its receiver has received is the first part, up to the
  capacity, of the DATA payloads in the frames this end has read, which are the first frames that
  the writer loop of the other end has taken.\<close>

theorem bounded_channels_refine:
  assumes "flow_steps up down (flow_start up down) f" and "distinct (c_ids (f_client f))"
  defines "cs \<equiv> f_client f" and "ss \<equiv> f_server f"
  shows "tun_reachable up down (cs, ss) \<and>
     (\<forall>c. fifo_chan DATA_CHANNEL_CAP (c_sent cs c) (take (f_cgot f c) (c_sent cs c))) \<and>
     (\<forall>c. fifo_chan DATA_CHANNEL_CAP (s_sent ss c) (take (f_sgot f c) (s_sent ss c))) \<and>
     fifo_chan FRAME_CHANNEL_CAP (c_out cs) (take (f_ctaken f) (c_out cs)) \<and>
     fifo_chan FRAME_CHANNEL_CAP (s_out ss) (take (f_staken f) (s_out ss)) \<and>
     (\<forall>i c. s_todo ss = [] \<longrightarrow> inner (s_reg ss) i = Some c \<longrightarrow> c \<notin> s_gone ss \<longrightarrow>
       (\<exists>read unread. up = read @ unread \<and> s_in ss = wire_items unread \<and>
          prefix read (take (f_ctaken f) (c_out cs)) \<and> s_sent ss c = data_payloads i read)) \<and>
     (\<forall>i c. c_todo cs = [] \<longrightarrow> inner (c_reg cs) i = Some c \<longrightarrow> c \<notin> c_gone cs \<longrightarrow>
       (\<exists>read unread. down = read @ unread \<and> c_in cs = wire_items unread \<and>
          prefix read (take (f_staken f) (s_out ss)) \<and> c_sent cs c = data_payloads i read))"
proof (intro conjI allI impI)
  have inv: "flow_inv up down f" using flow_steps_inv [OF assms(1) flow_start_inv] .
  show tun: "tun_reachable up down (cs, ss)" using inv by (simp add: flow_inv_def cs_def ss_def)
  have taken: "causal up (s_in ss) (take (f_ctaken f) (c_out cs))" "causal down (c_in cs) (take (f_staken f) (s_out ss))"
    using inv by (simp_all add: flow_inv_def cs_def ss_def)
  show "fifo_chan DATA_CHANNEL_CAP (c_sent cs c) (take (f_cgot f c) (c_sent cs c))" for c
    using inv by (intro fits_fifo) (simp add: flow_inv_def cs_def)
  show "fifo_chan DATA_CHANNEL_CAP (s_sent ss c) (take (f_sgot f c) (s_sent ss c))" for c
    using inv by (intro fits_fifo) (simp add: flow_inv_def ss_def)
  show "fifo_chan FRAME_CHANNEL_CAP (c_out cs) (take (f_ctaken f) (c_out cs))"
    "fifo_chan FRAME_CHANNEL_CAP (s_out ss) (take (f_staken f) (s_out ss))"
    using inv by (intro taken_fifo, simp add: flow_inv_def cs_def ss_def)+
  note dist = assms(2) [folded cs_def]
  show "\<exists>read unread. up = read @ unread \<and> s_in ss = wire_items unread \<and>
      prefix read (take (f_ctaken f) (c_out cs)) \<and> s_sent ss c = data_payloads i read"
    if "s_todo ss = []" "inner (s_reg ss) i = Some c" "c \<notin> s_gone ss" for i c
    using tun_exact_up [OF tun dist that] causal_unique [OF taken(1)] by blast
  show "\<exists>read unread. down = read @ unread \<and> c_in cs = wire_items unread \<and>
      prefix read (take (f_staken f) (s_out ss)) \<and> c_sent cs c = data_payloads i read"
    if "c_todo cs = []" "inner (c_reg cs) i = Some c" "c \<notin> c_gone cs" for i c
    using tun_exact_down [OF tun dist that] causal_unique [OF taken(2)] by blast
qed

text \<open>A run with all its values received.\<close>

lemma demo_flow:
  "\<exists>f. flow_steps tun_up tun_down (flow_start tun_up tun_down) f \<and> c_ids (f_client f) = [1] \<and>
     c_todo (f_client f) = [] \<and> inner (c_reg (f_client f)) 1 = Some 0 \<and> 0 \<notin> c_gone (f_client f)"
proof -
  let ?start = "(cl_init (wire_items tun_down), srv_init (wire_items tun_up))"
  obtain cs ss where run: "tun_run tun_up tun_down tun_schedule ?start = Some (cs, ss)"
    and facts: "c_ids cs = [1]" "c_todo cs = []" "inner (c_reg cs) 1 = Some 0" "0 \<notin> c_gone cs"
    using tun_demo_run by blast
  have "running ?start" by (simp add: running_def cl_init_def srv_init_def)
  with run_flow [OF run tun_reachable.start] have
    "flow_steps tun_up tun_down (flow_start tun_up tun_down) (drained_flow (cs, ss))"
    unfolding drained_start by blast
  with facts show ?thesis
    by (intro exI [of _ "drained_flow (cs, ss)"]) (simp add: drained_flow_def filled_def)
qed

theorem bounded_channels_refine_witness:
  "\<exists>f read. flow_steps tun_up tun_down (flow_start tun_up tun_down) f \<and>
     prefix read (take (f_staken f) (s_out (f_server f))) \<and> c_sent (f_client f) 0 = data_payloads 1 read"
proof -
  obtain f where f: "flow_steps tun_up tun_down (flow_start tun_up tun_down) f" "distinct (c_ids (f_client f))"
    "c_todo (f_client f) = []" "inner (c_reg (f_client f)) 1 = Some 0" "0 \<notin> c_gone (f_client f)"
    using demo_flow by force
  from bounded_channels_refine [OF f(1,2)] f show ?thesis by blast
qed

end
