(* ===== verification/End_To_End.thy ===== *)
theory End_To_End
  imports Fixture_Clients Flow
begin

text \<open>
  Whole connections through the tunnel, from the bytes a local program writes to the bytes it gets
  back: the entry point of the client that accepts the connection, both mux sessions, the relay
  tasks at both ends and the upstream server of the integration tests. The safety theorems say
  what no run can do; here are the runs in which a request gets its answer.
\<close>

subsection \<open>The phases of a run\<close>

text \<open>An end may read what the other has handed over.\<close>

lemma may_read:
  "fs = handed @ rest \<Longrightarrow> length rest \<le> length unread \<Longrightarrow>
     prefix (take (length fs - length unread) fs) handed"
  by (simp add: take_is_prefix)

text \<open>Effects of a handler or relay that touch nothing shared but the frame channel.\<close>

fun quiet :: "effect \<Rightarrow> bool" where
  "quiet (ESendFrame f ok) = ok"
| "quiet (ETcpWrite bs ok) = True"
| "quiet (ESpawn i c) = True"
| "quiet _ = False"

text \<open>The last handler of the client performs such effects.\<close>

lemma handler_runs:
  assumes "c_tasks cs = ts @ [(i, es @ rest)]" "c_open cs" "list_all quiet es"
    and "down = s_out ss @ down'" "length down' \<le> length (c_in cs)"
  shows "tun_leads up down (cs, ss)
     (cs\<lparr>c_tasks := ts @ [(i, rest)], c_out := c_out cs @ frames_of es\<rparr>, ss)"
  using assms
proof (induction es arbitrary: cs)
  case Nil
  then have "cs\<lparr>c_tasks := ts @ [(i, rest)], c_out := c_out cs @ frames_of []\<rparr> = cs" by (cases cs) simp
  then show ?case by (simp add: leads_refl)
next
  case (Cons e es)
  let ?cs = "(cl_apply e cs)\<lparr>c_tasks := ts @ [(i, es @ rest)]\<rparr>"
  have e: "cl_enabled cs e" "cl_apply e cs = cs\<lparr>c_out := c_out cs @ frames_of [e]\<rparr>"
    using Cons.prems(2,3) by (cases e; simp)+
  have "cl_move (MTask (length ts)) cs = Some ?cs" using Cons.prems(1) e(1) by simp
  moreover have "tun_leads up down (?cs, ss) (?cs\<lparr>c_tasks := ts @ [(i, rest)], c_out := c_out ?cs @ frames_of es\<rparr>, ss)"
    using Cons.prems by (intro Cons.IH) (simp_all add: e(2))
  moreover have "?cs\<lparr>c_tasks := ts @ [(i, rest)], c_out := c_out ?cs @ frames_of es\<rparr> =
      cs\<lparr>c_tasks := ts @ [(i, rest)], c_out := c_out cs @ frames_of (e # es)\<rparr>"
    using frames_of_append [of "[e]" es] by (simp add: e(2))
  moreover have "prefix (take (length down - length (c_in ?cs)) down) (s_out ss)"
    using Cons.prems(4,5) by (intro may_read) (simp_all add: e(2))
  ultimately show ?case using leads_client by metis
qed

text \<open>The last relay task of the server does too.\<close>

lemma relay_runs:
  assumes "s_relays ss = rs @ [(i, es @ rest)]" "s_open ss" "list_all quiet es"
    and "up = c_out cs @ up'" "length up' \<le> length (s_in ss)"
  shows "tun_leads up down (cs, ss)
     (cs, ss\<lparr>s_relays := rs @ [(i, rest)], s_out := s_out ss @ frames_of es\<rparr>)"
  using assms
proof (induction es arbitrary: ss)
  case Nil
  then have "ss\<lparr>s_relays := rs @ [(i, rest)], s_out := s_out ss @ frames_of []\<rparr> = ss" by (cases ss) simp
  then show ?case by (simp add: leads_refl)
next
  case (Cons e es)
  let ?ss = "(apply_eff e ss)\<lparr>s_relays := rs @ [(i, es @ rest)]\<rparr>"
  have e: "eff_enabled ss e" "apply_eff e ss = ss\<lparr>s_out := s_out ss @ frames_of [e]\<rparr>"
    using Cons.prems(2,3) by (cases e; simp)+
  have "srv_move (SRelay (length rs)) ss = Some ?ss" using Cons.prems(1) e(1) by simp
  moreover have "tun_leads up down (cs, ?ss) (cs, ?ss\<lparr>s_relays := rs @ [(i, rest)], s_out := s_out ?ss @ frames_of es\<rparr>)"
    using Cons.prems by (intro Cons.IH) (simp_all add: e(2))
  moreover have "?ss\<lparr>s_relays := rs @ [(i, rest)], s_out := s_out ?ss @ frames_of es\<rparr> =
      ss\<lparr>s_relays := rs @ [(i, rest)], s_out := s_out ss @ frames_of (e # es)\<rparr>"
    using frames_of_append [of "[e]" es] by (simp add: e(2))
  moreover have "prefix (take (length up - length (s_in ?ss)) up) (c_out cs)"
    using Cons.prems(4,5) by (intro may_read) simp_all
  ultimately show ?case using leads_server by metis
qed

lemma dispatch_wire [simp]:
  "server_dispatch connects ack_ok c (Some (WsBinary (encode (Data i bs)))) = Some [ERegistry (RouteOp i bs)]"
  "client_dispatch (Some (WsBinary (encode (OpenAck i b)))) = Some [EAckDeliver i b]"
  "client_dispatch (Some (WsBinary (encode (Data i bs)))) = Some [ERegistry (RouteOp i bs)]"
  "client_dispatch (Some (WsBinary (encode (Close i)))) = Some [ERegistry (CloseOp i)]"
  by (simp_all add: server_dispatch_def client_dispatch_def decode_encode del: encode.simps)

text \<open>The server's reader passes DATA frames on to the channel of the stream.\<close>

lemma server_reads_data:
  assumes "s_in ss = wire_items (map (Data i) xs @ later)" "up = c_out cs @ later"
    and "s_reading ss" "s_todo ss = []" "inner (s_reg ss) i = Some c" "c \<notin> s_gone ss"
  shows "tun_leads up down (cs, ss)
     (cs, ss\<lparr>s_in := wire_items later, s_next := s_next ss + length xs,
        s_sent := (s_sent ss)(c := s_sent ss c @ xs)\<rparr>)"
  using assms
proof (induction xs arbitrary: ss)
  case Nil
  then have "ss\<lparr>s_in := wire_items later, s_next := s_next ss + length [], s_sent := (s_sent ss)(c := s_sent ss c @ [])\<rparr> = ss"
    by (cases ss) simp
  then show ?case by (simp add: leads_refl)
next
  case (Cons x xs)
  let ?s1 = "ss\<lparr>s_in := wire_items (map (Data i) xs @ later), s_todo := [ERegistry (RouteOp i x)], s_next := Suc (s_next ss)\<rparr>"
  let ?s2 = "?s1\<lparr>s_todo := [EChanSend c x]\<rparr>"
  let ?s3 = "?s2\<lparr>s_todo := [], s_sent := (s_sent ss)(c := s_sent ss c @ [x])\<rparr>"
  let ?t = "\<lambda>s ys. s\<lparr>s_in := wire_items later, s_next := s_next s + length ys, s_sent := (s_sent s)(c := s_sent s c @ ys)\<rparr>"
  have no_open: "opens_of (Some (WsBinary (encode (Data i x)))) = []"
    by (simp add: decode_encode del: encode.simps)
  have m1: "srv_move (SRead True True) ss = Some ?s1"
    using Cons.prems(1,3,4) no_open by (simp del: encode.simps opens_of.simps map_map)
  have m2: "srv_move SReader ?s1 = Some ?s2" using Cons.prems(5) by (simp add: registry_defs)
  have m3: "srv_move SReader ?s2 = Some ?s3" using Cons.prems(6) by simp
  have "tun_leads up down (cs, ?s3) (cs, ?t ?s3 xs)" using Cons.prems by (intro Cons.IH) simp_all
  moreover have "?t ?s3 xs = ?t ss (x # xs)" using Cons.prems(4) by (cases ss) simp
  ultimately have to_end: "tun_leads up down (cs, ?s3) (cs, ?t ss (x # xs))" by simp
  have r: "prefix (take (length up - length unread) up) (c_out cs)"
    if "unread = wire_items (map (Data i) xs @ later)" for unread
    by (rule may_read [OF Cons.prems(2)]) (simp add: that)
  show ?case by (rule leads_server [OF m1 r leads_server [OF m2 r leads_server [OF m3 r to_end]]]) simp_all
qed

text \<open>The client's reader does the same.\<close>

lemma client_reads_data:
  assumes "c_in cs = wire_items (map (Data i) ys @ later)" "down = s_out ss @ down'" "length down' \<le> length later"
    and "c_reading cs" "c_todo cs = []" "inner (c_reg cs) i = Some c" "c \<notin> c_gone cs"
  shows "tun_leads up down (cs, ss)
     (cs\<lparr>c_in := wire_items later, c_sent := (c_sent cs)(c := c_sent cs c @ ys)\<rparr>, ss)"
  using assms
proof (induction ys arbitrary: cs)
  case Nil
  then have "cs\<lparr>c_in := wire_items later, c_sent := (c_sent cs)(c := c_sent cs c @ [])\<rparr> = cs"
    by (cases cs) simp
  then show ?case by (simp add: leads_refl)
next
  case (Cons y ys)
  let ?s1 = "cs\<lparr>c_in := wire_items (map (Data i) ys @ later), c_todo := [ERegistry (RouteOp i y)]\<rparr>"
  let ?s2 = "?s1\<lparr>c_todo := [EChanSend c y]\<rparr>"
  let ?s3 = "?s2\<lparr>c_todo := [], c_sent := (c_sent cs)(c := c_sent cs c @ [y])\<rparr>"
  let ?t = "\<lambda>s zs. s\<lparr>c_in := wire_items later, c_sent := (c_sent s)(c := c_sent s c @ zs)\<rparr>"
  have m1: "cl_move MRead cs = Some ?s1" using Cons.prems(1,4,5) by (simp del: encode.simps)
  have m2: "cl_move MReader ?s1 = Some ?s2" using Cons.prems(6) by (simp add: registry_defs)
  have m3: "cl_move MReader ?s2 = Some ?s3" using Cons.prems(7) by simp
  have "tun_leads up down (?s3, ss) (?t ?s3 ys, ss)" using Cons.prems by (intro Cons.IH) simp_all
  moreover have "?t ?s3 ys = ?t cs (y # ys)" using Cons.prems(5) by (cases cs) simp
  ultimately have to_end: "tun_leads up down (?s3, ss) (?t cs (y # ys), ss)" by simp
  have r: "prefix (take (length down - length unread) down) (s_out ss)"
    if "unread = wire_items (map (Data i) ys @ later)" for unread
    by (rule may_read [OF Cons.prems(2)]) (use Cons.prems(3) in \<open>simp add: that\<close>)
  show ?case by (rule leads_client [OF m1 r leads_client [OF m2 r leads_client [OF m3 r to_end]]]) simp_all
qed

subsection \<open>One stream of a connection\<close>

text \<open>
  A handler for stream \<open>i\<close> to \<open>dest\<close> whose OPEN is answered with \<open>ok\<close> performs
  \<open>handler_effects c i dest ok es\<close>, where \<open>c\<close> is the channel of its stream. For an accepted stream the
  client hands over \<open>stream_up\<close>, the server \<open>stream_down\<close>, where \<open>ys\<close> are the pieces in which the
  relay reads the target's bytes until the target closes.
\<close>

definition handler_effects :: "cid \<Rightarrow> u32 \<Rightarrow> string \<Rightarrow> bool \<Rightarrow> effect list \<Rightarrow> effect list" where
  "handler_effects c i dest ok es =
     [ERegistry (RegOp i c), EAckInsert i (Suc c), ESendFrame (Open i dest) True, EAckRecv (Suc c) (Some ok)] @ es"

definition stream_up :: "u32 \<Rightarrow> string \<Rightarrow> bytes list \<Rightarrow> frame list" where
  "stream_up i dest xs = Open i dest # map (Data i) xs"

definition stream_down :: "u32 \<Rightarrow> bytes list \<Rightarrow> frame list" where
  "stream_down i ys = OpenAck i True # map (Data i) ys @ [Close i]"

definition upstream_reads :: "bytes list \<Rightarrow> (read_result \<times> bool) list" where
  "upstream_reads ys = map (\<lambda>y. (ReadOk y, True)) ys @ [(ReadOk [], True)]"

lemma upstream_relay:
  "[] \<notin> set ys \<Longrightarrow> relay_reader i True (upstream_reads ys) =
     (map (\<lambda>y. ESendFrame (Data i y) True) ys @ [ESendFrame (Close i) True]) @ [ERegistry (CloseOp i)]"
  unfolding upstream_reads_def by (induction ys) (auto simp: relay_finish_def)

lemma frames_of_sends: "frames_of (map (\<lambda>y. ESendFrame (Data i y) True) ys) = map (Data i) ys"
  by (induction ys) auto

lemma quiet_sends: "list_all quiet (map (\<lambda>x. ESendFrame (Data i x) True) xs)"
  by (simp add: list_all_iff)

text \<open>
  The two sessions between two streams: everything handed over has been read, the loops run, and the
  channels to come are fresh. \<open>up'\<close> and \<open>down'\<close> are the frames that are still to be exchanged.
\<close>

definition between :: "frame list \<Rightarrow> frame list \<Rightarrow> frame list \<Rightarrow> frame list \<Rightarrow> cl_session \<times> srv_session \<Rightarrow> bool" where
  "between up down up' down' x \<longleftrightarrow>
     (case x of (cs, ss) \<Rightarrow>
        up = c_out cs @ up' \<and> s_in ss = wire_items up' \<and> down = s_out ss @ down' \<and> c_in cs = wire_items down' \<and>
        c_reading cs \<and> c_open cs \<and> c_todo cs = [] \<and> s_reading ss \<and> s_open ss \<and> s_todo ss = [] \<and>
        (\<forall>c \<ge> c_next cs. c_sent cs c = [] \<and> c_ackq cs c = None \<and> c \<notin> c_gone cs) \<and>
        (\<forall>c \<ge> s_next ss. s_sent ss c = [] \<and> c \<notin> s_gone ss))"

lemma between_start: "between up down up down (cl_init (wire_items down), srv_init (wire_items up))"
  by (simp add: between_def cl_init_def srv_init_def)

text \<open>The sessions when the client has asked for the stream, and when the server has opened it.\<close>

definition asking_client :: "u32 \<Rightarrow> string \<Rightarrow> bool \<Rightarrow> effect list \<Rightarrow> cl_session \<Rightarrow> cl_session" where
  "asking_client i dest ok es cs =
     (let c = c_next cs
      in cs\<lparr>c_reg := (c_reg cs)\<lparr>inner := (inner (c_reg cs))(i \<mapsto> c)\<rparr>, c_acks := (c_acks cs)(i \<mapsto> Suc c),
           c_tasks := c_tasks cs @ [(i, EAckRecv (Suc c) (Some ok) # es)], c_out := c_out cs @ [Open i dest],
           c_next := Suc (Suc c), c_ids := c_ids cs @ [i], c_owner := (c_owner cs)(c \<mapsto> i),
           c_ackowner := (c_ackowner cs)(Suc c \<mapsto> i), c_unread := (c_unread cs)(c := c_in cs)\<rparr>)"

definition opened_server :: "u32 \<Rightarrow> string \<Rightarrow> bytes list \<Rightarrow> frame list \<Rightarrow> srv_session \<Rightarrow> srv_session" where
  "opened_server i dest ys later ss =
     (let c = s_next ss
      in ss\<lparr>s_reg := (s_reg ss)\<lparr>inner := (inner (s_reg ss))(i \<mapsto> c)\<rparr>, s_in := wire_items later, s_todo := [],
           s_relays := s_relays ss @ [(i, relay_reader i True (upstream_reads ys))],
           s_out := s_out ss @ [OpenAck i True], s_next := Suc c, s_connects := s_connects ss @ [dest],
           s_reached := s_reached ss @ [(i, dest)], s_opened := s_opened ss @ [i], s_owner := (s_owner ss)(c \<mapsto> i)\<rparr>)"

lemma phase_ask:
  assumes "c_open cs" "down = s_out ss @ down'" "length down' \<le> length (c_in cs)"
  shows "tun_leads up down (cl_accept i (handler_effects (c_next cs) i dest ok es) cs, ss)
     (asking_client i dest ok es cs, ss)"
  unfolding tun_leads_def
  using assms(1) may_read [OF assms(2,3)]
  by (intro exI [of _ "replicate 3 (Inl (MTask (length (c_tasks cs))))"])
     (simp add: handler_effects_def asking_client_def cl_accept_def registry_defs numeral_3_eq_3 Let_def)

lemma phase_open:
  assumes "is_dest_allowed dest" "valid_str dest" "up = c_out cs @ later"
    and "s_in ss = wire_items (Open i dest # later)" "s_reading ss" "s_open ss" "s_todo ss = []"
  shows "tun_leads up down (cs, ss) (cs, opened_server i dest ys later ss)"
  unfolding tun_leads_def
  using assms
  by (intro exI [of _ "[Inr (SRead True True), Inr SReader, Inr SReader, Inr SReader,
        Inr (SSpawn True (upstream_reads ys))]"])
     (simp add: opened_server_def server_dispatch_def handle_open_def Let_def
      decode_encode registry_defs take_is_prefix del: encode.simps)

lemma phase_ack:
  assumes "down = s_out ss @ down'" "length down' \<le> length later"
    and "c_in cs = wire_items (OpenAck i ok # later)" "c_reading cs" "c_todo cs = []"
    and "c_ackq cs (Suc (c_next cs)) = None"
  shows "tun_leads up down (asking_client i dest ok es cs, ss)
     ((asking_client i dest ok es cs)\<lparr>c_in := wire_items later, c_acks := (c_acks cs)(i := None),
        c_tasks := c_tasks cs @ [(i, es)]\<rparr>, ss)"
proof -
  have idem: "(c_ackq cs)(Suc (c_next cs) := None) = c_ackq cs" using assms(6) by (simp add: fun_upd_idem)
  have "prefix (take (length down - length later) down) (s_out ss)"
    using may_read [OF assms(1,2)] .
  with assms(3-6) show ?thesis
    unfolding tun_leads_def
    by (intro exI [of _ "[Inl MRead, Inl MReader, Inl (MTask (length (c_tasks cs)))]"])
       (simp add: asking_client_def Let_def idem del: encode.simps)
qed

text \<open>
  In some run everything such a handler sends reaches the channel of the target, everything the target
  answers reaches the channel of the local connection, the target closes, both ends forget the
  stream, and the connection is ready for the next one.
\<close>

lemma stream_carries:
  assumes ready: "between up down (stream_up i dest xs @ up') (stream_down i ys @ down') (cs, ss)"
    and es: "list_all quiet es" "frames_of es = map (Data i) xs"
    and dest: "is_dest_allowed dest" "valid_str dest" "[] \<notin> set ys"
  shows "\<exists>cs' ss'. tun_leads up down (cl_accept i (handler_effects (c_next cs) i dest True es) cs, ss) (cs', ss') \<and>
     between up down up' down' (cs', ss') \<and>
     s_connects ss' = s_connects ss @ [dest] \<and> c_tasks cs' = c_tasks cs @ [(i, [])] \<and>
     s_sent ss' = (s_sent ss)(s_next ss := xs) \<and> c_sent cs' = (c_sent cs)(c_next cs := ys) \<and>
     s_owner ss' = (s_owner ss)(s_next ss \<mapsto> i) \<and> c_owner cs' = (c_owner cs)(c_next cs \<mapsto> i) \<and>
     inner (c_reg cs') = (inner (c_reg cs))(i := None) \<and> inner (s_reg ss') = (inner (s_reg ss))(i := None) \<and>
     s_next ss' = s_next ss + Suc (length xs) \<and> c_next cs' = Suc (Suc (c_next cs))"
proof -
  let ?c = "c_next cs" and ?d = "s_next ss"
  let ?c1 = "asking_client i dest True es cs"
  let ?s1 = "opened_server i dest ys (map (Data i) xs @ up') ss"
  let ?c2 = "?c1\<lparr>c_in := wire_items (map (Data i) ys @ Close i # down'), c_acks := (c_acks cs)(i := None),
      c_tasks := c_tasks cs @ [(i, es)]\<rparr>"
  let ?c3 = "?c2\<lparr>c_tasks := c_tasks cs @ [(i, [])], c_out := c_out ?c2 @ frames_of es\<rparr>"
  let ?s2 = "?s1\<lparr>s_in := wire_items up', s_next := s_next ?s1 + length xs, s_sent := (s_sent ?s1)(?d := s_sent ?s1 ?d @ xs)\<rparr>"
  let ?sends = "map (\<lambda>y. ESendFrame (Data i y) True) ys @ [ESendFrame (Close i) True]"
  let ?s3 = "?s2\<lparr>s_relays := s_relays ss @ [(i, [ERegistry (CloseOp i)])], s_out := s_out ?s2 @ frames_of ?sends\<rparr>"
  let ?s4 = "?s3\<lparr>s_relays := s_relays ss @ [(i, [])], s_reg := close_stream i (s_reg ?s3)\<rparr>"
  let ?c4 = "?c3\<lparr>c_in := wire_items (Close i # down'), c_sent := (c_sent ?c3)(?c := c_sent ?c3 ?c @ ys)\<rparr>"
  let ?c5 = "?c4\<lparr>c_in := wire_items down', c_todo := [ERegistry (CloseOp i)]\<rparr>"
  let ?c6 = "?c5\<lparr>c_todo := [], c_reg := close_stream i (c_reg ?c5)\<rparr>"
  note defs = asking_client_def opened_server_def stream_up_def stream_down_def Let_def
  have st: "up = c_out cs @ stream_up i dest xs @ up'" "s_in ss = wire_items (stream_up i dest xs @ up')"
    "down = s_out ss @ stream_down i ys @ down'" "c_in cs = wire_items (stream_down i ys @ down')"
    "c_reading cs" "c_open cs" "c_todo cs = []" "s_reading ss" "s_open ss" "s_todo ss = []"
    and fresh: "\<And>a. ?c \<le> a \<Longrightarrow> c_sent cs a = [] \<and> c_ackq cs a = None \<and> a \<notin> c_gone cs"
      "\<And>a. ?d \<le> a \<Longrightarrow> s_sent ss a = [] \<and> a \<notin> s_gone ss"
    using ready by (auto simp: between_def)
  have "tun_leads up down (cl_accept i (handler_effects ?c i dest True es) cs, ss) (?c1, ss)"
    by (rule phase_ask [OF st(6,3)]) (simp add: st(4))
  also have "tun_leads up down (?c1, ss) (?c1, ?s1)"
    using dest st by (intro phase_open) (simp_all add: defs)
  also have "tun_leads up down (?c1, ?s1) (?c2, ?s1)"
    using st fresh by (intro phase_ack [where down' = "map (Data i) ys @ Close i # down'"]) (simp_all add: defs)
  also have "tun_leads up down (?c2, ?s1) (?c3, ?s1)"
    using st es by (intro handler_runs [where down' = "map (Data i) ys @ Close i # down'"]) (simp_all add: defs)
  also have "tun_leads up down (?c3, ?s1) (?c3, ?s2)"
    using st es fresh by (intro server_reads_data [where i = i]) (simp_all add: defs del: encode.simps)
  also have "tun_leads up down (?c3, ?s2) (?c3, ?s3)"
    using st es by (intro relay_runs [where up' = up'])
      (simp_all add: defs upstream_relay [OF dest(3)] list_all_iff)
  also have "tun_leads up down (?c3, ?s3) (?c3, ?s4)"
    by (rule leads_server [of "SRelay (length (s_relays ss))", OF _ _ leads_refl])
       (use st es in \<open>simp_all add: defs registry_defs nth_append\<close>)
  also have "tun_leads up down (?c3, ?s4) (?c4, ?s4)"
    using st fresh by (intro client_reads_data [where i = i and down' = down']) (simp_all add: defs frames_of_sends del: encode.simps)
  also have "tun_leads up down (?c4, ?s4) (?c5, ?s4)"
    by (rule leads_client [of MRead, OF _ _ leads_refl])
       (use st in \<open>simp_all add: defs frames_of_sends del: encode.simps\<close>)
  also have "tun_leads up down (?c5, ?s4) (?c6, ?s4)"
    by (rule leads_client [of MReader, OF _ _ leads_refl])
       (use st in \<open>simp_all add: defs frames_of_sends registry_defs\<close>)
  finally have leads: "tun_leads up down (cl_accept i (handler_effects ?c i dest True es) cs, ss) (?c6, ?s4)" .
  have "between up down up' down' (?c6, ?s4)"
    using st fresh es by (simp add: between_def defs frames_of_sends)
  with leads fresh show ?thesis
    by (intro exI [of _ ?c6] exI [of _ ?s4]) (simp add: defs close_stream_def)
qed

text \<open>
  A stream that is refused, because its target is forbidden or cannot be reached: the handler answers
  the local program with \<open>w\<close>, and the connection is ready for the next stream as before.
\<close>

definition refused_server :: "u32 \<Rightarrow> string \<Rightarrow> frame list \<Rightarrow> srv_session \<Rightarrow> srv_session" where
  "refused_server i dest later ss =
     (let tried = is_dest_allowed dest
      in ss\<lparr>s_reg := (if tried then close_stream i (s_reg ss) else s_reg ss), s_in := wire_items later, s_todo := [],
           s_out := s_out ss @ [OpenAck i False], s_next := Suc (s_next ss),
           s_connects := s_connects ss @ (if tried then [dest] else []), s_opened := s_opened ss @ [i]\<rparr>)"

lemma phase_refuse:
  assumes "valid_str dest" "up = c_out cs @ later"
    and "s_in ss = wire_items (Open i dest # later)" "s_reading ss" "s_open ss" "s_todo ss = []"
  shows "tun_leads up down (cs, ss) (cs, refused_server i dest later ss)"
proof (cases "is_dest_allowed dest")
  case True
  then show ?thesis
    unfolding tun_leads_def
    using assms
    by (intro exI [of _ "[Inr (SRead False True), Inr SReader, Inr SReader, Inr SReader]"])
       (simp add: refused_server_def server_dispatch_def handle_open_def Let_def
        decode_encode registry_defs take_is_prefix del: encode.simps)
next
  case False
  then show ?thesis
    unfolding tun_leads_def
    using assms
    by (intro exI [of _ "[Inr (SRead False True), Inr SReader]"])
       (simp add: refused_server_def server_dispatch_def handle_open_def Let_def
        decode_encode registry_defs take_is_prefix del: encode.simps)
qed

lemma stream_refused:
  assumes ready: "between up down (Open i dest # up') (OpenAck i False # down') (cs, ss)"
    and "valid_str dest"
  shows "\<exists>cs' ss'. tun_leads up down
       (cl_accept i (handler_effects (c_next cs) i dest False [ERegistry (CloseOp i), ETcpWrite w True]) cs, ss) (cs', ss') \<and>
     between up down up' down' (cs', ss') \<and>
     s_connects ss' = s_connects ss @ (if is_dest_allowed dest then [dest] else []) \<and>
     s_sent ss' = s_sent ss \<and> c_sent cs' = c_sent cs \<and> s_owner ss' = s_owner ss \<and> c_owner cs' = (c_owner cs)(c_next cs \<mapsto> i) \<and>
     inner (c_reg cs') = (inner (c_reg cs))(i := None) \<and> inner (s_reg ss') \<subseteq>\<^sub>m inner (s_reg ss) \<and>
     s_next ss' = Suc (s_next ss) \<and> c_next cs' = Suc (Suc (c_next cs))"
proof -
  let ?c = "c_next cs" and ?es = "[ERegistry (CloseOp i), ETcpWrite w True]"
  let ?c1 = "asking_client i dest False ?es cs"
  let ?s1 = "refused_server i dest up' ss"
  let ?c2 = "?c1\<lparr>c_in := wire_items down', c_acks := (c_acks cs)(i := None), c_tasks := c_tasks cs @ [(i, ?es)]\<rparr>"
  let ?c3 = "?c2\<lparr>c_tasks := c_tasks cs @ [(i, [ETcpWrite w True])], c_reg := close_stream i (c_reg ?c2)\<rparr>"
  let ?c4 = "?c3\<lparr>c_tasks := c_tasks cs @ [(i, [])]\<rparr>"
  note defs = asking_client_def refused_server_def Let_def
  have st: "up = c_out cs @ Open i dest # up'" "s_in ss = wire_items (Open i dest # up')"
    "down = s_out ss @ OpenAck i False # down'" "c_in cs = wire_items (OpenAck i False # down')"
    "c_reading cs" "c_open cs" "c_todo cs = []" "s_reading ss" "s_open ss" "s_todo ss = []"
    and fresh: "\<And>a. ?c \<le> a \<Longrightarrow> c_sent cs a = [] \<and> c_ackq cs a = None \<and> a \<notin> c_gone cs"
      "\<And>a. s_next ss \<le> a \<Longrightarrow> s_sent ss a = [] \<and> a \<notin> s_gone ss"
    using ready by (auto simp: between_def)
  have "tun_leads up down (cl_accept i (handler_effects ?c i dest False ?es) cs, ss) (?c1, ss)"
    by (rule phase_ask [OF st(6,3)]) (simp add: st(4))
  also have "tun_leads up down (?c1, ss) (?c1, ?s1)"
    using assms(2) st by (intro phase_refuse) (simp_all add: asking_client_def Let_def)
  also have "tun_leads up down (?c1, ?s1) (?c2, ?s1)"
    using st fresh by (intro phase_ack [where down' = down']) (simp_all add: defs)
  also have "tun_leads up down (?c2, ?s1) (?c3, ?s1)"
    by (rule leads_client [of "MTask (length (c_tasks cs))", OF _ _ leads_refl])
       (use st in \<open>simp_all add: defs registry_defs\<close>)
  also have "tun_leads up down (?c3, ?s1) (?c4, ?s1)"
    by (rule leads_client [of "MTask (length (c_tasks cs))", OF _ _ leads_refl])
       (use st in \<open>simp_all add: defs\<close>)
  finally have leads: "tun_leads up down (cl_accept i (handler_effects ?c i dest False ?es) cs, ss) (?c4, ?s1)" .
  have "between up down up' down' (?c4, ?s1)"
    using st fresh by (simp add: between_def defs)
  with leads show ?thesis
    by (intro exI [of _ ?c4] exI [of _ ?s1]) (simp add: defs close_stream_def map_le_def)
qed


subsection \<open>One connection after the other\<close>

text \<open>
  Handlers that are accepted on one mux connection, each when its predecessor has got this far. A
  handler uses the next two channels.
\<close>

inductive tun_serves :: "frame list \<Rightarrow> frame list \<Rightarrow> (u32 \<times> effect list) list \<Rightarrow>
    cl_session \<times> srv_session \<Rightarrow> cl_session \<times> srv_session \<Rightarrow> bool" for up down where
  none: "tun_serves up down [] x x"
| next_one:
    "mux_task env i es \<Longrightarrow> data_cid env = c_next cs \<Longrightarrow> ack_cid env = Suc (c_next cs) \<Longrightarrow>
     tun_leads up down (cl_accept i es cs, ss) y \<Longrightarrow> tun_serves up down hs y z \<Longrightarrow>
     tun_serves up down ((i, es) # hs) (cs, ss) z"

lemma serves_reachable: "tun_serves up down hs x y \<Longrightarrow> tun_reachable up down x \<Longrightarrow> tun_reachable up down y"
proof (induction rule: tun_serves.induct)
  case (next_one env i es cs ss y hs z)
  have "cl_step cs (cl_accept i es cs)" using next_one.hyps(1-3) by (rule cl_step.accept)
  moreover have "causal down (c_in (cl_accept i es cs)) (s_out ss)"
    using tun_causal [OF next_one.prems] by simp
  ultimately have "tun_reachable up down (cl_accept i es cs, ss)"
    using next_one.prems by (blast intro: tun_reachable.client)
  with next_one.hyps(4) next_one.IH show ?case by (blast intro: leads_reachable)
qed

text \<open>With bounded channels such a run exists too, in which all that was sent is received.\<close>

lemma serves_flow:
  "tun_serves up down hs x y \<Longrightarrow> tun_reachable up down x \<Longrightarrow> running x \<Longrightarrow>
     flow_steps up down (drained_flow x) (drained_flow y)"
proof (induction rule: tun_serves.induct)
  case (next_one env i es cs ss y hs z)
  let ?x = "(cl_accept i es cs, ss)"
  have step: "cl_step cs (cl_accept i es cs)" using next_one.hyps(1-3) by (rule cl_step.accept)
  have causal: "causal down (c_in (cl_accept i es cs)) (s_out ss)"
    using tun_causal [OF next_one.prems(1)] by simp
  have tun: "tun_reachable up down ?x" using next_one.prems(1) step causal by (rule tun_reachable.client)
  have run: "running ?x" using next_one.prems(2) by (simp add: running_def cl_accept_def)
  then have "flow_steps up down (drained_flow (cs, ss)) (drained_flow ?x)"
    using step causal by (intro drained_client) (simp_all add: running_def)
  moreover note leads_flow [OF next_one.hyps(4) tun run]
  moreover have "tun_reachable up down y" using next_one.hyps(4) tun by (rule leads_reachable)
  ultimately show ?case using next_one.IH by (meson rtranclp_trans)
qed simp

text \<open>
  What a connection is to do: its stream id and target, whether the target can be reached, its handler
  given its channel, the payloads that are to reach the target and those that are to come back.
\<close>

record job =
  j_id :: u32
  j_dest :: string
  j_reachable :: bool
  j_handler :: "cid \<Rightarrow> effect list"
  j_sent :: "bytes list"
  j_back :: "bytes list"

text \<open>The server opens the stream when its filter lets the target through and the target can be reached.\<close>

definition j_accepted :: "job \<Rightarrow> bool" where
  "j_accepted j \<longleftrightarrow> is_dest_allowed (j_dest j) \<and> j_reachable j"

definition handler_ok :: "job \<Rightarrow> cid \<Rightarrow> bool" where
  "handler_ok j c \<longleftrightarrow>
     (\<exists>env es. mux_task env (j_id j) (j_handler j c) \<and> data_cid env = c \<and> ack_cid env = Suc c \<and>
        j_handler j c = handler_effects c (j_id j) (j_dest j) (j_accepted j) es \<and>
        (if j_accepted j then list_all quiet es \<and> frames_of es = map (Data (j_id j)) (j_sent j)
         else \<exists>w. es = [ERegistry (CloseOp (j_id j)), ETcpWrite w True]))"

definition job_ok :: "job \<Rightarrow> bool" where
  "job_ok j \<longleftrightarrow> valid_str (j_dest j) \<and> [] \<notin> set (j_back j) \<and> (\<forall>c. handler_ok j c)"

text \<open>
  The job was done, through channel \<open>c\<close> at the client and, when it was accepted, channel \<open>t\<close> at the
  server; nothing came back for a job that was refused.
\<close>

definition job_done :: "cl_session \<Rightarrow> srv_session \<Rightarrow> job \<times> cid \<times> cid \<Rightarrow> bool" where
  "job_done cs ss = (\<lambda>(j, c, t).
     c < c_next cs \<and> c_owner cs c = Some (j_id j) \<and> c_sent cs c = (if j_accepted j then j_back j else []) \<and>
     (j_accepted j \<longrightarrow> t < s_next ss \<and> s_owner ss t = Some (j_id j) \<and> s_sent ss t = j_sent j))"

abbreviation job_tasks :: "(job \<times> cid \<times> cid) list \<Rightarrow> (u32 \<times> effect list) list" where
  "job_tasks \<equiv> map (\<lambda>(j, c, t). (j_id j, j_handler j c))"

definition job_up :: "job \<Rightarrow> frame list" where
  "job_up j = (if j_accepted j then stream_up (j_id j) (j_dest j) (j_sent j) else [Open (j_id j) (j_dest j)])"

definition job_down :: "job \<Rightarrow> frame list" where
  "job_down j = (if j_accepted j then stream_down (j_id j) (j_back j) else [OpenAck (j_id j) False])"

text \<open>The server tries to connect to targets that its filter lets through.\<close>

definition job_connects :: "job \<Rightarrow> string list" where
  "job_connects j = (if is_dest_allowed (j_dest j) then [j_dest j] else [])"

text \<open>Channels that exist keep what they have: their owner and their values.\<close>

definition keeps :: "cl_session \<times> srv_session \<Rightarrow> cl_session \<times> srv_session \<Rightarrow> bool" where
  "keeps = (\<lambda>(cs, ss) (cs', ss').
     c_next cs \<le> c_next cs' \<and> (\<forall>c < c_next cs. c_owner cs' c = c_owner cs c \<and> c_sent cs' c = c_sent cs c) \<and>
     s_next ss \<le> s_next ss' \<and> (\<forall>t < s_next ss. s_owner ss' t = s_owner ss t \<and> s_sent ss' t = s_sent ss t))"

lemma keeps_refl: "keeps x x"
  by (auto simp: keeps_def)

lemma keeps_trans: "keeps x y \<Longrightarrow> keeps y z \<Longrightarrow> keeps x z"
  by (auto simp: keeps_def)

lemma job_done_keeps: "job_done cs ss job \<Longrightarrow> keeps (cs, ss) (cs', ss') \<Longrightarrow> job_done cs' ss' job"
  by (auto simp: job_done_def keeps_def)

lemma below_empty: "m \<subseteq>\<^sub>m Map.empty \<Longrightarrow> m = Map.empty"
  by (rule ext) (auto simp: map_le_def dom_def)

lemma job_carried:
  assumes "job_ok j" "between up down (job_up j @ up') (job_down j @ down') (cs, ss)"
    and "inner (c_reg cs) = Map.empty" "inner (s_reg ss) = Map.empty"
  shows "\<exists>cs' ss'. tun_leads up down (cl_accept (j_id j) (j_handler j (c_next cs)) cs, ss) (cs', ss') \<and>
     between up down up' down' (cs', ss') \<and> job_done cs' ss' (j, c_next cs, s_next ss) \<and>
     keeps (cs, ss) (cs', ss') \<and> s_connects ss' = s_connects ss @ job_connects j \<and>
     inner (c_reg cs') = Map.empty \<and> inner (s_reg ss') = Map.empty"
proof -
  have handler: "handler_ok j (c_next cs)" and valid: "valid_str (j_dest j)" "[] \<notin> set (j_back j)"
    using assms(1) by (simp_all add: job_ok_def)
  show ?thesis
  proof (cases "j_accepted j")
    case True
    with handler obtain es where es: "j_handler j (c_next cs) = handler_effects (c_next cs) (j_id j) (j_dest j) True es"
      "list_all quiet es" "frames_of es = map (Data (j_id j)) (j_sent j)"
      by (auto simp: handler_ok_def)
    have allowed: "is_dest_allowed (j_dest j)" using True by (simp add: j_accepted_def)
    have "between up down (stream_up (j_id j) (j_dest j) (j_sent j) @ up') (stream_down (j_id j) (j_back j) @ down') (cs, ss)"
      using assms(2) True by (simp add: job_up_def job_down_def)
    from stream_carries [OF this es(2,3) allowed valid] obtain cs' ss' where
      "tun_leads up down (cl_accept (j_id j) (j_handler j (c_next cs)) cs, ss) (cs', ss')"
      "between up down up' down' (cs', ss')" "s_connects ss' = s_connects ss @ [j_dest j]"
      "s_sent ss' = (s_sent ss)(s_next ss := j_sent j)" "c_sent cs' = (c_sent cs)(c_next cs := j_back j)"
      "s_owner ss' = (s_owner ss)(s_next ss \<mapsto> j_id j)" "c_owner cs' = (c_owner cs)(c_next cs \<mapsto> j_id j)"
      "inner (c_reg cs') = (inner (c_reg cs))(j_id j := None)" "inner (s_reg ss') = (inner (s_reg ss))(j_id j := None)"
      "s_next ss' = s_next ss + Suc (length (j_sent j))" "c_next cs' = Suc (Suc (c_next cs))"
      unfolding es(1) by blast
    then show ?thesis
      using True allowed assms(3,4)
      by (intro exI [of _ cs'] exI [of _ ss']) (simp add: job_done_def keeps_def job_connects_def)
  next
    case False
    with handler obtain w where es: "j_handler j (c_next cs) = handler_effects (c_next cs) (j_id j) (j_dest j) False
        [ERegistry (CloseOp (j_id j)), ETcpWrite w True]"
      by (auto simp: handler_ok_def)
    have "between up down (Open (j_id j) (j_dest j) # up') (OpenAck (j_id j) False # down') (cs, ss)"
      using assms(2) False by (simp add: job_up_def job_down_def)
    moreover have "c_sent cs (c_next cs) = []" using assms(2) by (simp add: between_def)
    moreover from calculation(1) stream_refused [OF _ valid(1)] obtain cs' ss' where
      "tun_leads up down (cl_accept (j_id j) (j_handler j (c_next cs)) cs, ss) (cs', ss')"
      "between up down up' down' (cs', ss')"
      "s_connects ss' = s_connects ss @ (if is_dest_allowed (j_dest j) then [j_dest j] else [])"
      "s_sent ss' = s_sent ss" "c_sent cs' = c_sent cs" "s_owner ss' = s_owner ss"
      "c_owner cs' = (c_owner cs)(c_next cs \<mapsto> j_id j)" "inner (c_reg cs') = (inner (c_reg cs))(j_id j := None)"
      "inner (s_reg ss') \<subseteq>\<^sub>m inner (s_reg ss)" "s_next ss' = Suc (s_next ss)" "c_next cs' = Suc (Suc (c_next cs))"
      unfolding es(1) by blast
    ultimately show ?thesis
      using False assms(3,4)
      by (intro exI [of _ cs'] exI [of _ ss']) (simp add: job_done_def keeps_def job_connects_def below_empty)
  qed
qed

lemma jobs_carried:
  assumes "list_all job_ok js" "between up down (concat (map job_up js) @ up') (concat (map job_down js) @ down') (cs, ss)"
    and "inner (c_reg cs) = Map.empty" "inner (s_reg ss) = Map.empty"
  shows "\<exists>cs' ss' served. map fst served = js \<and> tun_serves up down (job_tasks served) (cs, ss) (cs', ss') \<and>
     between up down up' down' (cs', ss') \<and> list_all (job_done cs' ss') served \<and>
     s_connects ss' = s_connects ss @ concat (map job_connects js) \<and> keeps (cs, ss) (cs', ss') \<and>
     inner (c_reg cs') = Map.empty \<and> inner (s_reg ss') = Map.empty"
  using assms
proof (induction js arbitrary: cs ss)
  case Nil
  then show ?case
    by (intro exI [of _ cs] exI [of _ ss] exI [of _ "[]"]) (simp add: keeps_refl tun_serves.none)
next
  case (Cons j js)
  let ?c = "c_next cs" and ?t = "s_next ss"
  from Cons.prems(1) have ok: "job_ok j" "list_all job_ok js" by simp_all
  then obtain env where env: "mux_task env (j_id j) (j_handler j ?c)" "data_cid env = ?c" "ack_cid env = Suc ?c"
    by (auto simp: job_ok_def handler_ok_def)
  have "between up down (job_up j @ concat (map job_up js) @ up') (job_down j @ concat (map job_down js) @ down') (cs, ss)"
    using Cons.prems(2) by simp
  from job_carried [OF ok(1) this Cons.prems(3,4)] obtain c1 s1 where
    run: "tun_leads up down (cl_accept (j_id j) (j_handler j ?c) cs, ss) (c1, s1)" and
    ready: "between up down (concat (map job_up js) @ up') (concat (map job_down js) @ down') (c1, s1)" and
    st: "job_done c1 s1 (j, ?c, ?t)" "keeps (cs, ss) (c1, s1)" "s_connects s1 = s_connects ss @ job_connects j" and
    reg: "inner (c_reg c1) = Map.empty" "inner (s_reg s1) = Map.empty" by blast
  from Cons.IH [OF ok(2) ready reg] obtain cs' ss' served where
    IH: "map fst served = js" "tun_serves up down (job_tasks served) (c1, s1) (cs', ss')"
      "between up down up' down' (cs', ss')" "list_all (job_done cs' ss') served"
      "s_connects ss' = s_connects s1 @ concat (map job_connects js)" "keeps (c1, s1) (cs', ss')"
      "inner (c_reg cs') = Map.empty" "inner (s_reg ss') = Map.empty" by blast
  have "job_done cs' ss' (j, ?c, ?t)" using st(1) IH(6) by (rule job_done_keeps)
  moreover have "keeps (cs, ss) (cs', ss')" using st(2) IH(6) by (rule keeps_trans)
  moreover have "tun_serves up down (job_tasks ((j, ?c, ?t) # served)) (cs, ss) (cs', ss')"
    using tun_serves.next_one [OF env run IH(2)] by simp
  ultimately show ?case
    using IH st(3) by (intro exI [of _ cs'] exI [of _ ss'] exI [of _ "(j, ?c, ?t) # served"]) simp
qed

text \<open>
  All the jobs are done, one after the other, by a run on a new mux connection whose bounded channels
  are respected and empty in the end.
\<close>

definition all_served :: "job list \<Rightarrow> bool" where
  "all_served js \<longleftrightarrow>
     (\<exists>up down cs ss served. map fst served = js \<and>
        tun_serves up down (job_tasks served) (cl_init (wire_items down), srv_init (wire_items up)) (cs, ss) \<and>
        flow_steps up down (flow_start up down) (drained_flow (cs, ss)) \<and>
        list_all (job_done cs ss) served \<and> s_connects ss = concat (map job_connects js) \<and>
        inner (c_reg cs) = Map.empty \<and> inner (s_reg ss) = Map.empty)"

lemma jobs_all_served:
  assumes "list_all job_ok js"
  shows "all_served js"
proof -
  let ?up = "concat (map job_up js)" and ?down = "concat (map job_down js)"
  have "between ?up ?down (?up @ []) (?down @ []) (cl_init (wire_items ?down), srv_init (wire_items ?up))"
    using between_start [of ?up ?down] by (simp del: map_map)
  from jobs_carried [OF assms this] obtain cs ss served where "map fst served = js"
    "tun_serves ?up ?down (job_tasks served) (cl_init (wire_items ?down), srv_init (wire_items ?up)) (cs, ss)"
    "list_all (job_done cs ss) served" "s_connects ss = s_connects (srv_init (wire_items ?up)) @ concat (map job_connects js)"
    "inner (c_reg cs) = Map.empty" "inner (s_reg ss) = Map.empty"
    by (auto simp: cl_init_def srv_init_def registry_new_def simp del: map_map)
  moreover have "s_connects (srv_init (wire_items ?up)) = []" by (simp add: srv_init_def)
  moreover have "running (cl_init (wire_items ?down), srv_init (wire_items ?up))"
    by (simp add: running_def cl_init_def srv_init_def)
  moreover note serves_flow [OF _ tun_reachable.start, of ?up ?down _ "(cs, ss)", unfolded drained_start]
  ultimately show ?thesis
    unfolding all_served_def
    by (intro exI [of _ ?up] exI [of _ ?down] exI [of _ cs] exI [of _ ss] exI [of _ served]) simp
qed

subsection \<open>The handlers when their OPEN is answered\<close>

text \<open>
  Every await succeeds, the OPEN is answered with \<open>ok\<close>, and \<open>xs\<close> is what the local program writes next.
\<close>

definition answered_env :: "cid \<Rightarrow> bool \<Rightarrow> bytes list \<Rightarrow> mux_env" where
  "answered_env c ok xs = \<lparr>close_ok = True, reads = map (\<lambda>x. (ReadOk x, True)) xs, data_cid = c, ack_cid = Suc c,
     open_ok = True, ack_res = AckGot ok, reply_ok = True, data_ok = True\<rparr>"

text \<open>What goes through a channel is written to the connection behind it.\<close>

definition drained :: "bytes list \<Rightarrow> bytes" where
  "drained vs = tcp_written (relay_writer (map (\<lambda>v. (Some v, True)) vs))"

lemma drained_concat [simp]: "drained vs = concat vs"
  unfolding drained_def by (induction vs) auto

lemma open_relay:
  "[] \<notin> set xs \<Longrightarrow> relay_reader i ok (map (\<lambda>x. (ReadOk x, True)) xs) = map (\<lambda>x. ESendFrame (Data i x) True) xs"
  by (induction xs) auto

lemma relay_input_reads: "[] \<notin> set xs \<Longrightarrow> relay_input (map (\<lambda>x. (ReadOk x, True)) xs) = concat xs"
  by (induction xs) auto

lemma sends_write_nothing: "tcp_written (map (\<lambda>x. ESendFrame (Data i x) True) xs) = []"
  by (induction xs) auto

definition first_effect :: "u32 \<Rightarrow> proxy_request \<Rightarrow> effect" where
  "first_effect i req =
     (if pr_is_connect req then ETcpWrite connection_established True
      else ESendFrame (Data i (as_bytes (pr_headers req) @ pr_body req)) True)"

lemma handlers_acked:
  fixes i :: u32 and c :: cid
  assumes "[] \<notin> set xs"
  defines "sends \<equiv> ESpawn i c # map (\<lambda>x. ESendFrame (Data i x) True) xs"
  shows "handle_via_mux (answered_env c True xs) i req = handler_effects c i (pr_host req) True (first_effect i req # sends)"
    and "handle_socks_via_mux_with_timeout (answered_env c True xs) i dest =
       handler_effects c i dest True (ETcpWrite (socks5_reply SOCKS5_REP_SUCCESS) True # sends)"
  using assms
  by (simp_all add: mux_handler_defs handler_effects_def answered_env_def open_relay first_effect_def)

lemma handler_refused:
  "handle_via_mux (answered_env c False xs) i req =
     handler_effects c i (pr_host req) False [ERegistry (CloseOp i), ETcpWrite bad_gateway True]"
  by (simp add: mux_handler_defs handler_effects_def answered_env_def)

lemma handlers_timeout_agree:
  "handle_via_mux_with_timeout (answered_env c ok xs) i req = handle_via_mux (answered_env c ok xs) i req"
  by (cases ok) (simp_all add: mux_handler_defs answered_env_def)

lemma http_job_ok:
  assumes "[] \<notin> set xs" "valid_str (j_dest j)" "[] \<notin> set (j_back j)" "j_dest j = pr_host req"
    and handler: "\<And>c. j_handler j c = handle_via_mux (answered_env c (j_accepted j) xs) (j_id j) req"
    and "j_sent j = (if pr_is_connect req then [] else [as_bytes (pr_headers req) @ pr_body req]) @ xs"
  shows "job_ok j"
  unfolding job_ok_def
proof (intro conjI allI)
  fix c
  let ?env = "answered_env c (j_accepted j) xs"
  have env: "mux_task ?env (j_id j) (j_handler j c)" "data_cid ?env = c" "ack_cid ?env = Suc c"
    unfolding handler by (simp_all add: mux_task.plain answered_env_def)
  show "handler_ok j c"
  proof (cases "j_accepted j")
    case True
    let ?es = "first_effect (j_id j) req # ESpawn (j_id j) c # map (\<lambda>x. ESendFrame (Data (j_id j) x) True) xs"
    have "j_handler j c = handler_effects c (j_id j) (j_dest j) True ?es"
      using handlers_acked(1) [OF assms(1)] True by (simp add: handler assms(4))
    moreover have "list_all quiet ?es" "frames_of ?es = map (Data (j_id j)) (j_sent j)"
      by (simp_all add: first_effect_def quiet_sends frames_of_sends assms(6))
    ultimately show ?thesis
      unfolding handler_ok_def using env True by (intro exI [of _ ?env] exI [of _ ?es]) simp
  next
    case False
    then have "j_handler j c = handler_effects c (j_id j) (j_dest j) False [ERegistry (CloseOp (j_id j)), ETcpWrite bad_gateway True]"
      by (simp add: handler handler_refused assms(4))
    then show ?thesis unfolding handler_ok_def using env False by auto
  qed
qed (rule assms(2,3))+

lemma socks_job_ok:
  assumes "[] \<notin> set xs" "j_accepted j" "valid_str (j_dest j)" "[] \<notin> set (j_back j)" "j_sent j = xs"
    and handler: "\<And>c. j_handler j c = handle_socks_via_mux_with_timeout (answered_env c True xs) (j_id j) (j_dest j)"
  shows "job_ok j"
  unfolding job_ok_def
proof (intro conjI allI)
  fix c
  let ?env = "answered_env c True xs"
  let ?es = "ETcpWrite (socks5_reply SOCKS5_REP_SUCCESS) True # ESpawn (j_id j) c # map (\<lambda>x. ESendFrame (Data (j_id j) x) True) xs"
  have "mux_task ?env (j_id j) (j_handler j c)" "data_cid ?env = c" "ack_cid ?env = Suc c"
    unfolding handler by (simp_all add: mux_task.socks answered_env_def)
  moreover have "j_handler j c = handler_effects c (j_id j) (j_dest j) True ?es"
    using handlers_acked(2) [OF assms(1)] by (simp add: handler)
  moreover have "list_all quiet ?es" "frames_of ?es = map (Data (j_id j)) (j_sent j)"
    by (simp_all add: quiet_sends frames_of_sends assms(5))
  ultimately show "handler_ok j c"
    unfolding handler_ok_def using assms(2) by (intro exI [of _ ?env] exI [of _ ?es]) simp
qed (rule assms(3,4))+

subsection \<open>The entry points\<close>

lemma with_port_word: "word host \<Longrightarrow> valid_str (with_port host)"
  using word_ascii [of host] by (auto simp: with_port_def intro: ascii_valid_str)

lemma socks_dest_valid: "valid_str host \<Longrightarrow> valid_str (host @ '':'' @ show_u16 port)"
proof -
  assume "valid_str host"
  moreover have "valid_str ('':'' @ show_u16 port)"
    using word_ascii [OF word_show_u16] by (intro ascii_valid_str) simp
  ultimately show ?thesis by (simp only: valid_str_append)
qed

text \<open>The plain and the resilient HTTP entry point on a mux connection.\<close>

definition http_entry :: "bool \<Rightarrow> ('re, 'n) client_ctx \<Rightarrow> direct_env \<Rightarrow> mux_env \<Rightarrow> u32 \<Rightarrow> bytes \<Rightarrow> effect list" where
  "http_entry resilient cx denv menv i bs =
     (if resilient then handle_local_connection_resilient cx denv (Some menv) True i bs StillOpen
      else handle_local_connection cx denv menv i bs StillOpen)"

lemma http_entry_answered:
  assumes "parse_request_header bs StillOpen = Ready (Some (r, rest))"
    and "route_of cx (http_host_port (pr_host (to_request r))) = Some False"
  shows "http_entry resilient cx denv (answered_env c ok xs) i bs = handle_via_mux (answered_env c ok xs) i (to_request r)"
  using assms handlers_timeout_agree
  by (simp add: http_entry_def handle_local_connection_def handle_local_connection_resilient_def)

lemma http_tcp_written:
  "[] \<notin> set xs \<Longrightarrow> tcp_written (handle_via_mux (answered_env c True xs) i req) =
     (if pr_is_connect req then connection_established else [])"
  by (simp add: handlers_acked(1) handler_effects_def first_effect_def sends_write_nothing)

text \<open>
  A GET of the tests to a target that can be reached or not, which answers \<open>ys\<close>, and a CONNECT after
  which \<open>xs\<close> is written and \<open>ys\<close> comes back.
\<close>

definition get_job ::
  "bool \<Rightarrow> ('re, 'n) client_ctx \<Rightarrow> direct_env \<Rightarrow> u32 \<times> string \<times> string \<times> bool \<times> bytes list \<Rightarrow> job" where
  "get_job resilient cx denv = (\<lambda>(i, path, host, reachable, ys).
     \<lparr>j_id = i, j_dest = with_port host, j_reachable = reachable,
      j_handler = (\<lambda>c. http_entry resilient cx denv
        (answered_env c (is_dest_allowed (with_port host) \<and> reachable) []) i (as_bytes (get_request path host))),
      j_sent = [as_bytes (get_request path host)], j_back = ys\<rparr>)"

definition connect_job :: "bool \<Rightarrow> ('re, 'n) client_ctx \<Rightarrow> direct_env \<Rightarrow> u32 \<Rightarrow> string \<Rightarrow> bytes list \<Rightarrow> bytes list \<Rightarrow> job" where
  "connect_job resilient cx denv i dest xs ys =
     \<lparr>j_id = i, j_dest = dest, j_reachable = True,
      j_handler = (\<lambda>c. http_entry resilient cx denv (answered_env c True xs) i (as_bytes (connect_request dest))),
      j_sent = xs, j_back = ys\<rparr>"

definition socks_job :: "(cid \<Rightarrow> effect list) \<Rightarrow> u32 \<Rightarrow> string \<Rightarrow> bytes list \<Rightarrow> bytes list \<Rightarrow> job" where
  "socks_job h i dest xs ys =
     \<lparr>j_id = i, j_dest = dest, j_reachable = True, j_handler = h, j_sent = xs, j_back = ys\<rparr>"

lemma get_entry:
  assumes "word path" "word host" "length (get_request path host) \<le> 4096"
    and "route_of cx (http_host_port (with_port host)) = Some False"
  defines "req \<equiv> to_request (with_port host, get_request path host, [])"
  shows "http_entry resilient cx denv (answered_env c ok []) i (as_bytes (get_request path host)) =
       handle_via_mux (answered_env c ok []) i req"
    and "pr_host req = with_port host" "\<not> pr_is_connect req"
    and "as_bytes (pr_headers req) @ pr_body req = as_bytes (get_request path host)"
proof -
  have parsed: "parse_request_header (as_bytes (get_request path host)) StillOpen =
      Ready (Some ((with_port host, get_request path host, []), []))"
    using get_request_parsed [OF assms(1,2), of "[]" StillOpen] assms(3) by (simp add: MAX_HEADER_BYTES_def)
  show req: "pr_host req = with_port host" "\<not> pr_is_connect req"
    "as_bytes (pr_headers req) @ pr_body req = as_bytes (get_request path host)"
    by (simp_all add: req_def to_request_def get_request_def starts_with_def)
  show "http_entry resilient cx denv (answered_env c ok []) i (as_bytes (get_request path host)) =
      handle_via_mux (answered_env c ok []) i req"
    using http_entry_answered [OF parsed, of cx] assms(4) req(1) by (simp add: req_def)
qed

lemma connect_entry:
  assumes "word dest" "CHR '':'' \<in> set dest" "length (connect_request dest) \<le> MAX_HEADER_BYTES"
    and "route_of cx (http_host_port dest) = Some False"
  defines "req \<equiv> to_request (dest, connect_request dest, [])"
  shows "http_entry resilient cx denv (answered_env c True xs) i (as_bytes (connect_request dest)) =
       handle_via_mux (answered_env c True xs) i req"
    and "pr_host req = dest" "pr_is_connect req"
proof -
  have parsed: "parse_request_header (as_bytes (connect_request dest)) StillOpen =
      Ready (Some ((dest, connect_request dest, []), []))"
    using connect_request_parsed [OF assms(1), of "[]" StillOpen] assms(2,3) by (simp add: with_port_def)
  show req: "pr_host req = dest" "pr_is_connect req"
    by (simp_all add: req_def to_request_def connect_request_def starts_with_def)
  show "http_entry resilient cx denv (answered_env c True xs) i (as_bytes (connect_request dest)) =
      handle_via_mux (answered_env c True xs) i req"
    using http_entry_answered [OF parsed, of cx] assms(4) req(1) by (simp add: req_def)
qed

subsection \<open>Properties\<close>

text \<open>C5: GETs of the tests through the tunnel get their answers, with either HTTP entry point of the
  client, any number of them one after the other on one mux connection: for all paths and hosts of
  graphic ASCII characters, with a request of at most 4096 bytes, that the client routes to the
  tunnel, there is a run, with bounded channels, in which the server
  connects to the host of each request that its filter lets through, with port 80 when it has none.
  If that succeeds, the upstream gets the request unchanged and answers it in whatever pieces
  it receives it, and the local program reads, in whatever pieces the answer travels back, status
  200 with the body the upstream sent; otherwise it reads status 502, and the requests after it are
  not disturbed. In the end both registries are empty.\<close>

theorem gets_through_tunnel:
  assumes "\<forall>(i, path, host, reachable, ys) \<in> set rs.
       word path \<and> word host \<and> length (get_request path host) \<le> 4096 \<and>
       route_of cx (http_host_port (with_port host)) = Some False \<and>
       concat ys = upstream_head @ upstream_body \<and> [] \<notin> set ys"
  shows "all_served (map (get_job resilient cx denv) rs) \<and>
     (\<forall>(i, path, host, reachable, ys) \<in> set rs.
       let j = get_job resilient cx denv (i, path, host, reachable, ys); rq = as_bytes (get_request path host)
       in if is_dest_allowed (with_port host) \<and> reachable
          then (\<forall>chunks fin. concat chunks = drained (j_sent j) \<and> [] \<notin> set chunks \<longrightarrow>
                 http_upstream_task chunks fin True True =
                   Ready [ETcpWrite upstream_head True, ETcpWrite upstream_body True]) \<and>
               (\<forall>c. http_get_via_proxy True True host path (tcp_written (j_handler j c) @ drained (j_back j)) StillOpen =
                 (rq, Ready (Some (200, as_bytes ''hello-upstream''))))
          else (\<forall>c. http_get_via_proxy True True host path (tcp_written (j_handler j c)) StillOpen =
                 (rq, Ready (Some (502, [])))))"
proof (intro conjI ballI)
  show "all_served (map (get_job resilient cx denv) rs)"
  proof (rule jobs_all_served, unfold list_all_iff set_map, intro ballI)
    fix j assume "j \<in> get_job resilient cx denv ` set rs"
    then obtain i path host re ys where j: "j = get_job resilient cx denv (i, path, host, re, ys)"
      and r: "(i, path, host, re, ys) \<in> set rs" by auto
    from bspec [OF assms r] have r: "word path" "word host" "length (get_request path host) \<le> 4096"
      "route_of cx (http_host_port (with_port host)) = Some False" "[] \<notin> set ys"
      by auto
    note entry = get_entry [OF r(1-4)]
    show "job_ok j"
      by (rule http_job_ok [where xs = "[]" and req = "to_request (with_port host, get_request path host, [])"])
         (simp_all add: j get_job_def entry r with_port_word j_accepted_def)
  qed
next
  fix r assume r: "r \<in> set rs"
  obtain i path host re ys where rs: "r = (i, path, host, re, ys)" by (cases r)
  let ?rq = "as_bytes (get_request path host)"
  from bspec [OF assms r] have h: "word path" "word host" "length (get_request path host) \<le> 4096"
    "route_of cx (http_host_port (with_port host)) = Some False" "concat ys = upstream_head @ upstream_body"
    by (auto simp: rs)
  have "[] \<notin> set [?rq]" by (simp add: get_request_def as_bytes_def)
  with fixture_get_round_trip [OF h(1-3), of "[?rq]"] have
    "http_get_via_proxy True True host path (upstream_head @ upstream_body) StillOpen =
       (?rq, Ready (Some (200, as_bytes ''hello-upstream'')))" by (simp add: prod_eq_iff)
  moreover have "http_get_via_proxy True True host path bad_gateway StillOpen = (?rq, Ready (Some (502, [])))"
    using response_read [of "''Bad Gateway''" "[]" "[]" host path 502 "[]" StillOpen] by (simp add: answers_are_responses)
  moreover have "tcp_written (http_entry resilient cx denv (answered_env c ok []) i ?rq) =
      (if ok then [] else bad_gateway)" for c ok
    using get_entry [OF h(1-4)] by (simp add: http_tcp_written handler_refused handler_effects_def)
  ultimately show "case r of (i, path, host, reachable, ys) \<Rightarrow>
       let j = get_job resilient cx denv (i, path, host, reachable, ys); rq = as_bytes (get_request path host)
       in if is_dest_allowed (with_port host) \<and> reachable
          then (\<forall>chunks fin. concat chunks = drained (j_sent j) \<and> [] \<notin> set chunks \<longrightarrow>
                 http_upstream_task chunks fin True True =
                   Ready [ETcpWrite upstream_head True, ETcpWrite upstream_body True]) \<and>
               (\<forall>c. http_get_via_proxy True True host path (tcp_written (j_handler j c) @ drained (j_back j)) StillOpen =
                 (rq, Ready (Some (200, as_bytes ''hello-upstream''))))
          else (\<forall>c. http_get_via_proxy True True host path (tcp_written (j_handler j c)) StillOpen =
                 (rq, Ready (Some (502, []))))"
    using fixture_get_round_trip [OF h(1-3)] h(5) by (simp add: rs get_job_def Let_def)
qed

theorem gets_through_tunnel_witness:
  "all_served (map (get_job False demo_ctx demo_direct)
     [(1, ''/'', ''web.org'', True, [upstream_head, upstream_body]), (2, ''/'', ''a.com:99'', False, [upstream_head @ upstream_body]),
      (3, ''/x'', ''web.org'', True, [upstream_head @ upstream_body])])"
proof -
  have "word ''/''" "word ''/x''" "word ''web.org''" "word ''a.com:99''" "length (get_request ''/'' ''web.org'') \<le> 4096"
    "length (get_request ''/'' ''a.com:99'') \<le> 4096" "length (get_request ''/x'' ''web.org'') \<le> 4096"
    "[] \<notin> set [upstream_head, upstream_body]" "[] \<notin> set [upstream_head @ upstream_body]" by code_simp+
  then have "\<forall>(i, path, host, reachable, ys) \<in> set [(1, ''/'', ''web.org'', True, [upstream_head, upstream_body]),
        (2, ''/'', ''a.com:99'', False, [upstream_head @ upstream_body]),
        (3, ''/x'', ''web.org'', True, [upstream_head @ upstream_body])].
       word path \<and> word host \<and> length (get_request path host) \<le> 4096 \<and>
       route_of demo_ctx (http_host_port (with_port host)) = Some False \<and>
       concat ys = upstream_head @ upstream_body \<and> [] \<notin> set ys"
    using demo_ctx_route by simp
  from gets_through_tunnel [OF this] show ?thesis by blast
qed

text \<open>C6: a tunnel opened with CONNECT or over SOCKS5, as the tests do, is transparent: for every
  target that the client routes to the tunnel and the server's filter lets through, there is a run in
  which the server connects to that target, whatever the local program writes after the answer
  reaches it unchanged, and its bytes, here those of the echo server in any pieces, come back
  unchanged after the positive answer, which is the one that the helpers of the tests wait for.\<close>

theorem echo_through_tunnel:
  assumes "[] \<notin> set xs" and "[] \<notin> set ys" and "drained ys = tcp_written (copy_loop ETcpWrite (map (\<lambda>x. (ReadOk x, True)) xs))"
    and "is_dest_allowed dest"
  shows "drained ys = drained xs \<and>
     (word dest \<and> CHR '':'' \<in> set dest \<and> length (connect_request dest) \<le> MAX_HEADER_BYTES \<and>
       route_of cx (http_host_port dest) = Some False \<longrightarrow>
       all_served [connect_job resilient cx denv i dest xs ys] \<and>
       (\<forall>c. connect_via_proxy True True dest [tcp_written (j_handler (connect_job resilient cx denv i dest xs ys) c)] StillOpen =
          (as_bytes (connect_request dest), Some (Ready (Some []))))) \<and>
     (dest = host @ '':'' @ show_u16 port \<and> valid_str host \<and> length host < 256 \<and>
       route_of cx (split_host_port dest) = Some False \<longrightarrow>
       (\<exists>w h. (\<forall>c. handle_socks_connection_resilient cx denv (Some (answered_env c True xs)) True True i w StillOpen =
            ETcpWrite [5, 0] True # h c) \<and>
          all_served [socks_job h i dest xs ys] \<and>
          (\<forall>c. connect_via_socks5 True True True dest ([5, 0] @ tcp_written (h c) @ drained ys) StillOpen =
            (w, Ready (Some ((), drained ys))))))"
proof (intro conjI impI)
  show "drained ys = drained xs" using assms(1,3) copy_loop_tcp relay_input_reads by simp
next
  assume "word dest \<and> CHR '':'' \<in> set dest \<and> length (connect_request dest) \<le> MAX_HEADER_BYTES \<and>
       route_of cx (http_host_port dest) = Some False"
  then have h: "word dest" "CHR '':'' \<in> set dest" "length (connect_request dest) \<le> MAX_HEADER_BYTES"
    "route_of cx (http_host_port dest) = Some False" by simp_all
  note entry = connect_entry [OF h]
  have "valid_str dest" using with_port_word [OF h(1)] h(2) by (simp add: with_port_def)
  then have "job_ok (connect_job resilient cx denv i dest xs ys)"
    by (intro http_job_ok [where xs = xs and req = "to_request (dest, connect_request dest, [])"])
       (simp_all add: connect_job_def entry assms j_accepted_def)
  then show "all_served [connect_job resilient cx denv i dest xs ys]" by (simp add: jobs_all_served)
  show "\<forall>c. connect_via_proxy True True dest [tcp_written (j_handler (connect_job resilient cx denv i dest xs ys) c)] StillOpen =
      (as_bytes (connect_request dest), Some (Ready (Some [])))"
    using fixture_connect [of dest "[connection_established]" StillOpen] h
    by (simp add: connect_job_def entry http_tcp_written assms(1)) (simp add: connection_established_def as_bytes_def)
next
  assume h: "dest = host @ '':'' @ show_u16 port \<and> valid_str host \<and> length host < 256 \<and>
       route_of cx (split_host_port dest) = Some False"
  let ?h = "\<lambda>c. handle_socks_via_mux_with_timeout (answered_env c True xs) i dest"
  have reply: "tcp_written (?h c) = socks5_reply SOCKS5_REP_SUCCESS" for c
    by (simp add: handlers_acked(2) [OF assms(1)] handler_effects_def sends_write_nothing)
  obtain w where w: "fst (connect_via_socks5 True True True dest ([5, 0] @ socks5_reply 0 @ drained ys) StillOpen) = w"
    "parse_socks5_request True w StillOpen = ([5, 0], Ready (Some (dest, [])))"
    "snd (connect_via_socks5 True True True dest ([5, 0] @ socks5_reply 0 @ drained ys) StillOpen) =
       Ready (Some ((), drained ys))"
    using fixture_socks5 [of host port 0 "drained ys" StillOpen] h by auto
  have "route_of cx (split_host_port dest) = Some False" using h by blast
  with w(2) have "\<forall>c. handle_socks_connection_resilient cx denv (Some (answered_env c True xs)) True True i w StillOpen =
      ETcpWrite [5, 0] True # ?h c"
    by (simp add: handle_socks_connection_resilient_def)
  moreover have "all_served [socks_job ?h i dest xs ys]"
    using socks_job_ok [OF assms(1), of "socks_job ?h i dest xs ys"] socks_dest_valid [of host port] h assms(2,4)
    by (simp add: jobs_all_served socks_job_def j_accepted_def)
  moreover have "\<forall>c. connect_via_socks5 True True True dest ([5, 0] @ tcp_written (?h c) @ drained ys) StillOpen =
      (w, Ready (Some ((), drained ys)))"
    using w by (simp add: reply SOCKS5_REP_SUCCESS_def prod_eq_iff)
  ultimately show "\<exists>w h. (\<forall>c. handle_socks_connection_resilient cx denv (Some (answered_env c True xs)) True True i w StillOpen =
            ETcpWrite [5, 0] True # h c) \<and>
          all_served [socks_job h i dest xs ys] \<and>
          (\<forall>c. connect_via_socks5 True True True dest ([5, 0] @ tcp_written (h c) @ drained ys) StillOpen =
            (w, Ready (Some ((), drained ys))))" by (intro exI [of _ w] exI [of _ ?h]) simp
qed

theorem echo_through_tunnel_witness:
  "all_served [connect_job True demo_ctx demo_direct 1 ''web.org:80'' [[1, 2], [3]] [[1], [2, 3]]]"
proof -
  let ?xs = "[[1, 2], [3]] :: bytes list"
  have "[] \<notin> set ?xs" "[] \<notin> set ([[1], [2, 3]] :: bytes list)"
    "drained [[1], [2, 3]] = tcp_written (copy_loop ETcpWrite (map (\<lambda>x. (ReadOk x, True)) ?xs))"
    by simp_all
  note echo = echo_through_tunnel [OF this demo_dest, THEN conjunct2, THEN conjunct1, THEN mp, THEN conjunct1]
  have "word ''web.org:80''" "length (connect_request ''web.org:80'') \<le> MAX_HEADER_BYTES"
    by code_simp (simp add: connect_request_def MAX_HEADER_BYTES_def crlf_def)
  moreover have "CHR '':'' \<in> set ''web.org:80''" by simp
  moreover note demo_ctx_route
  ultimately show ?thesis by (intro echo conjI)
qed

end
