(* ===== verification/Stalled_Stream.thy ===== *)
theory Stalled_Stream
  imports End_To_End
begin

text \<open>
  What the bounded channels of the streams mean for each other (\<open>StreamRegistry::route\<close> awaits the
  send, \<open>session.rs\<close>): a stream whose receiving side does not read holds up the reader loop of its end,
  and with it all streams of the connection.
\<close>

subsection \<open>Runs in which nothing is received\<close>

text \<open>Channels only fill up, so it is enough that the last state fits.\<close>

lemma fits_before: "fits g got \<Longrightarrow> (\<And>c. prefix (f c) (g c)) \<Longrightarrow> fits f got"
  unfolding fits_def by (meson le_trans prefix_length_le)

lemma run_sent_grows:
  "tun_run up down ms x = Some y \<Longrightarrow>
     prefix (c_sent (fst x) c) (c_sent (fst y) c) \<and> prefix (s_sent (snd x) c) (s_sent (snd y) c)"
proof (induction up down ms x rule: tun_run.induct)
  case (2 up down m ms cs ss)
  then show ?case
    using cl_data.sent_grows(1) [OF cl_move_step, of m cs _ c] prefix_order.trans
    by (fastforce split: option.splits if_splits)
next
  case (3 up down m ms cs ss)
  then show ?case
    using srv_data.sent_grows(1) [OF srv_move_step, of m ss _ c] prefix_order.trans
    by (fastforce split: option.splits if_splits)
qed simp

lemma run_filled:
  assumes "tun_run up down ms x = Some y" "tun_reachable up down x" "running x"
    and "fits (c_sent (fst y)) gc" "fits (s_sent (snd y)) gs"
  shows "flow_steps up down (filled gc gs x) (filled gc gs y)"
  using assms
proof (induction ms arbitrary: x)
  case (Cons m ms)
  obtain cs ss where x: "x = (cs, ss)" by (cases x)
  from Cons.prems(1) obtain x' where x': "tun_run up down [m] x = Some x'" "tun_run up down ms x' = Some y"
    unfolding x by (cases m) (auto split: option.splits if_splits)
  have tun: "tun_reachable up down x'" using Cons.prems(2) x'(1) tun_run_reachable by blast
  have fit: "fits (c_sent (fst x')) gc" "fits (s_sent (snd x')) gs"
    using Cons.prems(4,5) run_sent_grows [OF x'(2)] by (auto intro: fits_before)
  have "running x' \<and> flow_steps up down (filled gc gs x) (filled gc gs x')"
  proof (cases m)
    case (Inl c)
    with x' x obtain cs' where c: "cl_move c cs = Some cs'" "x' = (cs', ss)"
      by (auto split: option.splits if_splits)
    with Cons.prems(3) have "running x'" using cl_move_running [OF c(1)] by (simp add: running_def x)
    with c tun_causal [OF tun] fit show ?thesis
      using filled_client [OF cl_move_step [OF c(1)]] by (simp add: running_def x)
  next
    case (Inr c)
    with x' x obtain ss' where c: "srv_move c ss = Some ss'" "x' = (cs, ss')"
      by (auto split: option.splits if_splits)
    with Cons.prems(3) have "running x'" using srv_move_running [OF c(1)] by (simp add: running_def x)
    with c tun_causal [OF tun] fit show ?thesis
      using filled_server [OF srv_move_step [OF c(1)]] by (simp add: running_def x)
  qed
  with Cons.IH [OF x'(2) tun] Cons.prems(4,5) show ?case by (auto intro: rtranclp_trans)
qed simp

text \<open>
  Stream 1 is opened, its target answers 33 pieces, and nothing is received from its channel at the
  client: 32 fill it, and the reader waits to pass the last one on. What is on the wire behind it
  stays there.
\<close>

definition stall_up :: "frame list" where
  "stall_up = [Open 1 ''web.org:80'']"

definition stall_pieces :: "bytes list" where
  "stall_pieces = replicate 32 [0]"

definition stall_down :: "frame list" where
  "stall_down = OpenAck 1 True # map (Data 1) stall_pieces @ [Data 1 [1], Data 2 [9]]"

lemma demo_stall:
  "\<exists>f. flow_steps stall_up stall_down (flow_start stall_up stall_down) f \<and>
     c_todo (f_client f) = [EChanSend 0 [1]] \<and> f_cgot f 0 = 0 \<and>
     length (c_sent (f_client f) 0) = f_cgot f 0 + DATA_CHANNEL_CAP \<and> c_in (f_client f) = wire_items [Data 2 [9]]"
proof -
  let ?up = stall_up and ?down = stall_down and ?dest = "''web.org:80''"
  let ?c0 = "cl_init (wire_items ?down)" and ?s0 = "srv_init (wire_items ?up)"
  let ?es = "[ETcpWrite (socks5_reply SOCKS5_REP_SUCCESS) True, ESpawn 1 0]"
  let ?c1 = "asking_client 1 ?dest True ?es ?c0"
  let ?s1 = "opened_server 1 ?dest (stall_pieces @ [[1]]) [] ?s0"
  let ?later = "map (Data 1) stall_pieces @ [Data 1 [1], Data 2 [9]]"
  let ?c2 = "?c1\<lparr>c_in := wire_items ?later, c_acks := (c_acks ?c0)(1 := None), c_tasks := c_tasks ?c0 @ [(1, ?es)]\<rparr>"
  let ?sends = "map (\<lambda>y. ESendFrame (Data 1 y) True) (stall_pieces @ [[1]])"
  let ?rest = "[ESendFrame (Close 1) True, ERegistry (CloseOp 1)]"
  let ?s2 = "?s1\<lparr>s_relays := s_relays ?s0 @ [(1, ?rest)], s_out := s_out ?s1 @ frames_of ?sends\<rparr>"
  let ?c3 = "?c2\<lparr>c_in := wire_items [Data 1 [1], Data 2 [9]], c_sent := (c_sent ?c2)(0 := c_sent ?c2 0 @ stall_pieces)\<rparr>"
  let ?c4 = "?c3\<lparr>c_in := wire_items [Data 2 [9]], c_todo := [ERegistry (RouteOp 1 [1])]\<rparr>"
  let ?c5 = "?c4\<lparr>c_todo := [EChanSend 0 [1]]\<rparr>"
  note defs = asking_client_def opened_server_def stall_up_def stall_down_def Let_def cl_init_def srv_init_def
  have pieces: "[] \<notin> set (stall_pieces @ [[1]])" by (simp add: stall_pieces_def)
  have handler: "handle_socks_via_mux_with_timeout (answered_env 0 True []) 1 ?dest = handler_effects (c_next ?c0) 1 ?dest True ?es"
    using handlers_acked(2) [of "[]" 0 1 ?dest] by (simp add: cl_init_def)
  have "cl_move (MSocks 1 (answered_env 0 True []) ?dest) ?c0 = Some (cl_accept 1 (handler_effects (c_next ?c0) 1 ?dest True ?es) ?c0)"
    unfolding handler [symmetric] by (simp add: answered_env_def cl_init_def)
  then have "tun_leads ?up ?down (?c0, ?s0) (cl_accept 1 (handler_effects (c_next ?c0) 1 ?dest True ?es) ?c0, ?s0)"
    by (rule leads_client [OF _ _ leads_refl]) (simp add: cl_init_def)
  also have "tun_leads ?up ?down (cl_accept 1 (handler_effects (c_next ?c0) 1 ?dest True ?es) ?c0, ?s0) (?c1, ?s0)"
    by (rule phase_ask [where down' = ?down]) (simp_all add: cl_init_def srv_init_def)
  also have "tun_leads ?up ?down (?c1, ?s0) (?c1, ?s1)"
    using demo_dest by (intro phase_open) (simp_all add: defs ascii_valid_str)
  also have "tun_leads ?up ?down (?c1, ?s1) (?c2, ?s1)"
    by (intro phase_ack [where down' = ?later]) (simp_all add: defs)
  also have "tun_leads ?up ?down (?c2, ?s1) (?c2, ?s2)"
    using upstream_relay [OF pieces, of 1]
    by (intro relay_runs [where up' = "[]"]) (simp_all add: defs list_all_iff del: map_append)
  also have "tun_leads ?up ?down (?c2, ?s2) (?c3, ?s2)"
    by (intro client_reads_data [where i = 1 and down' = "[Data 2 [9]]"])
       (simp_all add: defs frames_of_sends del: encode.simps)
  also have "tun_leads ?up ?down (?c3, ?s2) (?c4, ?s2)"
    by (rule leads_client [of MRead, OF _ _ leads_refl]) (simp_all add: defs frames_of_sends del: encode.simps)
  also have "tun_leads ?up ?down (?c4, ?s2) (?c5, ?s2)"
    by (rule leads_client [of MReader, OF _ _ leads_refl])
       (simp_all add: defs frames_of_sends registry_defs del: encode.simps)
  finally obtain ms where ms: "tun_run ?up ?down ms (?c0, ?s0) = Some (?c5, ?s2)"
    by (auto simp: tun_leads_def)
  have "running (?c0, ?s0)" by (simp add: running_def cl_init_def srv_init_def)
  moreover have "fits (c_sent ?c5) (\<lambda>_. 0)" "fits (s_sent ?s2) (\<lambda>_. 0)"
    by (simp_all add: fits_def defs stall_pieces_def DATA_CHANNEL_CAP_def)
  ultimately have "flow_steps ?up ?down (flow_start ?up ?down) (filled (\<lambda>_. 0) (\<lambda>_. 0) (?c5, ?s2))"
    using run_filled [OF ms tun_reachable.start, of "\<lambda>_. 0" "\<lambda>_. 0"] unfolding filled_start by simp
  then show ?thesis
    by (intro exI [of _ "filled (\<lambda>_. 0) (\<lambda>_. 0) (?c5, ?s2)"])
       (simp add: filled_def defs stall_pieces_def DATA_CHANNEL_CAP_def)
qed

subsection \<open>Properties\<close>

text \<open>C17: one stream holds up all others: while the reader of an end waits to pass a value on to a channel
  that is full and whose receiver is there, and as long as nothing is received from that channel and
  its receiver is not dropped, this end reads no frame of its connection and passes no value on to
  any stream, whatever else happens at either end.\<close>

theorem full_channel_stalls_all:
  assumes "flow_steps up down (flow_start up down) f" and "flow_steps up down f g"
  shows "(c_todo (f_client f) = EChanSend c d # es \<and> length (c_sent (f_client f) c) = f_cgot f c + DATA_CHANNEL_CAP \<and>
       f_cgot g c = f_cgot f c \<and> c \<notin> c_gone (f_client g) \<longrightarrow>
       c_in (f_client g) = c_in (f_client f) \<and> c_sent (f_client g) = c_sent (f_client f) \<and>
       c_todo (f_client g) = c_todo (f_client f)) \<and>
     (s_todo (f_server f) = EChanSend c d # es \<and> length (s_sent (f_server f) c) = f_sgot f c + DATA_CHANNEL_CAP \<and>
       f_sgot g c = f_sgot f c \<and> c \<notin> s_gone (f_server g) \<longrightarrow>
       s_in (f_server g) = s_in (f_server f) \<and> s_sent (f_server g) = s_sent (f_server f) \<and>
       s_todo (f_server g) = s_todo (f_server f))"
proof -
  have inv: "flow_inv up down f" using flow_steps_inv [OF assms(1) flow_start_inv] .
  have gone: "c_gone (f_client f) \<subseteq> c_gone (f_client g)" "s_gone (f_server f) \<subseteq> s_gone (f_server g)"
    using flow_steps_mono [OF assms(2)] by blast+
  show ?thesis
  proof (intro conjI impI; elim conjE)
    assume "c_todo (f_client f) = EChanSend c d # es" "c \<notin> c_gone (f_client g)"
      "length (c_sent (f_client f) c) = f_cgot f c + DATA_CHANNEL_CAP" and got: "f_cgot g c = f_cgot f c"
    moreover from this gone have "cl_data.waits c (f_cgot f c) (f_client f)" by (auto simp: cl_data.waits_def)
    ultimately have "same_client f g" using waits_client_steps [OF assms(2) inv] by blast
    then show "c_in (f_client g) = c_in (f_client f)" "c_sent (f_client g) = c_sent (f_client f)"
      "c_todo (f_client g) = c_todo (f_client f)" by (simp_all add: same_client_def)
  next
    assume "s_todo (f_server f) = EChanSend c d # es" "c \<notin> s_gone (f_server g)"
      "length (s_sent (f_server f) c) = f_sgot f c + DATA_CHANNEL_CAP" and got: "f_sgot g c = f_sgot f c"
    moreover from this gone have "srv_data.waits c (f_sgot f c) (f_server f)" by (auto simp: srv_data.waits_def)
    ultimately have "same_server f g" using waits_server_steps [OF assms(2) inv] by blast
    then show "s_in (f_server g) = s_in (f_server f)" "s_sent (f_server g) = s_sent (f_server f)"
      "s_todo (f_server g) = s_todo (f_server f)" by (simp_all add: same_server_def)
  qed
qed

theorem full_channel_stalls_all_witness:
  "\<exists>f. flow_steps stall_up stall_down (flow_start stall_up stall_down) f \<and>
     (\<forall>g. flow_steps stall_up stall_down f g \<and> f_cgot g 0 = 0 \<and> 0 \<notin> c_gone (f_client g) \<longrightarrow>
        c_in (f_client g) = wire_items [Data 2 [9]])"
proof -
  obtain f where f: "flow_steps stall_up stall_down (flow_start stall_up stall_down) f"
    "c_todo (f_client f) = [EChanSend 0 [1]]" "f_cgot f 0 = 0"
    "length (c_sent (f_client f) 0) = f_cgot f 0 + DATA_CHANNEL_CAP" "c_in (f_client f) = wire_items [Data 2 [9]]"
    using demo_stall by blast
  show ?thesis
  proof (intro exI [of _ f] conjI allI impI f(1); elim conjE)
    fix g assume "flow_steps stall_up stall_down f g" "f_cgot g 0 = 0" "0 \<notin> c_gone (f_client g)"
    with full_channel_stalls_all [OF f(1), of g 0 "[1]" "[]"] f(2-5)
    show "c_in (f_client g) = wire_items [Data 2 [9]]" by simp
  qed
qed

text \<open>One value received is enough: the reader goes on.\<close>

lemma receive_unblocks:
  assumes "flow_inv up down f" "c_todo (f_client f) = EChanSend c d # es" "c \<notin> c_gone (f_client f)"
    and "length (c_sent (f_client f) c) < f_cgot f c + DATA_CHANNEL_CAP"
  shows "\<exists>g. flow_step up down f g \<and> c_todo (f_client g) = es \<and>
     c_sent (f_client g) c = c_sent (f_client f) c @ [d]"
proof -
  let ?cs = "(cl_apply (EChanSend c d) (f_client f))\<lparr>c_todo := es\<rparr>"
  have "cl_step (f_client f) ?cs"
    using cl_step.reader_eff [OF assms(2)] assms(3) by simp
  moreover have "fits (c_sent ?cs) (f_cgot f)"
    using assms(1,4) by (auto simp: flow_inv_def fits_def)
  ultimately have "flow_step up down f (f\<lparr>f_client := ?cs\<rparr>)"
    using assms(1) by (intro flow_step.client) (auto simp: flow_inv_def)
  then show ?thesis by (intro exI [of _ "f\<lparr>f_client := ?cs\<rparr>"]) simp
qed

end
