(* ===== verification/Handler_Runs.thy ===== *)
theory Handler_Runs
  imports Client_Mux
begin

text \<open>
  A request handler of the client while everything else goes on (\<open>handle_via_mux\<close>,
  \<open>handle_via_mux_with_timeout\<close> and \<open>handle_socks_via_mux_with_timeout\<close> of \<open>client/src/lib.rs\<close>): a run of
  the connection from the moment the handler takes it. The effects the handler has performed are a
  prefix of those it was started with; what they leave behind in the session is the subject here.
\<close>

subsection \<open>Handlers that come to an end\<close>

text \<open>
  The handlers whose awaits all return: OPEN cannot be sent, the stream is refused, the deadline
  passes (with the handlers that have one), a write fails, or the relay ends.
\<close>

inductive mux_task_ends :: "mux_env \<Rightarrow> u32 \<Rightarrow> effect list \<Rightarrow> bool" where
  http: "handler_ends recv_ack_timeout (http_first_ok env req) env \<Longrightarrow>
     mux_task_ends env i (handle_via_mux_with_timeout env i req)"
| socks: "handler_ends recv_ack_timeout (reply_ok env) env \<Longrightarrow>
     mux_task_ends env i (handle_socks_via_mux_with_timeout env i host)"
| plain: "handler_ends recv_ack (http_first_ok env req) env \<Longrightarrow>
     mux_task_ends env i (handle_via_mux env i req)"

lemma mux_task_reg_ops:
  assumes "mux_task env i es"
  shows "\<exists>closes. set closes \<subseteq> {CloseOp i} \<and> length closes \<le> 1 \<and> reg_ops_of es = RegOp i (data_cid env) # closes"
  using assms
  by (cases rule: mux_task.cases)
     (auto simp: http_mux_timeout.handle_ops socks_mux.handle_ops http_mux.handle_ops split: if_splits
       intro: exI [of _ "[CloseOp i]"] exI [of _ "[]"])

lemma reg_ops_of_mem: "ERegistry x \<in> set es \<longleftrightarrow> x \<in> set (reg_ops_of es)"
  by (induction es rule: reg_ops_of.induct) auto

lemma mux_task_ends_closes:
  assumes "mux_task_ends env i es"
  shows "mux_task env i es" "ERegistry (CloseOp i) \<in> set es"
  using assms
  by (cases rule: mux_task_ends.cases;
      auto simp: reg_ops_of_mem http_mux_timeout.handle_ops socks_mux.handle_ops http_mux.handle_ops
        intro: mux_task.intros)+

subsection \<open>The tasks of a session\<close>

text \<open>One task per handler, in the order in which they took the connection; channels belong to handlers.\<close>

definition tasks_listed :: "cl_session \<Rightarrow> bool" where
  "tasks_listed s \<longleftrightarrow> map fst (c_tasks s) = c_ids s \<and> ran (c_owner s) \<subseteq> set (c_ids s)"

lemma cl_step_listed: "cl_step s t \<Longrightarrow> tasks_listed s \<Longrightarrow> tasks_listed t"
proof (induction rule: cl_step.induct)
  case (accept env i es s)
  then show ?case by (auto simp: tasks_listed_def cl_accept_def ran_def)
next
  case (task_eff s xs i e es ys)
  then have "c_ids s = map fst (xs @ (i, es) # ys)" by (simp add: tasks_listed_def)
  with task_eff show ?case by (simp add: tasks_listed_def)
qed (simp_all add: tasks_listed_def)

lemma cl_reachable_listed: "cl_reachable items s \<Longrightarrow> tasks_listed s"
proof (induction rule: cl_reachable.induct)
  case start
  show ?case by (simp add: tasks_listed_def cl_init_def)
qed (rule cl_step_listed)

lemma only_task:
  assumes "tasks_listed s" "distinct (c_ids s)" "(i, es) \<in> set (c_tasks s)" "(i, fs) \<in> set (c_tasks s)"
  shows "es = fs"
  using assms eq_key_imp_eq_value [of "c_tasks s" i es fs] by (simp add: tasks_listed_def)

lemma cl_step_grows:
  assumes "cl_step s t"
  shows "suffix (c_in t) (c_in s)" "prefix (c_ids s) (c_ids t)" "prefix (c_out s) (c_out t)"
  using assms
  by (induction rule: cl_step.induct) (auto simp: cl_accept_def suffix_def cl_apply_out)

subsection \<open>What a handler has done\<close>

text \<open>
  \<open>handler_at items i c es0 s\<close>: the handler of stream \<open>i\<close> was started with \<open>es0\<close> and has come to the state
  \<open>s\<close>. While it is registered the stream has the handler's channel \<open>c\<close>, and it is so at most between
  the handler's registration and its close; what was sent is in the output, and a positive
  acknowledgement that it received came from the server.
\<close>

definition handler_at :: "ws_item list \<Rightarrow> u32 \<Rightarrow> cid \<Rightarrow> effect list \<Rightarrow> cl_session \<Rightarrow> bool" where
  "handler_at items i c es0 s \<longleftrightarrow>
     (\<exists>did es. (i, es) \<in> set (c_tasks s) \<and> es0 = did @ es \<and>
        (\<forall>c'. inner (c_reg s) i = Some c' \<longrightarrow>
           c' = c \<and> RegOp i c \<in> set (reg_ops_of did) \<and> CloseOp i \<notin> set (reg_ops_of did)) \<and>
        (\<forall>f. ESendFrame f True \<in> set did \<longrightarrow> f \<in> set (c_out s)) \<and>
        (\<forall>a consumed. EAckRecv a (Some True) \<in> set did \<longrightarrow> items = consumed @ c_in s \<longrightarrow> i \<in> acks_true consumed))"

lemma handler_at_other:
  assumes "handler_at items i c es0 s" "suffix (c_in t) (c_in s)" "set (c_out s) \<subseteq> set (c_out t)"
    and "\<And>es. (i, es) \<in> set (c_tasks s) \<Longrightarrow> (i, es) \<in> set (c_tasks t)"
    and "\<And>c'. inner (c_reg t) i = Some c' \<Longrightarrow> inner (c_reg s) i = Some c'"
    and "\<exists>consumed. items = consumed @ c_in s"
  shows "handler_at items i c es0 t"
proof -
  obtain new where new: "c_in s = new @ c_in t" using assms(2) by (auto simp: suffix_def)
  have acks: "i \<in> acks_true consumed" if "items = consumed @ c_in t"
    "\<forall>consumed. items = consumed @ c_in s \<longrightarrow> i \<in> acks_true consumed" for consumed
    using that new assms(6) by auto
  from assms(1) obtain did es where h: "(i, es) \<in> set (c_tasks s)" "es0 = did @ es"
    "\<forall>c'. inner (c_reg s) i = Some c' \<longrightarrow>
       c' = c \<and> RegOp i c \<in> set (reg_ops_of did) \<and> CloseOp i \<notin> set (reg_ops_of did)"
    "\<forall>f. ESendFrame f True \<in> set did \<longrightarrow> f \<in> set (c_out s)"
    "\<forall>a consumed. EAckRecv a (Some True) \<in> set did \<longrightarrow> items = consumed @ c_in s \<longrightarrow> i \<in> acks_true consumed"
    unfolding handler_at_def by blast
  show ?thesis
    unfolding handler_at_def
    using h assms(3-5) acks by (intro exI [of _ "did"] exI [of _ es]) blast
qed

lemma handler_at_start:
  assumes "cl_reachable items s" "i \<notin> set (c_ids s)"
  shows "handler_at items i c es0 (cl_accept i es0 s)"
proof -
  obtain consumed where "cl_data_inv consumed s" using cl_reachable_data [OF assms(1)] by blast
  then have "c_owner s c' = Some i" if "inner (c_reg s) i = Some c'" for c'
    using that by (rule cl_data_own)
  then have "inner (c_reg s) i \<noteq> Some c'" for c'
    using cl_reachable_listed [OF assms(1)] assms(2) by (fastforce simp: tasks_listed_def ran_def)
  then show ?thesis
    unfolding handler_at_def by (intro exI [of _ "[]"] exI [of _ es0]) (simp add: cl_accept_def)
qed

text \<open>A step of the handler itself.\<close>

lemma handler_at_own:
  assumes h: "handler_at items i c es0 s" and tasks: "c_tasks s = xs @ (i, e # es) # ys" and en: "cl_enabled s e"
    and reach: "cl_reachable items s" and dist: "distinct (c_ids s)"
    and ops: "reg_ops_of es0 = RegOp i c # closes" "set closes \<subseteq> {CloseOp i}" "length closes \<le> 1"
  shows "handler_at items i c es0 ((cl_apply e s)\<lparr>c_tasks := xs @ (i, es) # ys\<rparr>)"
proof -
  from h obtain did rest where d: "(i, rest) \<in> set (c_tasks s)" "es0 = did @ rest"
    "\<forall>c'. inner (c_reg s) i = Some c' \<longrightarrow>
       c' = c \<and> RegOp i c \<in> set (reg_ops_of did) \<and> CloseOp i \<notin> set (reg_ops_of did)"
    "\<forall>f. ESendFrame f True \<in> set did \<longrightarrow> f \<in> set (c_out s)"
    "\<forall>a consumed. EAckRecv a (Some True) \<in> set did \<longrightarrow> items = consumed @ c_in s \<longrightarrow> i \<in> acks_true consumed"
    unfolding handler_at_def by blast
  have rest: "rest = e # es"
    using only_task [OF cl_reachable_listed [OF reach] dist d(1)] tasks by simp
  let ?t = "(cl_apply e s)\<lparr>c_tasks := xs @ (i, es) # ys\<rparr>"
  have reg: "inner (c_reg ?t) i = Some c' \<Longrightarrow>
      c' = c \<and> RegOp i c \<in> set (reg_ops_of (did @ [e])) \<and> CloseOp i \<notin> set (reg_ops_of (did @ [e]))" for c'
  proof -
    assume in': "inner (c_reg ?t) i = Some c'"
    show ?thesis
    proof (cases "\<exists>x. e = ERegistry x")
      case True
      then obtain x where x: "e = ERegistry x" by blast
      from ops(1) d(2) rest x have r: "reg_ops_of did @ x # reg_ops_of es = RegOp i c # closes" by simp
      show ?thesis
      proof (cases "reg_ops_of did")
        case Nil
        with r have "x = RegOp i c" by simp
        with x in' Nil show ?thesis by (simp add: registry_defs)
      next
        case (Cons z zs)
        with r ops(2) have "x = CloseOp i" by (auto simp: append_eq_Cons_conv)
        with x in' show ?thesis by (simp add: registry_defs)
      qed
    next
      case False
      then have "reg_ops_of [e] = []" "c_reg (cl_apply e s) = c_reg s"
        by (cases e; auto split: option.split)+
      with in' d(3) show ?thesis by simp
    qed
  qed
  obtain consumed where c: "items = consumed @ c_in s" "cl_inv consumed s"
    using cl_reachable_inv [OF reach] by blast
  have task: "task_inv (acks_true consumed) s (i, e # es)" using c(2) tasks by (simp add: cl_inv_def)
  have ack: "i \<in> acks_true consumed'"
    if "EAckRecv a (Some True) \<in> set (did @ [e])" "items = consumed' @ c_in s" for a consumed'
  proof (cases "EAckRecv a (Some True) \<in> set did")
    case False
    with that have e: "e = EAckRecv a (Some True)" by simp
    with task have "c_ackowner s a = Some i" by (auto simp: task_inv_def)
    moreover have "c_ackq s a = Some True" using en e by simp
    ultimately have "i \<in> acks_true consumed" using c(2) by (simp add: cl_inv_def)
    with that(2) c(1) show ?thesis by simp
  qed (use d(5) that(2) in blast)
  have "f \<in> set (c_out ?t)" if "ESendFrame f True \<in> set (did @ [e])" for f
    using that d(4) by (auto simp: cl_apply_out)
  with reg ack d(2) rest show ?thesis
    unfolding handler_at_def by - (rule exI [of _ "did @ [e]"], rule exI [of _ es], simp, metis)
qed

text \<open>A step of anything else, which does not register the stream.\<close>

lemma task_reg_other:
  assumes "task_ok ow aow j sent acked (e # es)" "j \<noteq> i"
  shows "inner (c_reg (cl_apply e s)) i = inner (c_reg s) i"
  using assms by (cases e) (auto simp: registry_defs split: reg_op.splits option.splits)

lemma reader_reg_shrinks:
  assumes "reader_ack_ok A e" "inner (c_reg (cl_apply e s)) i = Some c"
  shows "inner (c_reg s) i = Some c"
  using assms by (cases e) (auto simp: reader_ack_ok_def registry_defs split: reg_op.splits option.splits if_splits)

lemma handler_at_step:
  assumes step: "cl_step s t" and h: "handler_at items i c es0 s" and reach: "cl_reachable items s"
    and dist: "distinct (c_ids t)"
    and ops: "reg_ops_of es0 = RegOp i c # closes" "set closes \<subseteq> {CloseOp i}" "length closes \<le> 1"
  shows "handler_at items i c es0 t"
proof -
  obtain consumed where c: "items = consumed @ c_in s" "cl_inv consumed s"
    using cl_reachable_inv [OF reach] by blast
  note grows = cl_step_grows [OF step]
  have ids: "i \<in> set (c_ids s)"
  proof -
    obtain es where "(i, es) \<in> set (c_tasks s)" using h by (auto simp: handler_at_def)
    then have "i \<in> set (map fst (c_tasks s))" by force
    with cl_reachable_listed [OF reach] show ?thesis by (simp add: tasks_listed_def)
  qed
  have other: "handler_at items i c es0 t"
    if "\<And>es. (i, es) \<in> set (c_tasks s) \<Longrightarrow> (i, es) \<in> set (c_tasks t)"
      "\<And>c'. inner (c_reg t) i = Some c' \<Longrightarrow> inner (c_reg s) i = Some c'"
    using handler_at_other [OF h grows(1) _ that] set_mono_prefix [OF grows(3)] c(1) by blast
  from step show ?thesis
  proof (cases rule: cl_step.cases)
    case (accept env j es)
    then show ?thesis by (intro other) (simp_all add: cl_accept_def)
  next
    case (task_eff xs j e es ys)
    show ?thesis
    proof (cases "j = i")
      case True
      with task_eff handler_at_own [OF h _ _ reach _ ops] dist show ?thesis by simp
    next
      case False
      have "task_inv (acks_true consumed) s (j, e # es)" using c(2) task_eff by (simp add: cl_inv_def)
      then obtain sent acked where "task_ok (c_owner s) (c_ackowner s) j sent acked (e # es)"
        by (auto simp: task_inv_def)
      from task_reg_other [OF this False] task_eff False show ?thesis by (intro other) auto
    qed
  next
    case (reader_eff e es)
    then have "reader_ack_ok (acks_true consumed) e" using c(2) by (simp add: cl_inv_def)
    note shrinks = reader_reg_shrinks [OF this]
    have "c_tasks t = c_tasks s" "c_reg t = c_reg (cl_apply e s)" using reader_eff(1) by simp_all
    with shrinks show ?thesis by (intro other) metis+
  qed (intro other; simp add: registry_defs)+
qed

lemma handler_at_run:
  assumes "cl_step\<^sup>*\<^sup>* (cl_accept i es0 s) t" "cl_reachable items s" "distinct (c_ids t)"
    and "mux_task env i es0" "data_cid env = c_next s" "ack_cid env = Suc (c_next s)"
  shows "handler_at items i (data_cid env) es0 t \<and> cl_reachable items t"
proof -
  obtain closes where ops: "reg_ops_of es0 = RegOp i (data_cid env) # closes" "set closes \<subseteq> {CloseOp i}"
    "length closes \<le> 1"
    using mux_task_reg_ops [OF assms(4)] by blast
  have start: "cl_reachable items (cl_accept i es0 s)"
    using assms(2) cl_step.accept [OF assms(4-6)] by (rule cl_reachable.step)
  from assms(1,3) show ?thesis
  proof (induction rule: rtranclp_induct)
    case base
    then have "i \<notin> set (c_ids s)" by (simp add: cl_accept_def)
    with handler_at_start [OF assms(2)] start show ?case by blast
  next
    case (step t u)
    then have "distinct (c_ids t)" using cl_step_grows(2) [OF step(2)] by (auto simp: prefix_def)
    with step.IH have "handler_at items i (data_cid env) es0 t" "cl_reachable items t" by simp_all
    with handler_at_step [OF step(2) _ _ step(4) ops] step(2) show ?case by (blast intro: cl_reachable.step)
  qed
qed

subsection \<open>Properties\<close>

text \<open>C35: no handler leaks its stream: whatever else happens on the connection, from the moment a
  handler takes it, with stream ids that are not reused, the stream is registered with the handler's
  own channel only, and only after the handler has registered it; and it is not registered, and
  never again, once the handler has come to its end, for whatever reason (OPEN not sent, stream
  refused, deadline, a failed write, end of the relay). The reader, the writer or the keeper may
  unregister it before.\<close>

theorem handler_releases_stream:
  assumes "cl_reachable items s" and "mux_task env i es0"
    and "data_cid env = c_next s" and "ack_cid env = Suc (c_next s)"
    and "cl_step\<^sup>*\<^sup>* (cl_accept i es0 s) t" and "distinct (c_ids t)"
  shows "\<exists>did es. (i, es) \<in> set (c_tasks t) \<and> es0 = did @ es \<and>
     (\<forall>c. inner (c_reg t) i = Some c \<longrightarrow> c = data_cid env \<and> ERegistry (RegOp i c) \<in> set did) \<and>
     (ERegistry (CloseOp i) \<in> set did \<or> mux_task_ends env i es0 \<and> es = [] \<longrightarrow> inner (c_reg t) i = None)"
proof -
  obtain did es where h: "(i, es) \<in> set (c_tasks t)" "es0 = did @ es"
    "\<forall>c'. inner (c_reg t) i = Some c' \<longrightarrow>
       c' = data_cid env \<and> RegOp i (data_cid env) \<in> set (reg_ops_of did) \<and> CloseOp i \<notin> set (reg_ops_of did)"
    using handler_at_run [OF assms(5,1,6,2-4)] unfolding handler_at_def by blast
  have "CloseOp i \<in> set (reg_ops_of did)" if "mux_task_ends env i es0" "es = []"
    using mux_task_ends_closes(2) [OF that(1)] that(2) h(2) by (simp add: reg_ops_of_mem)
  with h have "inner (c_reg t) i = None" if "CloseOp i \<in> set (reg_ops_of did) \<or> mux_task_ends env i es0 \<and> es = []"
    using that by (cases "inner (c_reg t) i") auto
  with h show ?thesis unfolding reg_ops_of_mem by - (rule exI [of _ did], rule exI [of _ es], blast)
qed

lemma cl_run_steps: "cl_run ms s = Some t \<Longrightarrow> cl_step\<^sup>*\<^sup>* s t"
proof (induction ms arbitrary: s)
  case (Cons m ms)
  then show ?case
    by (auto split: option.splits) (meson cl_move_step converse_rtranclp_into_rtranclp)
qed simp

text \<open>The SOCKS5 handler of the demo up to the end of its relay.\<close>

definition demo_task :: "effect list" where
  "demo_task = handle_socks_via_mux_with_timeout demo_mux 1 ''web.org:80''"

lemma demo_task_ends: "mux_task_ends demo_mux 1 demo_task"
  unfolding demo_task_def by (rule mux_task_ends.socks) (simp add: handler_ends_def demo_mux_def)

lemma demo_handler_run:
  "\<exists>t. cl_run ([MTask 0, MTask 0, MTask 0, MRead, MReader] @ replicate 6 (MTask 0))
       (cl_accept 1 demo_task (cl_init demo_answers)) = Some t \<and> c_ids t = [1] \<and> c_tasks t = [(1, [])]"
  by (simp add: demo_task_def demo_answers_def cl_init_def demo_mux_def cl_accept_def numeral_eq_Suc
      handle_socks_via_mux_with_timeout_def open_stream_def do_mux_relay_def registry_defs relay_finish_def
      del: encode.simps)

theorem handler_releases_stream_witness:
  "\<exists>t. cl_step\<^sup>*\<^sup>* (cl_accept 1 demo_task (cl_init demo_answers)) t \<and> c_tasks t = [(1, [])] \<and>
     ERegistry (RegOp 1 0) \<in> set demo_task \<and> inner (c_reg t) 1 = None"
proof -
  obtain t where t: "cl_step\<^sup>*\<^sup>* (cl_accept 1 demo_task (cl_init demo_answers)) t" "c_ids t = [1]" "c_tasks t = [(1, [])]"
    using demo_handler_run cl_run_steps by blast
  have cids: "data_cid demo_mux = c_next (cl_init demo_answers)" "ack_cid demo_mux = Suc (c_next (cl_init demo_answers))"
    by (simp_all add: demo_mux_def cl_init_def)
  have "distinct (c_ids t)" using t(2) by simp
  from handler_releases_stream [OF cl_reachable.start mux_task_ends_closes(1) [OF demo_task_ends] cids t(1) this]
  have "inner (c_reg t) 1 = None" using t(3) demo_task_ends by auto
  moreover have "ERegistry (RegOp 1 0) \<in> set demo_task"
    by (simp add: demo_task_def handle_socks_via_mux_with_timeout_def open_stream_def demo_mux_def)
  ultimately show ?thesis using t by blast
qed

end
