(* ===== verification/Success_Answers.thy ===== *)
theory Success_Answers
  imports Tunnel_System Handler_Runs
begin

text \<open>
  What a positive answer to a local program means: the line "200 Connection established" and the SOCKS5
  reply "succeeded" come after the server has connected.
\<close>

definition success_answers :: "bytes set" where
  "success_answers = {connection_established, socks5_reply SOCKS5_REP_SUCCESS}"

lemma failure_answers: "bad_gateway \<notin> success_answers" "socks5_reply SOCKS5_REP_GENERAL_FAILURE \<notin> success_answers"
proof -
  have "bad_gateway \<noteq> connection_established" "bad_gateway \<noteq> socks5_reply SOCKS5_REP_SUCCESS"
    "socks5_reply SOCKS5_REP_GENERAL_FAILURE \<noteq> connection_established"
    "socks5_reply SOCKS5_REP_GENERAL_FAILURE \<noteq> socks5_reply SOCKS5_REP_SUCCESS"
    by code_simp+
  then show "bad_gateway \<notin> success_answers" "socks5_reply SOCKS5_REP_GENERAL_FAILURE \<notin> success_answers"
    by (simp_all add: success_answers_def)
qed

text \<open>
  A handler that writes a positive answer is the opening of its stream, the receipt of a positive
  acknowledgement, the answer, and a relay that writes nothing more.
\<close>

lemma relay_no_write: "ETcpWrite w ok \<notin> set (do_mux_relay env i)"
  by (auto simp: do_mux_relay_def dest: relay_reader_effects)

lemma success_task_shape:
  assumes "mux_task env i es0" "ETcpWrite w ok \<in> set es0" "w \<in> success_answers"
  shows "\<exists>d rest. es0 = [ERegistry (RegOp i (data_cid env)), EAckInsert i (ack_cid env), ESendFrame (Open i d) True,
       EAckRecv (ack_cid env) (Some True), ETcpWrite w ok] @ rest"
  using assms failure_answers relay_no_write
  by (cases rule: mux_task.cases; cases "ack_res env")
     (auto simp: mux_handler_defs split: if_splits simp del: do_mux_relay_def)

lemma success_done:
  assumes "mux_task env i es0" "es0 = did @ es" "ETcpWrite w ok \<in> set did" "w \<in> success_answers"
  shows "\<exists>d. ESendFrame (Open i d) True \<in> set did \<and> EAckRecv (ack_cid env) (Some True) \<in> set did"
proof -
  obtain d rest where "did @ es = [ERegistry (RegOp i (data_cid env)), EAckInsert i (ack_cid env),
      ESendFrame (Open i d) True, EAckRecv (ack_cid env) (Some True)] @ ETcpWrite w ok # rest"
    using success_task_shape [OF assms(1) _ assms(4)] assms(2,3) by fastforce
  with assms(3) have "prefix [ERegistry (RegOp i (data_cid env)), EAckInsert i (ack_cid env),
      ESendFrame (Open i d) True, EAckRecv (ack_cid env) (Some True)] did"
    by (auto simp: append_eq_Cons_conv)
  then show ?thesis using set_mono_prefix by fastforce
qed

subsection \<open>Properties\<close>

text \<open>C11: a local program is told that it is connected only when it is: when a handler of the client has
  written "200 Connection established" or the SOCKS5 reply "succeeded", its OPEN was sent, the server
  has established a TCP connection for this stream to the destination of that OPEN, and the
  destination passes the server's filter. This holds for both ends of a connection side by side,
  however the handler came to where it is, with stream ids that are not reused.\<close>

theorem success_means_connected:
  assumes "tun_reachable up down (cs, ss)" and "distinct (c_ids cs)"
    and "cl_reachable (wire_items down) s0" and "mux_task env i es0"
    and "data_cid env = c_next s0" and "ack_cid env = Suc (c_next s0)"
    and "cl_step\<^sup>*\<^sup>* (cl_accept i es0 s0) cs"
    and "(i, es) \<in> set (c_tasks cs)" and "es0 = did @ es"
    and "ETcpWrite w ok \<in> set did" and "w \<in> success_answers"
  shows "\<exists>d. ESendFrame (Open i d) True \<in> set did \<and> is_dest_allowed d \<and> (i, d) \<in> set (s_reached ss)"
proof -
  from tun_ends [OF assms(1)] tun_causal [OF assms(1)] have
    t: "cl_reachable (wire_items down) cs" "srv_reachable (wire_items up) ss"
      "causal down (c_in cs) (s_out ss)" "causal up (s_in ss) (c_out cs)" by simp_all
  have "handler_at (wire_items down) i (data_cid env) es0 cs"
    using handler_at_run [OF assms(7,3,2,4-6)] by blast
  then obtain did' es' where h: "(i, es') \<in> set (c_tasks cs)" "es0 = did' @ es'"
    "\<forall>f. ESendFrame f True \<in> set did' \<longrightarrow> f \<in> set (c_out cs)"
    "\<forall>a consumed. EAckRecv a (Some True) \<in> set did' \<longrightarrow> wire_items down = consumed @ c_in cs \<longrightarrow> i \<in> acks_true consumed"
    unfolding handler_at_def by blast
  have "es' = es" using only_task [OF cl_reachable_listed [OF t(1)] assms(2) h(1) assms(8)] .
  with h(2) assms(9) have did: "did' = did" by simp
  obtain d where d: "ESendFrame (Open i d) True \<in> set did" "EAckRecv (ack_cid env) (Some True) \<in> set did"
    using success_done [OF assms(4,9-11)] by blast
  obtain consumed where c: "wire_items down = consumed @ c_in cs" using cl_reachable_inv [OF t(1)] by blast
  obtain read where r: "prefix read (s_out ss)" "consumed = wire_items read"
    by (rule causal_consumed [OF t(3) c])
  have "i \<in> acks_true consumed" using h(4) d(2) c unfolding did by blast
  then have "OpenAck i True \<in> set (s_out ss)"
    using acks_true_wire [of i read] r set_mono_prefix [OF r(1)] by auto
  from srv_acks_connected [OF t(2,4) this] obtain d' where
    d': "(i, d') \<in> set (s_reached ss)" "is_dest_allowed d'" "Open i d' \<in> set (c_out cs)" by blast
  have "Open i d \<in> set (c_out cs)" using h(3) d(1) unfolding did by blast
  then have "Open i d = Open i d'"
    using at_most_one_filtered [OF client_one_open_per_id [OF t(1) assms(2), of i] _ d'(3)] by simp
  with d d' show ?thesis by auto
qed

lemma tun_run_client:
  "tun_run up down ms x = Some y \<Longrightarrow> cl_step\<^sup>*\<^sup>* (fst x) (fst y)"
proof (induction up down ms x rule: tun_run.induct)
  case (2 up down m ms cs ss)
  then show ?case
    by (auto split: option.splits if_splits) (meson cl_move_step converse_rtranclp_into_rtranclp)
next
  case (3 up down m ms cs ss)
  then show ?case by (auto split: option.splits if_splits)
qed simp

lemma demo_answered_run:
  "\<exists>cs ss. tun_run tun_up tun_down (take 14 (tl tun_schedule))
       (cl_accept 1 demo_task (cl_init (wire_items tun_down)), srv_init (wire_items tun_up)) = Some (cs, ss) \<and>
     c_ids cs = [1] \<and> c_tasks cs = [(1, drop 6 demo_task)]"
  by (simp add: demo_task_def tun_schedule_def tun_up_def tun_down_def cl_init_def srv_init_def demo_mux_def
      cl_accept_def demo_dispatch handle_socks_via_mux_with_timeout_def open_stream_def do_mux_relay_def
      registry_defs relay_finish_def decode_encode ascii_valid_str del: encode.simps)

theorem success_means_connected_witness:
  "\<exists>cs ss. tun_reachable tun_up tun_down (cs, ss) \<and> c_tasks cs = [(1, drop 6 demo_task)] \<and>
     ETcpWrite (socks5_reply SOCKS5_REP_SUCCESS) True \<in> set (take 6 demo_task) \<and> (1, ''web.org:80'') \<in> set (s_reached ss)"
proof -
  let ?c0 = "cl_init (wire_items tun_down)" and ?s0 = "srv_init (wire_items tun_up)"
  obtain cs ss where run: "tun_run tun_up tun_down (take 14 (tl tun_schedule)) (cl_accept 1 demo_task ?c0, ?s0) = Some (cs, ss)"
    "c_ids cs = [1]" "c_tasks cs = [(1, drop 6 demo_task)]"
    using demo_answered_run by blast
  have cids: "data_cid demo_mux = c_next ?c0" "ack_cid demo_mux = Suc (c_next ?c0)"
    by (simp_all add: demo_mux_def cl_init_def)
  note task = mux_task_ends_closes(1) [OF demo_task_ends]
  have "causal tun_down (c_in (cl_accept 1 demo_task ?c0)) (s_out ?s0)" using tun_causal [OF tun_reachable.start [of tun_up tun_down]] by simp
  with tun_reachable.client [OF tun_reachable.start cl_step.accept [OF task cids]]
  have "tun_reachable tun_up tun_down (cl_accept 1 demo_task ?c0, ?s0)" by blast
  then have reach: "tun_reachable tun_up tun_down (cs, ss)" using run(1) tun_run_reachable by blast
  have steps: "cl_step\<^sup>*\<^sup>* (cl_accept 1 demo_task ?c0) cs" using tun_run_client [OF run(1)] by simp
  have written: "ETcpWrite (socks5_reply SOCKS5_REP_SUCCESS) True \<in> set (take 6 demo_task)"
    "set (take 6 demo_task) \<inter> range (\<lambda>d. ESendFrame (Open 1 d) True) \<subseteq> {ESendFrame (Open 1 ''web.org:80'') True}"
    by (auto simp: demo_task_def handle_socks_via_mux_with_timeout_def open_stream_def do_mux_relay_def demo_mux_def)
  have "distinct (c_ids cs)" "(1, drop 6 demo_task) \<in> set (c_tasks cs)" using run(2,3) by simp_all
  from success_means_connected [OF reach this(1) cl_reachable.start task cids steps this(2) append_take_drop_id [symmetric] written(1)]
  obtain d where "ESendFrame (Open 1 d) True \<in> set (take 6 demo_task)" "(1, d) \<in> set (s_reached ss)"
    by (auto simp: success_answers_def)
  with written reach run(3) show ?thesis by (intro exI [of _ cs] exI [of _ ss]) auto
qed

end
