(* ===== verification/Integration_Tests.thy ===== *)
theory Integration_Tests
  imports End_To_End
begin

text \<open>
  Scenarios of \<open>integration-tests/tests\<close> in which something is refused or decided by a rule, as
  Booleans like the unit tests: the functions of the model that a scenario runs, on its inputs, and
  its assertions. Parameters stand for crates. The scenarios in which a program gets an answer
  through the tunnel are the properties of \<open>End_To_End\<close>.
\<close>

subsection \<open>The handshake (\<open>protocol.rs\<close>, \<open>errors.rs\<close>)\<close>

text \<open>The first message the client of \<open>/control\<close> receives: none when the server closes.\<close>

fun first_message :: "ws_action list \<Rightarrow> ws_item option" where
  "first_message (SendMsg m # _) = Some (Some m)"
| "first_message _ = None"

definition control_invalid_version :: "(string list \<Rightarrow> ws_item option \<Rightarrow> ws_action list) \<Rightarrow> bool" where
  "control_invalid_version control =
     (case first_message (control [''user1''] (Some (Some (WsText ''Hello:abc:user1'')))) of
        Some (Some (WsText text)) \<Rightarrow> starts_with text ''Bye:Invalid version format''
      | _ \<Rightarrow> False)"

definition control_missing_hello_prefix :: "(string list \<Rightarrow> ws_item option \<Rightarrow> ws_action list) \<Rightarrow> bool" where
  "control_missing_hello_prefix control =
     (first_message (control [''user1''] (Some (Some (WsText ''garbage'')))) = None)"

definition unauthorized_user_rejected ::
  "(ws_message \<Rightarrow> string option) \<Rightarrow> string \<Rightarrow> (string list \<Rightarrow> ws_item option \<Rightarrow> ws_action list) \<Rightarrow> bool" where
  "unauthorized_user_rejected to_text version control =
     (obtain_token_with_version to_text True True True
        (first_message (control [''allowed''] (Some (Some (WsText (hello_text version ''ghost'')))))) = None)"

text \<open>Whether a mux session starts on these messages, with these tokens in the store.\<close>

definition mux_first_frame_must_be_hello :: "(string \<Rightarrow> 'u option) \<Rightarrow> 'u set \<Rightarrow> bool" where
  "mux_first_frame_must_be_hello up store =
     (let bad_frame = Open 1 ''example.com:80''
      in mux_authenticate up [Some (WsBinary (encode bad_frame))] store = (store, None))"

definition token_is_single_use ::
  "(string list \<Rightarrow> 'u srv_conn list \<Rightarrow> 'u list) \<Rightarrow> string \<Rightarrow> 'u \<Rightarrow> string \<Rightarrow> bool" where
  "token_is_single_use sessions version token shown =
     (let mux = MuxConn [Some (WsBinary (encode (Hello shown)))]
      in sessions [''testuser'']
           [ControlConn token (Some (Some (WsText (hello_text version ''testuser'')))), mux, mux] = [token])"

lemma control_tests:
  "vp ''abc'' = None \<Longrightarrow>
     control_invalid_version (\<lambda>users first. snd (process_control vp rm us token first users store))"
  "control_missing_hello_prefix (\<lambda>users first. snd (process_control vp rm us token first users store))"
proof -
  note hello = process_control_hello [where version = "''abc''" and user = "''user1''", simplified]
  show "control_invalid_version (\<lambda>users first. snd (process_control vp rm us token first users store))"
    if "vp ''abc'' = None"
    using that by (simp add: control_invalid_version_def hello starts_with_def)
  show "control_missing_hello_prefix (\<lambda>users first. snd (process_control vp rm us token first users store))"
    by (simp add: control_missing_hello_prefix_def process_control_def starts_with_def)
qed

lemma token_tests:
  assumes "CHR '':'' \<notin> set version"
  shows "(\<And>s. to_text (WsText s) = Some s) \<Longrightarrow>
       unauthorized_user_rejected to_text version (\<lambda>users first. snd (process_control vp rm us token first users store))"
    and "mux_first_frame_must_be_hello up store"
    and "vp version = Some v \<Longrightarrow> rm SUPPORTED_VERSION v \<Longrightarrow> up (us token) = Some token \<Longrightarrow> is_ascii (us token) \<Longrightarrow>
       token_is_single_use (\<lambda>users cs. snd (auth_run vp rm us up users cs {})) version token (us token)"
proof -
  note hello = process_control_hello [OF assms, folded hello_text_def]
  show "unauthorized_user_rejected to_text version (\<lambda>users first. snd (process_control vp rm us token first users store))"
    if "\<And>s. to_text (WsText s) = Some s"
    by (simp add: unauthorized_user_rejected_def hello obtain_token_with_version_def that strip_prefix_def
        starts_with_def split: option.split)
  have "frame_wf (Open 1 ''example.com:80'')" by code_simp
  then show "mux_first_frame_must_be_hello up store"
    by (simp add: mux_first_frame_must_be_hello_def mux_authenticate_def decode_encode del: encode.simps)
  show "token_is_single_use (\<lambda>users cs. snd (auth_run vp rm us up users cs {})) version token (us token)"
    if "vp version = Some v" "rm SUPPORTED_VERSION v" "up (us token) = Some token" "is_ascii (us token)"
    using that by (simp add: token_is_single_use_def hello mux_authenticate_def token_insert_def token_remove_def
        decode_encode ascii_valid_str del: encode.simps)
qed


subsection \<open>Routing (\<open>http.rs\<close>, \<open>socks.rs\<close>)\<close>

text \<open>
  The decision that a scenario turns on, with the configuration it builds; what follows it is the
  handler of that path (\<open>Direct_Relay\<close>, \<open>End_To_End\<close>).
  \<open>routes\<close> is the decision of the client with a configuration, for the HTTP and for the SOCKS5 way of
  splitting the destination, and \<open>upstream_port\<close> the port of the upstream server.
\<close>

definition bypass_rule_connects_directly ::
  "(string \<Rightarrow> string) \<Rightarrow> (('re, 'n) routing_config \<Rightarrow> string \<times> u16 \<Rightarrow> bool option) \<Rightarrow> u16 \<Rightarrow> bool" where
  "bypass_rule_connects_directly lo routes upstream_port =
     (let host = ''127.0.0.1:'' @ show_u16 upstream_port;
          routing = \<lparr>rc_proxy = [], rc_bypass = [host_pattern_parse lo host], rc_geosite = None, rc_cidrs = []\<rparr>
      in routes routing (http_host_port host) = Some True \<and> routes routing (split_host_port host) = Some True)"

definition cidr_bypass_connects_directly ::
  "'n \<Rightarrow> (('re, 'n) routing_config \<Rightarrow> string \<times> u16 \<Rightarrow> bool option) \<Rightarrow> u16 \<Rightarrow> bool" where
  "cidr_bypass_connects_directly net routes upstream_port =
     (let host = ''127.0.0.1:'' @ show_u16 upstream_port;
          routing = \<lparr>rc_proxy = [], rc_bypass = [], rc_geosite = None, rc_cidrs = [net]\<rparr>
      in routes routing (http_host_port host) = Some True)"

definition proxy_rule_overrides_bypass ::
  "(string \<Rightarrow> string) \<Rightarrow> (('re, 'n) routing_config \<Rightarrow> string \<times> u16 \<Rightarrow> bool option) \<Rightarrow> u16 \<Rightarrow> bool" where
  "proxy_rule_overrides_bypass lo routes upstream_port =
     (let host = ''localhost:'' @ show_u16 upstream_port;
          routing = \<lparr>rc_proxy = [host_pattern_parse lo host], rc_bypass = [host_pattern_parse lo host],
            rc_geosite = None, rc_cidrs = []\<rparr>
      in routes routing (http_host_port host) = Some False)"

lemma http_host_port_text: "http_host_port (h @ '':'' @ show_u16 port) = (h, port)"
  by (rule http_split.split_port)

lemma routing_tests:
  fixes cx :: "('re, 'n) client_ctx"
  defines "routes \<equiv> \<lambda>routing. route_of (cx\<lparr>cx_routing := routing\<rparr>)"
  shows "bypass_rule_connects_directly (cx_lower cx) routes port"
    and "cx_contains cx net (V4 127 0 0 1) \<Longrightarrow> cidr_bypass_connects_directly net routes port"
    and "proxy_rule_overrides_bypass (cx_lower cx) routes port"
proof -
  have lower: "to_lowercase lo ''127.0.0.1'' = ''127.0.0.1''" "to_lowercase lo ''localhost'' = ''localhost''" for lo
    by code_simp+
  have pattern: "host_pattern_parse lo (''127.0.0.1:'' @ show_u16 port) = \<lparr>pat_host = ''127.0.0.1'', pat_port = Some port\<rparr>"
    "host_pattern_parse lo (''localhost:'' @ show_u16 port) = \<lparr>pat_host = ''localhost'', pat_port = Some port\<rparr>" for lo
    using host_pattern_parse_port [of "''127.0.0.1''" lo port] host_pattern_parse_port [of "''localhost''" lo port]
    by (simp_all add: is_ascii_def ascii_lower_def)
  have trimmed: "trim_brackets ''127.0.0.1'' = ''127.0.0.1''" by code_simp
  have split: "http_host_port (''127.0.0.1:'' @ show_u16 port) = (''127.0.0.1'', port)"
    "split_host_port (''127.0.0.1:'' @ show_u16 port) = (''127.0.0.1'', port)"
    "http_host_port (''localhost:'' @ show_u16 port) = (''localhost'', port)"
    using http_host_port_text [of "''127.0.0.1''" port] http_host_port_text [of "''localhost''" port]
      socks_split.split_port [of "''127.0.0.1''" port] trimmed by simp_all
  have ip: "parse_ip ''127.0.0.1'' = Some (V4 127 0 0 1)" by code_simp
  note tests = bypass_rule_connects_directly_def cidr_bypass_connects_directly_def proxy_rule_overrides_bypass_def
  note decide = tests pattern [simplified] split [simplified] lower ip routes_def route_of_def should_bypass_total geosite_ok_def pattern_accepts_def
  show "bypass_rule_connects_directly (cx_lower cx) routes port" by (simp add: decide Let_def)
  show "cidr_bypass_connects_directly net routes port" if "cx_contains cx net (V4 127 0 0 1)"
    using that by (simp add: decide Let_def)
  show "proxy_rule_overrides_bypass (cx_lower cx) routes port" by (simp add: decide Let_def)
qed

subsection \<open>Refused requests (\<open>socks.rs\<close>, \<open>errors.rs\<close>, \<open>reconnect.rs\<close>)\<close>

text \<open>\<open>answer\<close> is all that the front end under test writes to the program, from what it sends.\<close>

definition socks5_unsupported_command_rejected :: "(bytes \<Rightarrow> bytes) \<Rightarrow> string \<Rightarrow> u16 \<Rightarrow> bool" where
  "socks5_unsupported_command_rejected answer target_host port =
     (let domain = as_bytes target_host;
          req = [0x05, 0x02, 0x00, 0x03, of_nat (length domain)] @ domain @ u16_to_be_bytes port;
          reply = answer ([0x05, 0x01, 0x00] @ req)
      in reply ! 1 = 0x00 \<and> length reply = 12 \<and> reply ! 3 = 0x07)"

definition ssrf_request :: string where
  "ssrf_request = concat [''GET / HTTP/1.1'' @ crlf, ''Host: 127.0.0.1:19999'' @ crlf, ''Connection: close'' @ crlf, crlf]"

definition ssrf_destination_blocked :: "(bytes \<Rightarrow> bytes) \<Rightarrow> bool" where
  "ssrf_destination_blocked answer = contains_str (of_bytes (answer (as_bytes ssrf_request))) ''502''"

definition returns_502_when_no_server_available :: "(bytes \<Rightarrow> bytes) \<Rightarrow> u16 \<Rightarrow> bool" where
  "returns_502_when_no_server_available answer upstream_port =
     (let host = ''localhost:'' @ show_u16 upstream_port
      in case snd (http_get_via_proxy True True host ''/'' (answer (as_bytes (get_request ''/'' host))) StillOpen) of
           Ready (Some (status, _)) \<Rightarrow> status = 502
         | _ \<Rightarrow> False)"

lemma socks5_command_test:
  "socks5_unsupported_command_rejected (\<lambda>bs. fst (parse_socks5_request True bs StillOpen)) target_host port"
proof -
  let ?rest = "of_nat (length target_host) # as_bytes target_host @ u16_to_be_bytes port"
  have "parse_socks5_request True (socks_greeting [0] @ [5, 2, 0, 3] @ ?rest) StillOpen =
      ([5, 0] @ socks5_reply SOCKS5_REP_CMD_NOT_SUPPORTED, Ready None)"
    using parse_socks5_errors [of "[0]" True ?rest StillOpen 2 0 3] by simp
  then show ?thesis
    by (simp add: socks5_unsupported_command_rejected_def Let_def socks_greeting_def socks5_reply_def socks_consts)
qed

text \<open>
  The proxy of \<open>errors.rs\<close> runs without reconnection: the server's filter turns the destination down, so
  that the OPEN is refused, in a run of both ends.
\<close>

lemma ssrf_test:
  fixes denv :: direct_env and i :: u32
  assumes "route_of cx (http_host_port ''127.0.0.1:19999'') = Some False"
  defines "handler \<equiv> \<lambda>c bs. handle_local_connection cx denv (answered_env c (is_dest_allowed ''127.0.0.1:19999'') []) i bs StillOpen"
  shows "ssrf_destination_blocked (\<lambda>bs. tcp_written (handler c bs))"
    and "all_served [\<lparr>j_id = i, j_dest = ''127.0.0.1:19999'', j_reachable = True,
           j_handler = (\<lambda>c. handler c (as_bytes ssrf_request)), j_sent = [as_bytes ssrf_request], j_back = []\<rparr>]"
proof -
  let ?dest = "''127.0.0.1:19999''"
  let ?req = "to_request (with_port ?dest, get_request ''/'' ?dest, [])"
  have request: "ssrf_request = get_request ''/'' ?dest" by (simp add: ssrf_request_def get_request_def)
  have facts: "word ''/''" "word ?dest" "length (get_request ''/'' ?dest) \<le> 4096" "\<not> is_dest_allowed ?dest"
    "with_port ?dest = ?dest" by code_simp+
  have "route_of cx (http_host_port (with_port ?dest)) = Some False" using assms(1) facts(5) by simp
  note entry = get_entry(2-4) [OF facts(1-3) this]
    and plain = get_entry(1) [OF facts(1-3) this, where resilient = False, unfolded http_entry_def, simplified]
  have handler: "handler c (as_bytes ssrf_request) = handle_via_mux (answered_env c (is_dest_allowed ?dest) []) i ?req" for c
    unfolding handler_def request using plain by simp
  have "contains_str (of_bytes bad_gateway) ''502''" by code_simp
  then show "ssrf_destination_blocked (\<lambda>bs. tcp_written (handler c bs))"
    by (simp add: ssrf_destination_blocked_def handler facts(4) handler_refused handler_effects_def)
  let ?job = "\<lparr>j_id = i, j_dest = ?dest, j_reachable = True,
      j_handler = (\<lambda>c. handler c (as_bytes ssrf_request)), j_sent = [as_bytes ssrf_request], j_back = []\<rparr>"
  have "job_ok ?job"
    using entry facts(4,5)
    by (intro http_job_ok [where xs = "[]" and req = ?req])
       (simp_all add: handler [unfolded request] j_accepted_def request ascii_valid_str)
  then show "all_served [?job]" by (intro jobs_all_served) simp
qed

text \<open>A port has at most five digits.\<close>

lemma show_nat_length: "n < 10 ^ Suc k \<Longrightarrow> length (show_nat n) \<le> Suc k"
proof (induction k arbitrary: n)
  case (Suc k)
  then show ?case
    using Suc.IH [of "n div 10"] by (cases "n < 10") (simp_all add: show_nat_def show_radix_small show_radix_big)
qed (simp add: show_nat_def show_radix_small)

lemma show_u16_length: "length (show_u16 port) \<le> 5"
  using show_nat_length [of "unat port" 4] u16_less [of port] by (simp add: show_u16_def)

lemma no_server_test:
  assumes "\<And>port. route_of cx (''localhost'', port) = Some False"
  shows "returns_502_when_no_server_available
     (\<lambda>bs. tcp_written (handle_local_connection_resilient cx denv None True i bs StillOpen)) port"
proof -
  let ?host = "''localhost:'' @ show_u16 port"
  have words: "word ''/''" "word ?host" using word_show_u16 [of port] by (simp_all add: word_def graphic_def)
  have host: "with_port ?host = ?host" by (simp add: with_port_def)
  have "length (show_u16 port) \<le> 5" by (rule show_u16_length)
  then have "parse_request_header (as_bytes (get_request ''/'' ?host)) StillOpen =
      Ready (Some ((?host, get_request ''/'' ?host, []), []))"
    using get_request_parsed [OF words, of "[]" StillOpen] host by (simp add: MAX_HEADER_BYTES_def get_request_def crlf_def)
  moreover have "http_get_via_proxy True True ?host ''/'' bad_gateway StillOpen =
      (as_bytes (get_request ''/'' ?host), Ready (Some (502, [])))"
    using response_read [of "''Bad Gateway''" "[]" "[]" ?host "''/''" 502 "[]" StillOpen] by (simp add: answers_are_responses)
  moreover have "route_of cx (http_host_port ?host) = Some False"
    using assms http_host_port_text [of "''localhost''" port] by simp
  ultimately show ?thesis
    by (simp add: returns_502_when_no_server_available_def handle_local_connection_resilient_def to_request_def Let_def)
qed

end
