(* ===== verification/Unit_Tests.thy ===== *)
theory Unit_Tests
  imports Frame_Codec Host_Routing
begin

text \<open>
  The unit tests of the sources (the modules \<open>tests\<close> of \<open>core-lib/src/frame.rs\<close>,
  \<open>client/src/geosite.rs\<close>, \<open>client/src/geoip.rs\<close> and \<open>client/src/lib.rs\<close>), with their helpers: each test
  is a Boolean, true when none of its assertions fails and nothing panics. That they hold checks
  the model against the expectations the authors wrote down.
\<close>

subsection \<open>Frames (\<open>frame.rs\<close>)\<close>

definition round_trip :: "frame \<Rightarrow> bool" where
  "round_trip f = (case decode (encode f) of Inl _ \<Rightarrow> False | Inr g \<Rightarrow> f = g)"

definition hello_round_trip :: bool where
  "hello_round_trip = round_trip (Hello ''550e8400-e29b-41d4-a716-446655440000'')"

definition open_round_trip :: bool where
  "open_round_trip = round_trip (Open 42 ''example.com:443'')"

definition open_ack_ok_round_trip :: bool where
  "open_ack_ok_round_trip = round_trip (OpenAck 42 True)"

definition open_ack_fail_round_trip :: bool where
  "open_ack_fail_round_trip = round_trip (OpenAck 99 False)"

definition data_round_trip :: bool where
  "data_round_trip = round_trip (Data 1 (as_bytes (''GET / HTTP/1.1'' @ crlf @ crlf)))"

definition data_empty_payload_round_trip :: bool where
  "data_empty_payload_round_trip = round_trip (Data 5 [])"

definition close_round_trip :: bool where
  "close_round_trip = round_trip (Close 7)"

definition stream_id_preserved :: bool where
  "stream_id_preserved =
     (let id = 0xDEADBEEF in round_trip (Close id) \<and> round_trip (Open id ''h:1''))"

definition too_short_returns_error :: bool where
  "too_short_returns_error = (decode [0x01, 0x00] = Inl TooShort \<and> decode [] = Inl TooShort)"

definition open_ack_missing_status_byte :: bool where
  "open_ack_missing_status_byte =
     (let buf = [TYPE_OPEN_ACK, 0x00, 0x00, 0x00, 0x01] in decode buf = Inl TooShort)"

definition unknown_type_returns_error :: bool where
  "unknown_type_returns_error =
     (let buf = [0xFF, 0x00, 0x00, 0x00, 0x01] in decode buf = Inl (UnknownType 0xFF))"

definition invalid_utf8_open :: bool where
  "invalid_utf8_open =
     (let buf = [TYPE_OPEN, 0x00, 0x00, 0x00, 0x01] @ [0xFF] in decode buf = Inl InvalidUtf8)"

subsection \<open>GeoSite rules (\<open>geosite.rs\<close>)\<close>

text \<open>\<open>regex\<close> is \<open>Regex::new(s).unwrap()\<close>; a test that builds no regex runs with any.\<close>

definition matcher ::
  "(string \<Rightarrow> 're) \<Rightarrow> string list \<Rightarrow> string list \<Rightarrow> string list \<Rightarrow> string list \<Rightarrow> 're geosite_matcher" where
  "matcher regex ds fs ks rs =
     \<lparr>domains = map (\<lambda>s. ''.'' @ s) ds, fulls = fs, site_keywords = ks, regexes = map regex rs\<rparr>"

definition domain_suffix_matches_apex_and_subdomain ::
  "(string \<Rightarrow> 're) \<Rightarrow> ('re \<Rightarrow> string \<Rightarrow> bool) \<Rightarrow> bool" where
  "domain_suffix_matches_apex_and_subdomain regex is_match =
     (let m = matcher regex [''foo.com''] [] [] [] in
        geosite_matches is_match m ''foo.com'' = Some True \<and>
        geosite_matches is_match m ''bar.foo.com'' = Some True \<and>
        geosite_matches is_match m ''deep.bar.foo.com'' = Some True \<and>
        geosite_matches is_match m ''notfoo.com'' = Some False \<and>
        geosite_matches is_match m ''xfoo.com'' = Some False)"

definition full_domain_matches_exactly :: "(string \<Rightarrow> 're) \<Rightarrow> ('re \<Rightarrow> string \<Rightarrow> bool) \<Rightarrow> bool" where
  "full_domain_matches_exactly regex is_match =
     (let m = matcher regex [] [''www.foo.com''] [] [] in
        geosite_matches is_match m ''www.foo.com'' = Some True \<and>
        geosite_matches is_match m ''foo.com'' = Some False \<and>
        geosite_matches is_match m ''bar.foo.com'' = Some False)"

definition keyword_matches_substring :: "(string \<Rightarrow> 're) \<Rightarrow> ('re \<Rightarrow> string \<Rightarrow> bool) \<Rightarrow> bool" where
  "keyword_matches_substring regex is_match =
     (let m = matcher regex [] [] [''baidu''] [] in
        geosite_matches is_match m ''www.baidu.com'' = Some True \<and>
        geosite_matches is_match m ''baidu.com'' = Some True \<and>
        geosite_matches is_match m ''tieba.baidu.com'' = Some True \<and>
        geosite_matches is_match m ''notba-idu.com'' = Some False)"

definition regex_matches_pattern :: "(string \<Rightarrow> 're) \<Rightarrow> ('re \<Rightarrow> string \<Rightarrow> bool) \<Rightarrow> bool" where
  "regex_matches_pattern regex is_match =
     (let m = matcher regex [] [] [] [''^.*'' @ [CHR 0x5C] @ ''.cn$''] in
        geosite_matches is_match m ''example.cn'' = Some True \<and>
        geosite_matches is_match m ''sub.example.cn'' = Some True \<and>
        geosite_matches is_match m ''example.com'' = Some False)"

text \<open>\<open>load\<close> is the loader under test: the result is an I/O error.\<close>

definition geosite_missing_file_returns_io_error ::
  "(string \<Rightarrow> string list \<Rightarrow> geosite_error + 're geosite_matcher) \<Rightarrow> bool" where
  "geosite_missing_file_returns_io_error load =
     (case load ''nonexistent.dat'' [''cn''] of Inl (SiteIo _) \<Rightarrow> True | _ \<Rightarrow> False)"

definition geoip_missing_file_returns_io_error ::
  "(string \<Rightarrow> string list \<Rightarrow> geoip_error + 'n list) \<Rightarrow> bool" where
  "geoip_missing_file_returns_io_error load =
     (case load ''nonexistent.dat'' [''cn''] of Inl (IpIo _) \<Rightarrow> True | _ \<Rightarrow> False)"

subsection \<open>Routing (\<open>lib.rs\<close>)\<close>

definition pat :: "(string \<Rightarrow> string) \<Rightarrow> string \<Rightarrow> host_pattern" where
  "pat lo s = host_pattern_parse lo s"

definition test_config :: "(string \<Rightarrow> string) \<Rightarrow> string list \<Rightarrow> string list \<Rightarrow> ('re, 'n) routing_config" where
  "test_config lo proxy bypass =
     \<lparr>rc_proxy = map (pat lo) proxy, rc_bypass = map (pat lo) bypass, rc_geosite = None, rc_cidrs = []\<rparr>"

definition wildcard_subdomain :: "(string \<Rightarrow> string) \<Rightarrow> bool" where
  "wildcard_subdomain lo =
     (let r = pat lo ''*.example.com'' in
        host_pattern_matches r ''foo.example.com'' 80 \<and>
        host_pattern_matches r ''foo.example.com'' 443 \<and>
        \<not> host_pattern_matches r ''example.com'' 80 \<and>
        \<not> host_pattern_matches r ''notexample.com'' 80)"

definition port_specific_rule :: "(string \<Rightarrow> string) \<Rightarrow> bool" where
  "port_specific_rule lo =
     (let r = pat lo ''example.com:8080'' in
        host_pattern_matches r ''example.com'' 8080 \<and> \<not> host_pattern_matches r ''example.com'' 80)"

text \<open>
  The remaining tests ask \<open>should_bypass\<close>, here with its parameters fixed: \<open>ask cfg host port\<close>.
\<close>

type_synonym ('re, 'n) ask = "('re, 'n) routing_config \<Rightarrow> string \<Rightarrow> u16 \<Rightarrow> bool option"

definition proxy_overrides_bypass :: "(string \<Rightarrow> string) \<Rightarrow> ('re, 'n) ask \<Rightarrow> bool" where
  "proxy_overrides_bypass lo ask =
     (let cfg = test_config lo [''github.com''] [''github.com''] in ask cfg ''github.com'' 443 = Some False)"

definition bypass_host_rule :: "(string \<Rightarrow> string) \<Rightarrow> ('re, 'n) ask \<Rightarrow> bool" where
  "bypass_host_rule lo ask =
     (let cfg = test_config lo [] [''localhost'', ''127.0.0.1''] in
        ask cfg ''localhost'' 80 = Some True \<and> ask cfg ''127.0.0.1'' 80 = Some True \<and>
        ask cfg ''example.com'' 80 = Some False)"

text \<open>\<open>net_from_str\<close> is \<open>IpNet::from_str\<close> of the crate ipnet; a failed parse is a panic.\<close>

definition cidr_bypass :: "(string \<Rightarrow> 'n option) \<Rightarrow> (string \<Rightarrow> string) \<Rightarrow> ('re, 'n) ask \<Rightarrow> bool" where
  "cidr_bypass net_from_str lo ask =
     (case net_from_str ''192.168.0.0/16'' of
        None \<Rightarrow> False
      | Some net \<Rightarrow>
          let cfg = test_config lo [] []; cfg = cfg\<lparr>rc_cidrs := rc_cidrs cfg @ [net]\<rparr> in
            ask cfg ''192.168.1.1'' 80 = Some True \<and> ask cfg ''1.2.3.4'' 80 = Some False)"

definition proxy_overrides_cidr :: "(string \<Rightarrow> 'n option) \<Rightarrow> (string \<Rightarrow> string) \<Rightarrow> ('re, 'n) ask \<Rightarrow> bool" where
  "proxy_overrides_cidr net_from_str lo ask =
     (case net_from_str ''192.168.0.0/16'' of
        None \<Rightarrow> False
      | Some net \<Rightarrow>
          let cfg = test_config lo [''192.168.1.1''] []; cfg = cfg\<lparr>rc_cidrs := rc_cidrs cfg @ [net]\<rparr> in
            ask cfg ''192.168.1.1'' 80 = Some False)"

definition default_routing_proxies_everything :: "('re, 'n) ask \<Rightarrow> bool" where
  "default_routing_proxies_everything ask =
     (ask routing_default ''example.com'' 443 = Some False \<and> ask routing_default ''1.2.3.4'' 80 = Some False)"

definition geosite_config :: "string list \<Rightarrow> ('re, 'n) routing_config" where
  "geosite_config ds =
     \<lparr>rc_proxy = [], rc_bypass = [],
      rc_geosite = Some \<lparr>domains = map (\<lambda>s. ''.'' @ s) ds, fulls = [], site_keywords = [], regexes = []\<rparr>,
      rc_cidrs = []\<rparr>"

definition geosite_domain_bypassed :: "('re, 'n) ask \<Rightarrow> bool" where
  "geosite_domain_bypassed ask =
     (let cfg = geosite_config [''baidu.com'', ''alicdn.com''] in
        ask cfg ''baidu.com'' 443 = Some True \<and> ask cfg ''www.baidu.com'' 443 = Some True \<and>
        ask cfg ''g.alicdn.com'' 443 = Some True \<and> ask cfg ''google.com'' 443 = Some False)"

definition proxy_rule_overrides_geosite :: "(string \<Rightarrow> string) \<Rightarrow> ('re, 'n) ask \<Rightarrow> bool" where
  "proxy_rule_overrides_geosite lo ask =
     (let sites = \<lparr>domains = [''.baidu.com''], fulls = [], site_keywords = [], regexes = []\<rparr>;
          cfg = \<lparr>rc_proxy = [pat lo ''baidu.com''], rc_bypass = [], rc_geosite = Some sites, rc_cidrs = []\<rparr>;
          cfg2 = \<lparr>rc_proxy = [pat lo ''baidu.com'', pat lo ''*.baidu.com''], rc_bypass = [],
            rc_geosite = Some sites, rc_cidrs = []\<rparr> in
        ask cfg ''baidu.com'' 443 = Some False \<and> ask cfg ''www.baidu.com'' 443 = Some True \<and>
        ask cfg2 ''baidu.com'' 443 = Some False \<and> ask cfg2 ''www.baidu.com'' 443 = Some False)"

subsection \<open>They pass\<close>

text \<open>The twelve unit tests of the frame codec pass.\<close>

theorem frame_tests_pass:
  "hello_round_trip \<and> open_round_trip \<and> open_ack_ok_round_trip \<and> open_ack_fail_round_trip \<and> data_round_trip \<and>
   data_empty_payload_round_trip \<and> close_round_trip \<and> stream_id_preserved \<and> too_short_returns_error \<and>
   open_ack_missing_status_byte \<and> unknown_type_returns_error \<and> invalid_utf8_open"
  by (intro conjI; code_simp)

lemma geosite_tests:
  assumes "\<And>h. CHR 0x0A \<notin> set h \<Longrightarrow>
      is_match (regex (''^.*'' @ [CHR 0x5C] @ ''.cn$'')) h \<longleftrightarrow> ends_with h ''.cn''"
  shows "domain_suffix_matches_apex_and_subdomain regex is_match" "full_domain_matches_exactly regex is_match"
    and "keyword_matches_substring regex is_match" "regex_matches_pattern regex is_match"
proof -
  show "domain_suffix_matches_apex_and_subdomain regex is_match" by code_simp
  show "full_domain_matches_exactly regex is_match" by code_simp
  show "keyword_matches_substring regex is_match" by code_simp
  have "ends_with ''example.cn'' ''.cn''" "ends_with ''sub.example.cn'' ''.cn''" "\<not> ends_with ''example.com'' ''.cn''"
    by code_simp+
  then show "regex_matches_pattern regex is_match"
    using assms [of "''example.cn''"] assms [of "''sub.example.cn''"] assms [of "''example.com''"]
    by (simp add: regex_matches_pattern_def matcher_def geosite_matches_def)
qed

lemma port_text: "parse_u16 ''8080'' = Some 8080"
  by (simp add: parse_u16_def parse_uint_def digit_val_def starts_with_def)

lemma pattern_tests: "wildcard_subdomain lo" "port_specific_rule lo"
proof -
  show "wildcard_subdomain lo" by code_simp
  have "to_lowercase lo ''example.com:8080'' = ''example.com:8080''" by code_simp
  moreover have "rsplit_once (CHR '':'') ''example.com:8080'' = Some (''example.com'', ''8080'')" by code_simp
  ultimately have "pat lo ''example.com:8080'' = \<lparr>pat_host = ''example.com'', pat_port = Some 8080\<rparr>"
    by (simp add: pat_def host_pattern_parse_def port_text)
  then show "port_specific_rule lo"
    by (simp add: port_specific_rule_def host_pattern_matches_def starts_with_def)
qed

lemma should_bypass_no_cidrs:
  assumes "rc_cidrs cfg = []"
  shows "should_bypass lo is_match net_contains cfg host port =
     (let h = to_lowercase lo host
      in if list_ex (\<lambda>r. host_pattern_matches r h port) (rc_proxy cfg) then Some False
         else if list_ex (\<lambda>r. host_pattern_matches r h port) (rc_bypass cfg) then Some True
         else (case rc_geosite cfg of None \<Rightarrow> Some False | Some gs \<Rightarrow> geosite_matches is_match gs h))"
  using assms by (auto simp: should_bypass_def Let_def split: option.splits bool.splits)

lemma should_bypass_tests:
  "proxy_overrides_bypass lo (should_bypass lo is_match net_contains)"
  "bypass_host_rule lo (should_bypass lo is_match net_contains)"
  "default_routing_proxies_everything (should_bypass lo is_match net_contains)"
  "geosite_domain_bypassed (should_bypass lo is_match net_contains)"
  "proxy_rule_overrides_geosite lo (should_bypass lo is_match net_contains)"
proof -
  note ask = should_bypass_no_cidrs test_config_def geosite_config_def routing_default_def Let_def
  have "host_pattern_matches (pat lo ''github.com'') (to_lowercase lo ''github.com'') 443" by code_simp
  then show "proxy_overrides_bypass lo (should_bypass lo is_match net_contains)"
    by (simp add: proxy_overrides_bypass_def ask)
  have "host_pattern_matches (pat lo ''localhost'') (to_lowercase lo ''localhost'') 80"
    "host_pattern_matches (pat lo ''127.0.0.1'') (to_lowercase lo ''127.0.0.1'') 80"
    "\<not> host_pattern_matches (pat lo ''localhost'') (to_lowercase lo ''example.com'') 80"
    "\<not> host_pattern_matches (pat lo ''127.0.0.1'') (to_lowercase lo ''example.com'') 80" by code_simp+
  then show "bypass_host_rule lo (should_bypass lo is_match net_contains)"
    by (simp add: bypass_host_rule_def ask)
  show "default_routing_proxies_everything (should_bypass lo is_match net_contains)"
    by (simp add: default_routing_proxies_everything_def ask)
  let ?gs = "\<lparr>domains = [''.baidu.com'', ''.alicdn.com''], fulls = [], site_keywords = [], regexes = []\<rparr>"
  have "geosite_matches is_match ?gs (to_lowercase lo ''baidu.com'') = Some True"
    "geosite_matches is_match ?gs (to_lowercase lo ''www.baidu.com'') = Some True"
    "geosite_matches is_match ?gs (to_lowercase lo ''g.alicdn.com'') = Some True"
    "geosite_matches is_match ?gs (to_lowercase lo ''google.com'') = Some False" by code_simp+
  then show "geosite_domain_bypassed (should_bypass lo is_match net_contains)"
    by (simp add: geosite_domain_bypassed_def ask)
  let ?g = "\<lparr>domains = [''.baidu.com''], fulls = [], site_keywords = [], regexes = []\<rparr>"
  have "host_pattern_matches (pat lo ''baidu.com'') (to_lowercase lo ''baidu.com'') 443"
    "\<not> host_pattern_matches (pat lo ''baidu.com'') (to_lowercase lo ''www.baidu.com'') 443"
    "host_pattern_matches (pat lo ''*.baidu.com'') (to_lowercase lo ''www.baidu.com'') 443"
    "geosite_matches is_match ?g (to_lowercase lo ''www.baidu.com'') = Some True" by code_simp+
  then show "proxy_rule_overrides_geosite lo (should_bypass lo is_match net_contains)"
    by (simp add: proxy_rule_overrides_geosite_def ask)
qed
lemma cidr_tests:
  assumes "net_from_str ''192.168.0.0/16'' = net_new (V4 192 168 0 0) 16" and "ipnet_contract net_new net_contains"
  shows "cidr_bypass net_from_str lo (should_bypass lo is_match net_contains)"
    and "proxy_overrides_cidr net_from_str lo (should_bypass lo is_match net_contains)"
proof -
  obtain net where net: "net_new (V4 192 168 0 0) 16 = Some net"
    using assms(2) unfolding ipnet_contract_def
    by (cases "net_new (V4 192 168 0 0) 16") (auto dest: spec [of _ "V4 192 168 0 0"])
  have "net_contains net ip \<longleftrightarrow> in_network [192, 168, 0, 0] 16 (ip_octets ip)" for ip
    using assms(2) net unfolding ipnet_contract_def by fastforce
  moreover have "in_network [192, 168, 0, 0] 16 (ip_octets (V4 192 168 1 1))"
    "\<not> in_network [192, 168, 0, 0] 16 (ip_octets (V4 1 2 3 4))" by code_simp+
  moreover have "parse_ip ''192.168.1.1'' = Some (V4 192 168 1 1)" "parse_ip ''1.2.3.4'' = Some (V4 1 2 3 4)"
    by code_simp+
  moreover have "to_lowercase lo ''192.168.1.1'' = ''192.168.1.1''" "to_lowercase lo ''1.2.3.4'' = ''1.2.3.4''"
    by code_simp+
  ultimately show "cidr_bypass net_from_str lo (should_bypass lo is_match net_contains)"
    using assms(1) net by (simp add: cidr_bypass_def test_config_def should_bypass_def)
  have "host_pattern_matches (pat lo ''192.168.1.1'') ''192.168.1.1'' 80" by code_simp
  then show "proxy_overrides_cidr net_from_str lo (should_bypass lo is_match net_contains)"
    using assms(1) net \<open>to_lowercase lo ''192.168.1.1'' = ''192.168.1.1''\<close>
    by (simp add: proxy_overrides_cidr_def test_config_def should_bypass_def)
qed

text \<open>The unit tests of the client (GeoSite, GeoIP, host patterns, routing) pass, whatever the case
  mapping of non-ASCII letters: given that the regex crate reads the one pattern of the tests as
  "ends in .cn", that the ipnet crate reads \<open>192.168.0.0/16\<close> as that network and keeps its contract,
  and that the file of the two error tests does not exist.\<close>

theorem client_tests_pass:
  assumes "\<And>h. CHR 0x0A \<notin> set h \<Longrightarrow>
      is_match (regex (''^.*'' @ [CHR 0x5C] @ ''.cn$'')) h \<longleftrightarrow> ends_with h ''.cn''"
    and "net_from_str ''192.168.0.0/16'' = net_new (V4 192 168 0 0) 16"
    and "ipnet_contract net_new net_contains"
    and "read_file ''nonexistent.dat'' = Inl e"
  shows "domain_suffix_matches_apex_and_subdomain regex is_match \<and> full_domain_matches_exactly regex is_match \<and>
     keyword_matches_substring regex is_match \<and> regex_matches_pattern regex is_match \<and>
     geosite_missing_file_returns_io_error (load_geosite_dat read_file decode_geosite regex_new lo up) \<and>
     geoip_missing_file_returns_io_error (load_geoip_dat read_file decode_geoip net_new up) \<and>
     wildcard_subdomain lo \<and> port_specific_rule lo \<and>
     (let ask = should_bypass lo is_match net_contains in
        proxy_overrides_bypass lo ask \<and> bypass_host_rule lo ask \<and> cidr_bypass net_from_str lo ask \<and>
        proxy_overrides_cidr net_from_str lo ask \<and> default_routing_proxies_everything ask \<and>
        geosite_domain_bypassed ask \<and> proxy_rule_overrides_geosite lo ask)"
  using geosite_tests [of is_match regex, OF assms(1)] cidr_tests [of net_from_str net_new net_contains lo is_match, OF assms(2,3)]
    should_bypass_tests [of lo is_match net_contains] pattern_tests [of lo] assms(4)
  by (simp add: geosite_missing_file_returns_io_error_def geoip_missing_file_returns_io_error_def
      load_geosite_dat_def load_geoip_dat_def)

theorem client_tests_pass_witness:
  "cidr_bypass (\<lambda>_. pair_net (V4 192 168 0 0) 16) (\<lambda>s. s) (should_bypass (\<lambda>s. s) (\<lambda>(_ :: string) h. ends_with h ''.cn'') pair_contains) \<and>
   regex_matches_pattern (\<lambda>s. s) (\<lambda>_ h. ends_with h ''.cn'')"
proof -
  have "(\<lambda>_ h. ends_with h ''.cn'') ((\<lambda>s. s) (''^.*'' @ [CHR 0x5C] @ ''.cn$'')) h \<longleftrightarrow> ends_with h ''.cn''" for h
    by (rule refl)
  from client_tests_pass [where regex = "\<lambda>s. s" and lo = "\<lambda>s. s" and net_from_str = "\<lambda>_. pair_net (V4 192 168 0 0) 16" and
      read_file = "\<lambda>_. Inl ''not found''" and up = "\<lambda>s. s" and decode_geosite = "\<lambda>_. Inl []" and
      decode_geoip = "\<lambda>_. Inl []" and regex_new = "\<lambda>_. Inr ()", OF this refl pair_net_contract refl]
  show ?thesis by (simp only: Let_def simp_thms)
qed

end
