(* ===== verification/Spec2Isabelle.thy ===== *)
theory Spec2Isabelle
  imports Deployment Programs Keeper_Progress Host_Codec Read_Ahead Direct_Relay Valid_Strings
    Stalled_Stream Success_Answers Integration_Tests Unit_Tests
begin

text \<open>
  A verification library of echo-proxy-core, a tunnel for HTTP and SOCKS5 proxy traffic over one
  WebSocket connection.

  \<^bold>\<open>The program.\<close> A client (crate \<open>client\<close>) accepts local HTTP and SOCKS5 connections, decides for
  each whether to connect directly or through the tunnel, and multiplexes the tunnelled ones as
  streams over a WebSocket connection to the server (crate \<open>server\<close>). The connection carries
  frames (\<open>core-lib/src/frame.rs\<close>): HELLO with a token, OPEN and OPEN\_ACK of a stream, DATA,
  CLOSE. A client first gets a token from \<open>/control\<close> and presents it on \<open>/mux\<close>. On each end
  a reader loop routes incoming DATA through a registry of streams (\<open>core-lib/src/session.rs\<close>)
  and a writer loop drains a channel of outgoing frames; the server opens TCP connections to the
  destinations of OPEN frames that pass a filter. A keeper task of the client reconnects.

  \<^bold>\<open>The theories\<close>, in the order of their imports:

  \<^item> \<open>EP_Prelude\<close>: bytes and words, big-endian layout, lists. \<open>Rust_Str\<close>: the part of \<open>str\<close> and
    \<open>String\<close> the code uses (UTF-8, splitting, trimming, case, numbers). A string is its bytes.
  \<^item> \<open>Frame_Codec\<close>: \<open>frame.rs\<close>; the locale \<open>wire_codec\<close>. Round trip, soundness and errors of \<open>decode\<close>.
  \<^item> \<open>Session\<close>: \<open>session.rs\<close>; channels as a contract (\<open>chan_contract\<close>), the registry, the locale
    \<open>stream_table\<close> with isolation of streams, interpreted on the registry as \<open>reg\<close>.
  \<^item> \<open>Ip_Addr\<close>, \<open>Server_Dest\<close>: the parser, printer and classes of IP addresses of the standard
    library, and the destination filter \<open>is_dest_allowed\<close>, compared with address ranges.
  \<^item> \<open>Server_Control\<close>: \<open>serve\<close>, \<open>accept_connection\<close>, \<open>process_control\<close>, the token store (locale
    \<open>token_table\<close>) and the HELLO loop; tokens are single use over a server's life.
  \<^item> \<open>Effects\<close>: what asynchronous code does, as lists of effects, and the relay loops of both ends.
  \<^item> \<open>Server_Mux\<close>: \<open>run_server_mux_session\<close> and \<open>handle_open\<close>, as functions and as the step
    relation \<open>srv_step\<close>; invariants by rule induction (filter, order of frames, one OPEN\_ACK per
    OPEN, order of data).
  \<^item> \<open>Geo_Site\<close>, \<open>Geo_Ip\<close>, \<open>Host_Routing\<close>: \<open>geosite.rs\<close>, \<open>geoip.rs\<close>, \<open>HostPattern\<close> and
    \<open>RoutingConfig\<close>; loaded rules mean what their documentation says; the priority of rules. The
    two ways of splitting \<open>host:port\<close> interpret the locale \<open>host_port_split\<close>.
  \<^item> \<open>Http_Request\<close>, \<open>Socks5\<close>: \<open>parse_request_header\<close> and \<open>parse_socks5_request\<close> over the bytes that
    have arrived: exactness, limits, acceptance and refusals.
  \<^item> \<open>Client_Handlers\<close>: the request handlers of \<open>client/src/lib.rs\<close>; the locale \<open>mux_handler\<close> is the
    contract of those that use the tunnel, interpreted on all three.
  \<^item> \<open>Client_Session\<close>, \<open>Client_Mux\<close>: token handshake, accept loops and reader of the client, and the
    step relation \<open>cl_step\<close> of one connection with its handlers.
  \<^item> \<open>Mux_Keeper\<close>: \<open>run_mux_keeper\<close> as a state machine; delays, published connections, tokens.
  \<^item> \<open>Config\<close>, \<open>Host_Codec\<close>: start-up of both programs, and the deprecated \<open>encode_host\<close>.
  \<^item> \<open>Tunnel\<close> and this theory: both ends together.
  \<^item> \<open>Server_Delivery\<close>, \<open>Client_Delivery\<close>: while a stream stays registered and its receiver is there, every
    payload that arrived for it since then has reached its channel or is being sent to it.
  \<^item> \<open>Keeper_Progress\<close>: from every state the keeper publishes a connection again once the server can be
    reached, and ends after a stop signal; and where it does not listen to that signal.
  \<^item> \<open>Client_System\<close>: \<open>run_proxy_resilient\<close> as a whole, the step relation \<open>sys_step\<close> composed of
    \<open>keeper_step\<close>, \<open>cl_step\<close> and the accept loops; each part goes through states of its own relation,
    and ids are used once.
  \<^item> \<open>Tunnel_System\<close>: \<open>cl_step\<close> and \<open>srv_step\<close> side by side, each end reading only what the other has
    handed over before; delivery is exact in both directions, and no byte of a client goes out before
    the server has connected.
  \<^item> \<open>Server_System\<close>, \<open>Server_Shutdown\<close>: the server as a whole, the step relation \<open>server_step\<close> over the
    accept loop, every connection with its session, the token store and the shutdown channel (locale
    \<open>signal_channel\<close>), composed of \<open>serve\<close>, \<open>auth_run\<close> and \<open>srv_step\<close>; and what a shutdown ends
    and what it leaves.
  \<^item> \<open>Deployment\<close>: \<open>sys_step\<close> and \<open>server_step\<close> joined by the connections between them, in the presence of
    other clients; every connection is a tunnel of \<open>Tunnel_System\<close>, and delivery is exact for as many
    as \<open>2^32\<close> local connections, across reconnections.
  \<^item> \<open>Programs\<close>: both programs from \<open>main\<close> to the running system; a started server admits configured
    users only.
  \<^item> \<open>Direct_Relay\<close>: the two copy tasks of \<open>relay_tcp\<close>, interleaved; transparency and termination.
  \<^item> \<open>Read_Ahead\<close>: what the \<open>BufReader\<close> of the request reader takes away from the relay, and so from
    the frames the handlers send (\<open>bufreader_contract\<close>).
  \<^item> \<open>Valid_Strings\<close>: the invariant of \<open>String\<close> through parsers and handlers to the frames.
  \<^item> \<open>Rust_Words\<close>, \<open>Test_Fixtures\<close>, \<open>Fixture_Clients\<close>: \<open>integration-tests/src/lib.rs\<close>, the upstream servers
    and clients of the tests; what they write is parsed as they mean it, what they are answered is
    read as it was written.
  \<^item> \<open>Flow\<close>: the channels with their capacities, 32 for the data of a stream and 128 for frames, as the
    step relation \<open>flow_step\<close> over what was sent and what was received; the locale \<open>data_session\<close>, interpreted
    on both ends. Its sessions are runs of \<open>tun_reachable\<close>, and what is in a channel meets \<open>chan_contract\<close>.
  \<^item> \<open>End_To_End\<close>: whole connections through the tunnel as runs with these capacities: an HTTP request
    whose fixture server answers, or whose destination is refused (502), one request after the other;
    an echo behind CONNECT and SOCKS5.
  \<^item> \<open>Handler_Runs\<close>: one request handler of the client while everything else goes on; when it has come to
    its end its stream is unregistered. \<open>Success_Answers\<close>: what a local program is told of success
    comes after the server has connected.
  \<^item> \<open>Stalled_Stream\<close>: a full channel of one stream holds up all streams of its end.
  \<^item> \<open>Unit_Tests\<close>: the unit tests of the sources; they pass on the model.
  \<^item> \<open>Integration_Tests\<close>: the scenarios of \<open>integration-tests/tests\<close> about refusals and routing rules, in the
    same way.

  \<^bold>\<open>How code became definitions.\<close> A function that awaits is a function from the results of its awaits
  to its effects, in order; where a result has not come the effects end there. The tasks of a
  session interleave in \<open>srv_step\<close> and \<open>cl_step\<close>, one lock-protected operation or one completed
  await per step, with the shared state (registry, pending acknowledgements, channels) in a record;
  fields that only record history are named as such. A channel is a number; what the code relies on
  of the channel library is that a receiver sees a prefix of what was sent and that the capacity is
  respected, and that a send fails exactly when the receiver is gone. \<open>None\<close> stands for a panic
  where the code can panic (\<open>geosite_matches\<close>, \<open>should_bypass\<close>, the host codec), \<open>Pending\<close> for
  waiting on input. Stream ids, ports and bytes are words of their width, with wrap-around.

  \<^bold>\<open>Parameters\<close> stand for crates: uuid, semver, regex, ipnet, geosite\_rs, base64, the WebSocket
  upgrade and text conversion, TOML and the command line, random numbers; so does the Unicode case
  mapping of non-ASCII text. Their assumed behaviour is a named predicate (\<open>uuid_contract\<close>,
  \<open>ipnet_contract\<close>, \<open>b64_contract\<close>, \<open>lower_contract\<close>, \<open>text_contract\<close>, \<open>bufreader_contract\<close>, \<open>chan_contract\<close>), and each has an
  instance. No definition uses fuel: loops over input recurse on it, and time passes by events; the
  one loop that may not end (\<open>connect_loop\<close> of the fixtures) is a \<open>partial_function\<close>, with \<open>None\<close> for
  not returning.

  \<^bold>\<open>Not modelled:\<close> TLS, the WebSocket framing and the async runtime (libraries), logging, the size of
  read buffers (a read returns any number of bytes, a failed \<open>write_all\<close> is not resumed; only the fixtures, whose loops depend on them,
  keep theirs), and of the scenarios under \<open>integration-tests/tests\<close> the concurrent ones and the restart of
  the server; those that get an answer, or 502, through the tunnel are in \<open>End_To_End\<close>, which says that there is a run that serves
  them, one connection at a time. What holds of connections at the same time is proved of all runs,
  as safety. The position of \<open>encode_host\<close> is exact for lengths below \<open>2^53\<close>.

  \<^bold>\<open>Plan.\<close> Next: fairness for the step relations, so that what is enabled for ever happens; interleaved
  requests in the runs of \<open>End_To_End\<close>.
\<close>

section \<open>Properties of the whole tunnel\<close>

text \<open>What the code relies on of the crates uuid and tungstenite in the handshake.\<close>

definition uuid_contract :: "('u \<Rightarrow> string) \<Rightarrow> (string \<Rightarrow> 'u option) \<Rightarrow> bool" where
  "uuid_contract uuid_show uuid_parse \<longleftrightarrow>
     (\<forall>u. uuid_parse (uuid_show u) = Some u \<and> is_ascii (uuid_show u))"

definition text_contract :: "(ws_message \<Rightarrow> string option) \<Rightarrow> bool" where
  "text_contract to_text \<longleftrightarrow> (\<forall>s. to_text (WsText s) = Some s)"

text \<open>C28: a client with an allowed user and a supported version gets a token from the server's answer to
  its HELLO text, and presenting this token opens a mux session of the server once: a second
  HELLO with the same token is turned away.\<close>

theorem handshake_admits_once:
  assumes "uuid_contract us up" and "text_contract to_text"
    and "CHR '':'' \<notin> set version" and "vp version = Some v" and "rm SUPPORTED_VERSION v"
    and "user \<in> set users"
  shows "\<exists>store' reply t.
     process_control vp rm us token (Some (Some (WsText (hello_text version user)))) users store =
       (store', [SendMsg reply]) \<and>
     obtain_token_with_version to_text True True True (Some (Some reply)) = Some t \<and>
     mux_authenticate up (Some (WsBinary (encode (Hello t))) # rest) store' =
       (store - {token}, Some (token, rest)) \<and>
     mux_authenticate up (Some (WsBinary (encode (Hello t))) # rest) (store - {token}) =
       (store - {token}, None)"
proof (intro exI conjI)
  show "process_control vp rm us token (Some (Some (WsText (hello_text version user)))) users store =
      (token_insert token store, [SendMsg (WsText (''Hi:'' @ us token))])"
    unfolding hello_text_def process_control_hello [OF assms(3)] using assms(4-6) by simp
  show "obtain_token_with_version to_text True True True (Some (Some (WsText (''Hi:'' @ us token)))) =
      Some (us token)"
    using assms(2)
    by (simp add: obtain_token_with_version_def text_contract_def strip_prefix_def starts_with_def)
  have "await_hello up (Some (WsBinary (encode (Hello (us token)))) # rest) = Some (token, rest)"
    using assms(1) by (simp add: uuid_contract_def decode_encode ascii_valid_str del: encode.simps)
  then show "mux_authenticate up (Some (WsBinary (encode (Hello (us token)))) # rest) (token_insert token store) =
      (store - {token}, Some (token, rest))"
    "mux_authenticate up (Some (WsBinary (encode (Hello (us token)))) # rest) (store - {token}) =
      (store - {token}, None)"
    by (auto simp: mux_authenticate_def token_remove_def token_insert_def)
qed

text \<open>Tokens that are numbers, printed in decimal, meet the contract.\<close>

definition nat_of_text :: "string \<Rightarrow> nat option" where
  "nat_of_text s = parse_digits 0 s"

fun text_only :: "ws_message \<Rightarrow> string option" where
  "text_only (WsText s) = Some s"
| "text_only _ = None"

lemma nat_uuid_contract: "uuid_contract show_nat nat_of_text"
  by (simp add: uuid_contract_def nat_of_text_def parse_digits_show show_nat_ascii)

theorem handshake_admits_once_witness:
  "\<exists>store' reply t.
     process_control Some (\<lambda>_ _. True) show_nat 5
       (Some (Some (WsText (hello_text ''0.1.0'' ''u'')))) [''u''] {} = (store', [SendMsg reply]) \<and>
     obtain_token_with_version text_only True True True (Some (Some reply)) = Some t \<and>
     mux_authenticate nat_of_text (Some (WsBinary (encode (Hello t))) # []) store' = ({} - {5}, Some (5, [])) \<and>
     mux_authenticate nat_of_text (Some (WsBinary (encode (Hello t))) # []) ({} - {5}) = ({} - {5}, None)"
  by (rule handshake_admits_once [OF nat_uuid_contract]) (simp_all add: text_contract_def)

text \<open>
  The whole tunnel, with a client and a server session that read what the other end's writer
  loop sent over a connection that may break at any point: the values the server passes to the
  target of a stream are, in order, DATA payloads the client sent for that stream, the values
  the client passes to a local connection are DATA payloads the server sent for its stream, and
  the server connects only to allowed destinations that the client named in an OPEN.
\<close>

theorem tunnel_end_to_end:
  assumes "chan_contract frame_chan" and "chan_contract data_chan"
    and client: "cl_reachable (map Some down) cs" and server: "srv_reachable (map Some up) ss"
    and up: "frame_chan FRAME_CHANNEL_CAP (c_out cs) taken_c"
      "prefix up (fst (writer_loop (zip (map Some taken_c) oks_c)))"
    and down: "frame_chan FRAME_CHANNEL_CAP (s_out ss) taken_s"
      "prefix down (fst (writer_loop (zip (map Some taken_s) oks_s)))"
  shows "(\<forall>c i rcvd. s_owner ss c = Some i \<and> data_chan DATA_CHANNEL_CAP (s_sent ss c) rcvd \<longrightarrow>
        subseq rcvd (data_payloads i (c_out cs))) \<and>
     (\<forall>c i rcvd. c_owner cs c = Some i \<and> data_chan DATA_CHANNEL_CAP (c_sent cs c) rcvd \<longrightarrow>
        subseq rcvd (data_payloads i (s_out ss))) \<and>
     (\<forall>dest\<in>set (s_connects ss). is_dest_allowed dest \<and> (\<exists>j. Open j dest \<in> set (c_out cs)))"
proof -
  obtain fs where fs: "prefix fs (c_out cs)" "up = map (\<lambda>f. WsBinary (encode f)) fs"
    using wire_frames [OF chan_fifo [OF assms(1) up(1)] up(2)] by blast
  obtain gs where gs: "prefix gs (s_out ss)" "down = map (\<lambda>f. WsBinary (encode f)) gs"
    using wire_frames [OF chan_fifo [OF assms(1) down(1)] down(2)] by blast
  have "subseq rcvd (data_payloads i (c_out cs))"
    if "s_owner ss c = Some i" "data_chan DATA_CHANNEL_CAP (s_sent ss c) rcvd" for c i rcvd
    using chan_delivers [OF assms(2) that(2) _ fs(1)] server_receives that(1) server fs(2) by blast
  moreover have "subseq rcvd (data_payloads i (s_out ss))"
    if "c_owner cs c = Some i" "data_chan DATA_CHANNEL_CAP (c_sent cs c) rcvd" for c i rcvd
    using chan_delivers [OF assms(2) that(2) _ gs(1)] client_receives that(1) client gs(2) by blast
  moreover have "is_dest_allowed dest \<and> (\<exists>j. Open j dest \<in> set (c_out cs))"
    if "dest \<in> set (s_connects ss)" for dest
    using server_connects [of fs ss dest] server fs set_mono_prefix [OF fs(1)] that by blast
  ultimately show ?thesis by blast
qed

theorem tunnel_end_to_end_witness:
  "\<exists>cs ss. cl_reachable demo_answers cs \<and> srv_reachable demo_items ss \<and>
     c_sent cs 0 = [[5, 6]] \<and> subseq [[5, 6]] (data_payloads 1 (s_out ss)) \<and>
     s_sent ss 0 = [[7]] \<and> subseq [[7]] (data_payloads 1 (c_out cs)) \<and>
     s_connects ss = [''web.org:80''] \<and> (\<exists>j. Open j ''web.org:80'' \<in> set (c_out cs))"
proof -
  obtain cs where cs: "cl_reachable demo_answers cs" "c_out cs = [Open 1 ''web.org:80'', Data 1 [7]]"
    "c_sent cs 0 = [[5, 6]]" "c_owner cs 0 = Some 1"
    using demo_client_reachable by blast
  obtain ss where ss: "srv_reachable demo_items ss" "s_out ss = [OpenAck 1 True, Data 1 [5, 6]]"
    "s_sent ss 0 = [[7]]" "s_owner ss 0 = Some 1" "s_connects ss = [''web.org:80'']"
    using demo_run by blast
  let ?down = "fst (writer_loop (zip (map Some (s_out ss)) [True, True]))"
    and ?up = "fst (writer_loop (zip (map Some (c_out cs)) [True, True]))"
  have wires: "demo_answers = map Some ?down" "demo_items = map Some ?up"
    by (simp_all add: demo_answers_def demo_items_def cs(2) ss(2) del: encode.simps)
  have full: "fifo_chan FRAME_CHANNEL_CAP xs xs" for xs :: "frame list" by (simp add: fifo_chan_def)
  have got: "fifo_chan DATA_CHANNEL_CAP (s_sent ss 0) [[7]]" "fifo_chan DATA_CHANNEL_CAP (c_sent cs 0) [[5, 6]]"
    by (simp_all add: fifo_chan_def cs(3) ss(3))
  from tunnel_end_to_end [OF fifo_chan_contract fifo_chan_contract cs(1) [unfolded wires]
      ss(1) [unfolded wires] full prefix_order.refl full prefix_order.refl] got cs ss
  show ?thesis by (metis list.set_intros(1))
qed

end
